(* ===== verification/Prelude.thy ===== *)
theory Prelude
  imports Main "HOL-Library.Word"
begin

unbundle bit_operations_syntax

text \<open>
  Shared vocabulary of the development: the Rust integer types as machine words, results with
  their sequencing operator, the arithmetic of the standard library that the sources call
  (\<^verbatim>\<open>checked_add\<close>, \<^verbatim>\<open>saturating_add\<close>, \<^verbatim>\<open>checked_mul\<close>, \<^verbatim>\<open>checked_sub\<close>), byte-level
  predicates of \<^verbatim>\<open>u8\<close>, UTF-8 encoding of \<^verbatim>\<open>char\<close>, and the lemmas every component uses.

  Conventions. A Rust \<^verbatim>\<open>u8\<close>, \<^verbatim>\<open>u32\<close> or \<^verbatim>\<open>u64\<close> on which the source does arithmetic is a word of that
  width. A \<^verbatim>\<open>usize\<close> that only counts or indexes elements of a collection in memory is a
  \<^typ>\<open>nat\<close>, because it is bounded by the length of that collection; a \<^verbatim>\<open>usize\<close> that the code
  lets wrap (the ring positions of the queue) is a 64-bit word. A Rust \<^verbatim>\<open>str\<close> is the list of
  its UTF-8 bytes, and a byte of text is a \<^typ>\<open>char\<close>, which has exactly eight bits.
\<close>

section \<open>Integer types\<close>

type_synonym u8 = "8 word"
type_synonym u16 = "16 word"
type_synonym u32 = "32 word"
type_synonym u64 = "64 word"
type_synonym usize = "64 word"

type_synonym guid = "u8 list"

named_theorems word_order
  \<comment> \<open>rewrites an order statement on words to one on naturals\<close>

declare word_less_nat_alt [word_order] word_le_nat_alt [word_order]

lemma unat_less_2p: "unat (x :: 'a::len word) < 2 ^ LENGTH('a)"
  by (rule unsigned_less)

definition saturating_succ :: "'a::len word \<Rightarrow> 'a word" where
  "saturating_succ x = (if x = - 1 then x else x + 1)"

definition checked_succ :: "'a::len word \<Rightarrow> 'a word option" where
  "checked_succ x = (if x = - 1 then None else Some (x + 1))"

definition checked_add :: "'a::len word \<Rightarrow> 'a word \<Rightarrow> 'a word option" where
  "checked_add x y = (if unat x + unat y < 2 ^ LENGTH('a) then Some (x + y) else None)"

lemma checked_add_Some:
  "checked_add x y = Some z \<longleftrightarrow> unat x + unat y < 2 ^ LENGTH('a) \<and> z = x + (y :: 'a::len word)"
  by (auto simp: checked_add_def)

lemma unat_add_no_overflow:
  "unat x + unat y < 2 ^ LENGTH('a) \<Longrightarrow> unat (x + y) = unat x + unat (y :: 'a::len word)"
  by (rule unat_add_lem [THEN iffD1])

lemma unat_succ: "x \<noteq> - 1 \<Longrightarrow> unat (x + 1) = Suc (unat x)"
  using unatSuc [of x] by (simp add: add.commute eq_neg_iff_add_eq_0)

lemma saturating_succ_mono: "x \<le> saturating_succ x"
  by (auto simp: saturating_succ_def word_order unat_succ)

lemma less_imp_saturating_succ_le: "x < y \<Longrightarrow> saturating_succ x \<le> y"
  by (auto simp: saturating_succ_def inc_le)

lemma saturating_succ_le_iff: "x \<noteq> - 1 \<Longrightarrow> saturating_succ x \<le> y \<longleftrightarrow> x < y"
  by (auto simp: saturating_succ_def word_order unat_succ)

lemma le_saturating_succ_iff:
  "y \<le> saturating_succ x \<longleftrightarrow> y \<le> x \<or> (x \<noteq> - 1 \<and> y = x + 1)"
  by (auto simp: saturating_succ_def word_order unat_succ word_unat_eq_iff le_Suc_eq)

lemma checked_succ_Some: "checked_succ x = Some y \<longleftrightarrow> x \<noteq> - 1 \<and> y = x + 1"
  by (auto simp: checked_succ_def)

lemma less_succ_iff: "x \<noteq> - 1 \<Longrightarrow> y < x + 1 \<longleftrightarrow> y \<le> (x :: 'a::len word)"
  by (auto simp: word_order unat_succ)

lemma unat_pred: "0 < y \<Longrightarrow> unat (y - 1) = unat (y :: 'a::len word) - 1"
  by (simp add: unat_minus_one)

lemma le_pred_iff: "0 < y \<Longrightarrow> x \<le> y - 1 \<longleftrightarrow> x < (y :: 'a::len word)"
  by (auto simp: word_order unat_pred)

lemma less_imp_succ_neq_zero: "x < (y :: 'a::len word) \<Longrightarrow> x + 1 \<noteq> 0"
  by (metis add.inverse_inverse eq_neg_iff_add_eq_0 not_less word_order.extremum)

lemma unat_and_low_bits: "unat ((x :: 'a::len word) AND (2 ^ k - 1)) = unat x mod 2 ^ k"
proof -
  have "x AND (2 ^ k - 1) = take_bit k x"
    by (simp add: take_bit_eq_mask mask_eq_exp_minus_1)
  then have "unat (x AND (2 ^ k - 1)) = take_bit k (unat x)"
    by (simp only: unsigned_take_bit_eq)
  then show ?thesis by (simp only: take_bit_eq_mod)
qed

lemma unat_drop_bit: "unat (drop_bit k (x :: 'a::len word)) = unat x div 2 ^ k"
proof -
  have "unat (drop_bit k x) = drop_bit k (take_bit LENGTH('a) (unat x))"
    by (simp only: unsigned_drop_bit_eq)
  then show ?thesis by (simp only: take_bit_nat_eq_self [OF unat_less_2p] drop_bit_eq_div)
qed

lemma in_set_map_filter: "y \<in> set (List.map_filter f xs) \<longleftrightarrow> (\<exists>x \<in> set xs. f x = Some y)"
  by (force simp: List.map_filter_def)

section \<open>Results\<close>

text \<open>
  A Rust \<^verbatim>\<open>Result<T, E>\<close> is the sum \<^typ>\<open>'e + 'a\<close>, the error on the left. The operator
  \<open>rbind\<close> is the question mark: it returns the error early or goes on with the value.
\<close>

abbreviation Err :: "'e \<Rightarrow> 'e + 'a" where
  "Err \<equiv> Inl"

abbreviation Ok :: "'a \<Rightarrow> 'e + 'a" where
  "Ok \<equiv> Inr"

definition rbind :: "'e + 'a \<Rightarrow> ('a \<Rightarrow> 'e + 'b) \<Rightarrow> 'e + 'b" where
  "rbind m f = (case m of Err e \<Rightarrow> Err e | Ok a \<Rightarrow> f a)"

lemma rbind_simps [simp]:
  "rbind (Err e) f = Err e"
  "rbind (Ok a) f = f a"
  by (simp_all add: rbind_def)

lemma rbind_Ok_iff: "rbind m f = Ok b \<longleftrightarrow> (\<exists>a. m = Ok a \<and> f a = Ok b)"
  by (cases m) simp_all

lemma rbind_Err_iff: "rbind m f = Err e \<longleftrightarrow> m = Err e \<or> (\<exists>a. m = Ok a \<and> f a = Err e)"
  by (cases m) simp_all

lemma rbind_cong [fundef_cong]:
  assumes "m = m'" and "\<And>a. m' = Ok a \<Longrightarrow> f a = f' a"
  shows "rbind m f = rbind m' f'"
  using assms by (cases m') simp_all

definition ok_or :: "'e \<Rightarrow> 'a option \<Rightarrow> 'e + 'a" where
  "ok_or e x = (case x of None \<Rightarrow> Err e | Some a \<Rightarrow> Ok a)"

lemma ok_or_simps [simp]: "ok_or e None = Err e" "ok_or e (Some a) = Ok a"
  by (simp_all add: ok_or_def)

lemma ok_or_eq_Ok [simp]: "ok_or e x = Ok a \<longleftrightarrow> x = Some a"
  by (cases x) simp_all

definition map_err :: "('a \<Rightarrow> 'b) \<Rightarrow> 'a + 'c \<Rightarrow> 'b + 'c" where
  "map_err f r = (case r of Err e \<Rightarrow> Err (f e) | Ok x \<Rightarrow> Ok x)"

lemma map_err_Ok_iff: "map_err f r = Ok x \<longleftrightarrow> r = Ok x"
  by (cases r) (simp_all add: map_err_def)

text \<open>
  What a computation ensures when it returns a value, with rules that follow its structure. A test
  is remembered only in the branch where it holds.
\<close>

definition ensures :: "'e + 'a \<Rightarrow> ('a \<Rightarrow> bool) \<Rightarrow> bool" where
  "ensures m Q \<longleftrightarrow> (\<forall>x. m = Ok x \<longrightarrow> Q x)"

lemma ensures_Err [simp]: "ensures (Err e) Q"
  by (simp add: ensures_def)

lemma ensures_Ok [simp]: "ensures (Ok x) Q \<longleftrightarrow> Q x"
  by (simp add: ensures_def)

lemma ensures_rules:
  "(b \<Longrightarrow> ensures x Q) \<Longrightarrow> ensures y Q \<Longrightarrow> ensures (if b then x else y) Q"
  "(\<And>a. m = Ok a \<Longrightarrow> ensures (f a) Q) \<Longrightarrow> ensures (rbind m f) Q"
  "(\<And>a b. z = (a, b) \<Longrightarrow> ensures (g a b) Q) \<Longrightarrow> ensures (case z of (a, b) \<Rightarrow> g a b) Q"
  by (auto simp: ensures_def rbind_Ok_iff split: prod.splits)

lemma ensures_if: "(b \<Longrightarrow> ensures x Q) \<Longrightarrow> (\<not> b \<Longrightarrow> ensures y Q) \<Longrightarrow> ensures (if b then x else y) Q"
  by simp

lemma ensuresD: "ensures m Q \<Longrightarrow> m = Ok x \<Longrightarrow> Q x"
  by (simp add: ensures_def)

text \<open>A failed \<^verbatim>\<open>assert!\<close> or a slice out of range ends the thread: the outcome \<open>Panic\<close>.\<close>

datatype panic = Panic

definition assert_that :: "bool \<Rightarrow> (panic + 'a) \<Rightarrow> panic + 'a" where
  "assert_that b k = (if b then k else Err Panic)"

lemma assert_that_simps [simp]:
  "assert_that True k = k"
  "assert_that False k = Err Panic"
  by (simp_all add: assert_that_def)

lemma assert_that_Ok_iff: "assert_that b k = Ok x \<longleftrightarrow> b \<and> k = Ok x"
  by (cases b) simp_all

text \<open>Where a function can both return an error and panic, the two are told apart.\<close>

datatype 'e abort = Raised 'e | Panicked

end
