(* ===== verification/Model.thy ===== *)
theory Model
  imports Prelude
begin

text \<open>
  The owned records that drain threads hand to shard writers (\<^verbatim>\<open>eventd-core/src/model.rs\<close>): real
  KMES events, gaps, the indivisible handoff item, synthetic events, and the closed list of event
  types only eventd itself may write.
\<close>

record real_event =
  re_boot_id :: guid
  re_timestamp :: u64
  re_cpu_id :: u16
  re_sequence :: u64
  re_origin_class :: u8
  re_effective_token_guid :: guid
  re_true_token_guid :: guid
  re_process_guid :: guid
  re_event_type :: string
  re_payload :: "u8 list"

definition variable_bytes :: "real_event \<Rightarrow> nat" where
  "variable_bytes e = length (re_event_type e) + length (re_payload e)"

definition DAEMON_STARTED :: string where
  "DAEMON_STARTED = ''eventd.daemon.started''"

definition DAEMON_STOPPED :: string where
  "DAEMON_STOPPED = ''eventd.daemon.stopped''"

definition EVENTS_LOST :: string where
  "EVENTS_LOST = ''eventd.events.lost''"

definition STORE_QUARANTINED :: string where
  "STORE_QUARANTINED = ''eventd.store.quarantined''"

definition CONFIG_CHANGED :: string where
  "CONFIG_CHANGED = ''eventd.config.changed''"

definition STORE_WRITTEN_TYPES :: "string list" where
  "STORE_WRITTEN_TYPES =
     [DAEMON_STARTED, DAEMON_STOPPED, EVENTS_LOST, STORE_QUARANTINED, CONFIG_CHANGED]"

definition is_store_written :: "string \<Rightarrow> bool" where
  "is_store_written event_type \<longleftrightarrow> event_type \<in> set STORE_WRITTEN_TYPES"

record gap =
  first_sequence :: u64
  last_sequence :: u64
  gap_preceding_timestamp :: "u64 option"
  revealing_timestamp :: u64

definition gap_count :: "gap \<Rightarrow> u64" where
  "gap_count g = last_sequence g - first_sequence g + 1"

record ingest_item =
  item_gaps :: "gap list"
  item_store_event :: bool
  item_event :: real_event

record synthetic_event =
  syn_boot_id :: guid
  syn_timestamp :: u64
  syn_event_type :: string
  syn_payload :: "u8 list"

text \<open>
  The two struct sizes are the compiler's (\<^verbatim>\<open>core::mem::size_of\<close>), so they are arguments.
\<close>

definition charged_bytes :: "nat \<Rightarrow> nat \<Rightarrow> ingest_item \<Rightarrow> nat" where
  "charged_bytes size_of_item size_of_gap item =
     size_of_item + variable_bytes (item_event item) + length (item_gaps item) * size_of_gap"

text \<open>The sequences a gap stands for.\<close>

definition gap_set :: "gap \<Rightarrow> u64 set" where
  "gap_set g = {s. first_sequence g \<le> s \<and> s \<le> last_sequence g}"

definition gap_wf :: "gap \<Rightarrow> bool" where
  "gap_wf g \<longleftrightarrow> 0 < first_sequence g \<and> first_sequence g \<le> last_sequence g"

lemma unat_gap_count:
  assumes "gap_wf g"
  shows "unat (gap_count g) = card (gap_set g)"
proof -
  let ?f = "unat (first_sequence g)" and ?l = "unat (last_sequence g)"
  have le: "?f \<le> ?l" and pos: "0 < ?f"
    using assms by (simp_all add: gap_wf_def word_order unat_gt_0)
  have "unat (last_sequence g - first_sequence g) = ?l - ?f"
    using assms by (simp add: gap_wf_def unat_sub)
  moreover have "?l < 2 ^ 64"
    using unat_less_2p [of "last_sequence g"] by simp
  ultimately have count: "unat (gap_count g) = ?l - ?f + 1"
    using pos by (simp add: gap_count_def unat_word_ariths)
  have "unat ` gap_set g = {?f..?l}"
  proof
    show "unat ` gap_set g \<subseteq> {?f..?l}"
      by (auto simp: gap_set_def word_order)
    show "{?f..?l} \<subseteq> unat ` gap_set g"
    proof
      fix n assume n: "n \<in> {?f..?l}"
      then have "unat (of_nat n :: u64) = n"
        using unat_less_2p [of "last_sequence g"] by (simp add: unat_of_nat)
      with n show "n \<in> unat ` gap_set g"
        by (intro image_eqI [of _ _ "of_nat n"]) (simp_all add: gap_set_def word_order)
    qed
  qed
  moreover have "inj_on unat (gap_set g)"
    by (rule inj_onI) (simp add: word_unat_eq_iff)
  ultimately have "card (gap_set g) = card {?f..?l}"
    by (metis card_image)
  with count le show ?thesis by simp
qed

end
