(* ===== verification/Routing.thy ===== *)
theory Routing
  imports Prelude
begin

text \<open>
  Startup-fixed shard assignment and contiguous sequence stripes
  (\<^verbatim>\<open>eventd-core/src/routing.rs\<close>): which shards one CPU's drain thread may target, and the
  router that spreads fixed-length runs of events over them.
\<close>

section \<open>Shard assignment\<close>

text \<open>\<^verbatim>\<open>(start..end).step_by(step)\<close>, collected.\<close>

function step_range :: "nat \<Rightarrow> nat \<Rightarrow> nat \<Rightarrow> nat list" where
  "step_range start stop step =
     (if start < stop \<and> 0 < step then start # step_range (start + step) stop step else [])"
  by pat_completeness auto
termination
  by (relation "measure (\<lambda>(start, stop, step). stop - start)") auto

declare step_range.simps [simp del]

definition assigned_shards :: "nat \<Rightarrow> nat \<Rightarrow> nat \<Rightarrow> panic + nat list" where
  "assigned_shards ordinal cpu_count shard_count =
     assert_that (0 < cpu_count \<and> ordinal < cpu_count)
       (assert_that (0 < shard_count)
         (let shards = step_range ordinal shard_count cpu_count in
          Ok (if shards = [] then shards @ [ordinal mod shard_count] else shards)))"

lemma in_step_range_iff:
  "0 < step \<Longrightarrow> s \<in> set (step_range start stop step) \<longleftrightarrow>
     start \<le> s \<and> s < stop \<and> s mod step = start mod step"
proof (induction start stop step rule: step_range.induct)
  case (1 start stop step)
  show ?case
  proof (cases "start < stop")
    case True
    have next_iff: "start + step \<le> s \<and> s mod step = start mod step \<longleftrightarrow>
        start < s \<and> s mod step = start mod step" (is "?l \<longleftrightarrow> ?r")
    proof
      assume ?l then show ?r using "1.prems" by simp
    next
      assume r: ?r
      then have "step dvd (s - start)"
        by (metis mod_eq_dvd_iff_nat less_imp_le)
      with r have "step \<le> s - start"
        by (simp add: dvd_imp_le)
      with r show ?l by linarith
    qed
    with True "1.IH" "1.prems" show ?thesis
      by (subst step_range.simps) auto
  next
    case False
    then show ?thesis by (subst step_range.simps) auto
  qed
qed

lemma sorted_step_range: "0 < step \<Longrightarrow> sorted_wrt (<) (step_range start stop step)"
proof (induction start stop step rule: step_range.induct)
  case (1 start stop step)
  then show ?case
    by (subst step_range.simps) (auto simp: in_step_range_iff)
qed

lemma step_range_eq_Nil_iff: "0 < step \<Longrightarrow> step_range start stop step = [] \<longleftrightarrow> stop \<le> start"
  by (subst step_range.simps) auto

lemma assigned_shards_eq:
  "ordinal < cpu_count \<Longrightarrow> 0 < shard_count \<Longrightarrow>
   assigned_shards ordinal cpu_count shard_count =
     Ok (if shard_count \<le> ordinal then [ordinal mod shard_count]
         else step_range ordinal shard_count cpu_count)"
  by (auto simp: assigned_shards_def Let_def step_range_eq_Nil_iff)

text \<open>
  C11. Every dense CPU ordinal gets a non-empty, strictly increasing list of existing shards, and
  no two CPUs ever share a shard when there are at least as many shards as CPUs: each shard then
  belongs to exactly the CPU whose ordinal is its number modulo the CPU count.
\<close>

theorem assigned_shards_partition:
  assumes "ordinal < cpu_count" and "0 < shard_count"
  shows "\<exists>shards. assigned_shards ordinal cpu_count shard_count = Ok shards \<and>
    shards \<noteq> [] \<and> sorted_wrt (<) shards \<and> (\<forall>s \<in> set shards. s < shard_count) \<and>
    (cpu_count \<le> shard_count \<longrightarrow>
      set shards = {s. s < shard_count \<and> s mod cpu_count = ordinal})"
proof (cases "shard_count \<le> ordinal")
  case True
  with assms show ?thesis by (simp add: assigned_shards_eq)
next
  case False
  let ?shards = "step_range ordinal shard_count cpu_count"
  have mem: "set ?shards = {s. ordinal \<le> s \<and> s < shard_count \<and> s mod cpu_count = ordinal}"
    using assms by (auto simp: in_step_range_iff)
  moreover have "ordinal \<le> s" if "s mod cpu_count = ordinal" for s
    using that mod_less_eq_dividend [of s cpu_count] by simp
  ultimately have "set ?shards = {s. s < shard_count \<and> s mod cpu_count = ordinal}"
    by blast
  with assms False show ?thesis
    by (auto simp: assigned_shards_eq step_range_eq_Nil_iff sorted_step_range)
qed

theorem assigned_shards_partition_witness:
  "assigned_shards 1 3 8 = Ok [1, 4, 7] \<and>
   (\<exists>shards. assigned_shards 1 3 8 = Ok shards \<and> set shards = {s. s < 8 \<and> s mod 3 = 1})"
proof -
  have "assigned_shards 1 3 8 = Ok [1, 4, 7]"
    by (simp add: assigned_shards_def step_range.simps Let_def)
  then show ?thesis
    using assigned_shards_partition [of 1 3 8] by auto
qed

section \<open>Stripes\<close>

record stripe_router =
  router_shards :: "nat list"
  stripe_length :: nat
  shard_index :: nat
  sent_in_stripe :: nat

definition stripe_router_new :: "nat list \<Rightarrow> nat \<Rightarrow> panic + stripe_router" where
  "stripe_router_new xs len =
     assert_that (xs \<noteq> [])
       (assert_that (0 < len)
         (Ok \<lparr>router_shards = xs, stripe_length = len,
               shard_index = 0, sent_in_stripe = 0\<rparr>))"

definition current_shard :: "stripe_router \<Rightarrow> panic + nat" where
  "current_shard r =
     (if shard_index r < length (router_shards r) then Ok (router_shards r ! shard_index r) else Err Panic)"

definition advance :: "stripe_router \<Rightarrow> stripe_router" where
  "advance r =
     (let r1 = r\<lparr>sent_in_stripe := sent_in_stripe r + 1\<rparr> in
      if sent_in_stripe r1 = stripe_length r1
      then r1\<lparr>sent_in_stripe := 0,
              shard_index := (shard_index r1 + 1) mod length (router_shards r1)\<rparr>
      else r1)"

definition next_shard :: "stripe_router \<Rightarrow> panic + (nat \<times> stripe_router)" where
  "next_shard r = rbind (current_shard r) (\<lambda>shard. Ok (shard, advance r))"

text \<open>A drain thread's successive calls of \<^verbatim>\<open>next_shard\<close>.\<close>

fun route :: "nat \<Rightarrow> stripe_router \<Rightarrow> panic + nat list" where
  "route 0 r = Ok []"
| "route (Suc n) r =
     rbind (next_shard r) (\<lambda>(shard, r'). rbind (route n r') (\<lambda>rest. Ok (shard # rest)))"

definition router_invar :: "stripe_router \<Rightarrow> bool" where
  "router_invar r \<longleftrightarrow>
     router_shards r \<noteq> [] \<and> 0 < stripe_length r \<and>
     shard_index r < length (router_shards r) \<and> sent_in_stripe r < stripe_length r"

text \<open>How many events a router in this state has routed, modulo one round over its shards.\<close>

definition router_position :: "stripe_router \<Rightarrow> nat" where
  "router_position r = shard_index r * stripe_length r + sent_in_stripe r"

lemma router_invar_new:
  "stripe_router_new xs n = Ok r \<Longrightarrow> router_invar r \<and> router_position r = 0"
  by (auto simp: stripe_router_new_def assert_that_Ok_iff router_invar_def router_position_def)

lemma router_invar_advance: "router_invar r \<Longrightarrow> router_invar (advance r)"
  by (auto simp: router_invar_def advance_def Let_def)

lemma advance_frame [simp]:
  "router_shards (advance r) = router_shards r"
  "stripe_length (advance r) = stripe_length r"
  by (auto simp: advance_def Let_def)

lemma router_position_advance:
  assumes "router_invar r"
  shows "router_position (advance r) =
    (router_position r + 1) mod (length (router_shards r) * stripe_length r)"
proof -
  let ?n = "length (router_shards r)" and ?l = "stripe_length r"
  have inv: "shard_index r < ?n" "sent_in_stripe r < ?l" "0 < ?l"
    using assms by (auto simp: router_invar_def)
  have step: "shard_index r * ?l + ?l \<le> ?n * ?l"
    using inv(1) by (metis Suc_leI mult_Suc mult_le_mono1 add.commute)
  show ?thesis
  proof (cases "Suc (sent_in_stripe r) = ?l")
    case False
    with inv step have "router_position r + 1 < ?n * ?l"
      by (simp add: router_position_def)
    with False show ?thesis
      by (simp add: advance_def router_position_def Let_def)
  next
    case last: True
    then have pos: "router_position r + 1 = Suc (shard_index r) * ?l"
      by (simp add: router_position_def)
    show ?thesis
    proof (cases "Suc (shard_index r) = ?n")
      case True
      with last pos show ?thesis
        by (simp add: advance_def router_position_def Let_def del: mult_Suc)
    next
      case False
      with inv(1) have "Suc (shard_index r) < ?n" by simp
      with inv(3) last pos show ?thesis
        by (simp add: advance_def router_position_def Let_def del: mult_Suc)
    qed
  qed
qed

lemma router_position_shard:
  "router_invar r \<Longrightarrow> current_shard r = Ok (router_shards r ! (router_position r div stripe_length r))"
  by (auto simp: router_invar_def current_shard_def router_position_def)

lemma route_eq:
  assumes "router_invar r"
  shows "route n r = Ok (map (\<lambda>i. router_shards r !
    ((router_position r + i) mod (length (router_shards r) * stripe_length r) div stripe_length r)) [0..<n])"
  using assms
proof (induction n arbitrary: r)
  case 0
  then show ?case by simp
next
  case (Suc n)
  let ?m = "length (router_shards r) * stripe_length r"
  from Suc.prems have "router_position r < ?m"
  proof -
    have "Suc (shard_index r) * stripe_length r \<le> ?m"
      using Suc.prems by (intro mult_le_mono1) (simp add: router_invar_def)
    then show ?thesis
      using Suc.prems by (simp add: router_position_def router_invar_def)
  qed
  with Suc.prems Suc.IH [OF router_invar_advance [OF Suc.prems]] show ?case
    by (simp add: next_shard_def router_position_shard router_position_advance mod_add_left_eq
        map_upt_Suc del: upt_Suc)
qed

text \<open>
  A fresh router over a non-empty shard list sends stripes of exactly the configured length:
  the \<open>i\<close>-th real event goes to the shard at position \<open>(i div stripe_length) mod n\<close> of the list, so
  consecutive events stay together and every shard takes its turn, without ever panicking.
\<close>

theorem route_stripes:
  assumes "stripe_router_new xs len = Ok r"
  shows "route n r = Ok (map (\<lambda>i. xs ! ((i div len) mod length xs)) [0..<n])"
proof -
  from assms have r: "router_shards r = xs" "stripe_length r = len" "0 < len"
    by (auto simp: stripe_router_new_def assert_that_Ok_iff)
  have "i mod (length xs * len) div len = (i div len) mod length xs" for i
    by (simp add: mult.commute mod_mult2_eq \<open>0 < len\<close>)
  with router_invar_new [OF assms] r show ?thesis
    by (simp add: route_eq)
qed

theorem route_stripes_witness:
  "\<exists>r. stripe_router_new [1, 4, 7] 2 = Ok r \<and> route 8 r = Ok [1, 1, 4, 4, 7, 7, 1, 1]"
proof -
  obtain r where r: "stripe_router_new [1, 4, 7] 2 = Ok r"
    by (simp add: stripe_router_new_def)
  have "[0..<8] = [0, 1, 2, 3, 4, 5, 6, 7 :: nat]"
    by (simp add: upt_rec)
  with route_stripes [OF r, of 8] r show ?thesis by simp
qed

end
