(* ===== verification/Receipt.thy ===== *)
theory Receipt
  imports Prelude "HOL-Library.Multiset"
begin

text \<open>
  Conservative union and lookup of committed sequence receipts
  (\<^verbatim>\<open>eventd-core/src/receipt.rs\<close>). A receipt row is an inclusive sequence interval of one
  \<open>(boot, cpu)\<close> stream; the coverage keeps, per stream, the merged intervals in ascending order.
\<close>

section \<open>Intervals\<close>

record interval =
  iv_first :: u64
  iv_last :: u64

definition interval_new :: "u64 \<Rightarrow> u64 \<Rightarrow> interval option" where
  "interval_new f l =
     (if 0 < f \<and> f \<le> l then Some \<lparr>iv_first = f, iv_last = l\<rparr> else None)"

definition interval_contains :: "interval \<Rightarrow> u64 \<Rightarrow> bool" where
  "interval_contains iv s \<longleftrightarrow> iv_first iv \<le> s \<and> s \<le> iv_last iv"

definition interval_wf :: "interval \<Rightarrow> bool" where
  "interval_wf iv \<longleftrightarrow> 0 < iv_first iv \<and> iv_first iv \<le> iv_last iv"

lemma interval_new_wf: "interval_new f l = Some iv \<Longrightarrow> interval_wf iv"
  by (auto simp: interval_new_def interval_wf_def split: if_splits)

section \<open>Coverage\<close>

type_synonym coverage = "guid \<times> u16 \<rightharpoonup> interval list"

text \<open>The first loop of \<^verbatim>\<open>from_receipts\<close>: rows grouped by stream, in the order they come.\<close>

definition push_receipt :: "coverage \<Rightarrow> guid \<times> u16 \<times> interval \<Rightarrow> coverage" where
  "push_receipt ranges row =
     (case row of (boot, cpu, iv) \<Rightarrow>
        ranges((boot, cpu) \<mapsto> (case ranges (boot, cpu) of None \<Rightarrow> [] | Some ivs \<Rightarrow> ivs) @ [iv]))"

text \<open>The inner loop: extend the last merged interval or start a new one.\<close>

definition merge_interval :: "interval list \<Rightarrow> interval \<Rightarrow> interval list" where
  "merge_interval merged iv =
     (if merged \<noteq> [] \<and> iv_first iv \<le> saturating_succ (iv_last (last merged))
      then butlast merged @ [(last merged)\<lparr>iv_last := max (iv_last (last merged)) (iv_last iv)\<rparr>]
      else merged @ [iv])"

definition merge_intervals :: "interval list \<Rightarrow> interval list" where
  "merge_intervals ivs = foldl merge_interval [] ivs"

text \<open>
  \<^verbatim>\<open>sort_unstable_by_key\<close> promises a permutation sorted by the key and nothing about the order of
  equal keys, so the sorting function is an argument.
\<close>

definition from_receipts ::
  "(interval list \<Rightarrow> interval list) \<Rightarrow> (guid \<times> u16 \<times> interval) list \<Rightarrow> coverage" where
  "from_receipts sort_by_first receipts =
     (\<lambda>key. map_option (\<lambda>ivs. merge_intervals (sort_by_first ivs))
        (foldl push_receipt Map.empty receipts key))"

text \<open>\<^verbatim>\<open>slice::partition_point\<close> on a partitioned slice.\<close>

definition partition_point :: "('a \<Rightarrow> bool) \<Rightarrow> 'a list \<Rightarrow> nat" where
  "partition_point P xs = length (takeWhile P xs)"

definition coverage_contains :: "coverage \<Rightarrow> guid \<Rightarrow> u16 \<Rightarrow> u64 \<Rightarrow> bool" where
  "coverage_contains ranges boot cpu s =
     (case ranges (boot, cpu) of
        None \<Rightarrow> False
      | Some ivs \<Rightarrow>
          let index = partition_point (\<lambda>iv. iv_first iv \<le> s) ivs in
          0 < index \<and> interval_contains (ivs ! (index - 1)) s)"

definition coverage_intervals :: "coverage \<Rightarrow> guid \<Rightarrow> u16 \<Rightarrow> interval list" where
  "coverage_intervals ranges boot cpu =
     (case ranges (boot, cpu) of None \<Rightarrow> [] | Some ivs \<Rightarrow> ivs)"

definition highest_contiguous :: "coverage \<Rightarrow> guid \<Rightarrow> u16 \<Rightarrow> u64" where
  "highest_contiguous ranges boot cpu =
     (case coverage_intervals ranges boot cpu of
        [] \<Rightarrow> 0
      | iv # _ \<Rightarrow> if iv_first iv = 1 then iv_last iv else 0)"

section \<open>Merged interval lists\<close>

text \<open>Ascending, non-empty, disjoint and not even adjacent.\<close>

definition apart :: "interval \<Rightarrow> interval \<Rightarrow> bool" where
  "apart a b \<longleftrightarrow> saturating_succ (iv_last a) < iv_first b"

definition merged :: "interval list \<Rightarrow> bool" where
  "merged ivs \<longleftrightarrow> (\<forall>iv \<in> set ivs. interval_wf iv) \<and> sorted_wrt apart ivs"

definition covers :: "interval list \<Rightarrow> u64 \<Rightarrow> bool" where
  "covers ivs s \<longleftrightarrow> (\<exists>iv \<in> set ivs. interval_contains iv s)"

definition coverage_wf :: "coverage \<Rightarrow> bool" where
  "coverage_wf ranges \<longleftrightarrow> (\<forall>key ivs. ranges key = Some ivs \<longrightarrow> merged ivs)"

lemma covers_simps [simp]:
  "\<not> covers [] s"
  "covers (iv # ivs) s \<longleftrightarrow> interval_contains iv s \<or> covers ivs s"
  "covers (xs @ ys) s \<longleftrightarrow> covers xs s \<or> covers ys s"
  by (auto simp: covers_def)

lemma covers_mset_eq: "mset xs = mset ys \<Longrightarrow> covers xs = covers ys"
  by (auto simp: covers_def fun_eq_iff dest: mset_eq_setD)

lemma apart_imp_less: "apart a b \<Longrightarrow> iv_last a < iv_first b"
  using saturating_succ_mono [of "iv_last a"] by (simp add: apart_def)

lemma apart_last_not_max: "apart a b \<Longrightarrow> iv_last a \<noteq> - 1"
  using apart_imp_less [of a b] by (auto simp: word_order.extremum not_less)

text \<open>
  What the inner loop keeps: everything merged so far is well separated, and starts no later than
  any interval still to come, because the input is sorted by its first sequence.
\<close>

lemma merge_interval_step:
  assumes m: "merged acc" and wf: "interval_wf iv"
    and below: "\<forall>a \<in> set acc. iv_first a \<le> iv_first iv"
  shows "merged (merge_interval acc iv)"
    and "covers (merge_interval acc iv) s \<longleftrightarrow> covers acc s \<or> interval_contains iv s"
    and "\<forall>a \<in> set (merge_interval acc iv). iv_first a \<le> iv_first iv"
proof -
  show "\<forall>a \<in> set (merge_interval acc iv). iv_first a \<le> iv_first iv"
    using below by (cases acc rule: rev_cases) (auto simp: merge_interval_def)
  have "merged (merge_interval acc iv) \<and>
    (covers (merge_interval acc iv) s \<longleftrightarrow> covers acc s \<or> interval_contains iv s)"
  proof (cases acc rule: rev_cases)
    case Nil
    with wf show ?thesis by (simp add: merge_interval_def merged_def)
  next
    case (snoc ys a)
    have wa: "interval_wf a" and le: "iv_first a \<le> iv_first iv"
      using m below snoc by (auto simp: merged_def)
    show ?thesis
    proof (cases "iv_first iv \<le> saturating_succ (iv_last a)")
      case True
      have "apart y (a\<lparr>iv_last := x\<rparr>) = apart y a" for x y
        by (simp add: apart_def)
      moreover have "interval_wf (a\<lparr>iv_last := max (iv_last a) (iv_last iv)\<rparr>)"
        using wa by (simp add: interval_wf_def le_max_iff_disj)
      moreover have "interval_contains (a\<lparr>iv_last := max (iv_last a) (iv_last iv)\<rparr>) s \<longleftrightarrow>
          interval_contains a s \<or> interval_contains iv s"
        using True le wf wa
        by (auto simp: interval_contains_def interval_wf_def le_max_iff_disj
            le_saturating_succ_iff) (auto simp: word_order unat_succ)
      ultimately show ?thesis
        using True m snoc by (simp add: merge_interval_def merged_def sorted_wrt_append disj_ac)
    next
      case False
      then have "apart a iv" by (simp add: apart_def)
      moreover have "apart y iv" if "y \<in> set ys" for y
        using that m snoc le by (force simp: merged_def sorted_wrt_append apart_def)
      ultimately show ?thesis
        using False m wf snoc by (auto simp: merge_interval_def merged_def sorted_wrt_append)
    qed
  qed
  then show "merged (merge_interval acc iv)"
    and "covers (merge_interval acc iv) s \<longleftrightarrow> covers acc s \<or> interval_contains iv s"
    by simp_all
qed

lemma foldl_merge_interval:
  assumes "merged acc" and "\<forall>iv \<in> set ivs. interval_wf iv" and "sorted (map iv_first ivs)"
    and "\<forall>a \<in> set acc. \<forall>iv \<in> set ivs. iv_first a \<le> iv_first iv"
  shows "merged (foldl merge_interval acc ivs) \<and>
    covers (foldl merge_interval acc ivs) = (\<lambda>s. covers acc s \<or> covers ivs s)"
  using assms
proof (induction ivs arbitrary: acc)
  case Nil
  then show ?case by simp
next
  case (Cons iv ivs)
  have below: "\<forall>a \<in> set acc. iv_first a \<le> iv_first iv" and wf: "interval_wf iv"
    using Cons.prems by simp_all
  note step = merge_interval_step [OF Cons.prems(1) wf below]
  have "\<forall>a \<in> set (merge_interval acc iv). \<forall>iv' \<in> set ivs. iv_first a \<le> iv_first iv'"
    using step(3) Cons.prems(3) by fastforce
  then show ?case
    using Cons.IH [OF step(1)] step(2) Cons.prems by (auto simp: fun_eq_iff)
qed

lemma merge_intervals_correct:
  assumes "\<forall>iv \<in> set ivs. interval_wf iv" and "sorted (map iv_first ivs)"
  shows "merged (merge_intervals ivs)" and "covers (merge_intervals ivs) = covers ivs"
  using foldl_merge_interval [of "[]" ivs] assms
  by (auto simp: merge_intervals_def merged_def fun_eq_iff)

section \<open>Building the coverage\<close>

text \<open>The contract of the sort the source calls.\<close>

locale unstable_sort =
  fixes sort_by_first :: "interval list \<Rightarrow> interval list"
  assumes mset_sort: "mset (sort_by_first ivs) = mset ivs"
    and sorted_sort: "sorted (map iv_first (sort_by_first ivs))"
begin

lemma set_sort: "set (sort_by_first ivs) = set ivs"
  by (metis mset_sort set_mset_mset)

lemma merge_sorted:
  assumes "\<forall>iv \<in> set ivs. interval_wf iv"
  shows "merged (merge_intervals (sort_by_first ivs))"
    and "covers (merge_intervals (sort_by_first ivs)) = covers ivs"
  using merge_intervals_correct [of "sort_by_first ivs"] assms
  by (simp_all add: set_sort sorted_sort covers_mset_eq [OF mset_sort])

end

interpretation stable_sort: unstable_sort "sort_key iv_first"
  by unfold_locales simp_all

definition stream_receipts :: "(guid \<times> u16 \<times> interval) list \<Rightarrow> guid \<times> u16 \<Rightarrow> interval list" where
  "stream_receipts receipts key =
     map (snd \<circ> snd) (filter (\<lambda>(boot, cpu, iv). (boot, cpu) = key) receipts)"

lemma foldl_push_receipt:
  "foldl push_receipt m receipts key =
     (if stream_receipts receipts key = [] then m key
      else Some ((case m key of None \<Rightarrow> [] | Some ivs \<Rightarrow> ivs) @ stream_receipts receipts key))"
proof (induction receipts arbitrary: m)
  case Nil
  then show ?case by (simp add: stream_receipts_def)
next
  case (Cons row receipts)
  then show ?case
    by (cases row) (auto simp: push_receipt_def stream_receipts_def split: option.splits)
qed

lemma from_receipts_eq:
  "from_receipts sort_by_first receipts key =
     (if stream_receipts receipts key = [] then None
      else Some (merge_intervals (sort_by_first (stream_receipts receipts key))))"
  by (simp add: from_receipts_def foldl_push_receipt)

lemma stream_receipts_wf:
  "\<forall>(boot, cpu, iv) \<in> set receipts. interval_wf iv \<Longrightarrow>
   \<forall>iv \<in> set (stream_receipts receipts key). interval_wf iv"
  by (auto simp: stream_receipts_def)

lemma covers_stream_receipts:
  "covers (stream_receipts receipts (boot, cpu)) s \<longleftrightarrow>
     (\<exists>iv. (boot, cpu, iv) \<in> set receipts \<and> interval_contains iv s)"
  by (force simp: covers_def stream_receipts_def)

section \<open>Lookup in a merged list\<close>

lemma merged_Cons: "merged (iv # ivs) \<longleftrightarrow>
    interval_wf iv \<and> (\<forall>iv' \<in> set ivs. apart iv iv') \<and> merged ivs"
  by (auto simp: merged_def)

lemma merged_covers_above:
  "merged (iv # ivs) \<Longrightarrow> covers ivs s \<Longrightarrow> iv_last iv < s \<and> iv_last iv + 1 < s"
proof -
  assume m: "merged (iv # ivs)" and "covers ivs s"
  then obtain b where b: "b \<in> set ivs" "iv_first b \<le> s"
    by (auto simp: covers_def interval_contains_def)
  with m have ap: "apart iv b" by (auto simp: merged_Cons)
  then have "saturating_succ (iv_last iv) = iv_last iv + 1"
    using apart_last_not_max [OF ap] by (simp add: saturating_succ_def)
  with ap b apart_imp_less [OF ap] show ?thesis
    by (auto simp: apart_def)
qed

lemma partition_point_lookup:
  assumes "merged ivs"
  shows "(let index = partition_point (\<lambda>iv. iv_first iv \<le> s) ivs in
      0 < index \<and> interval_contains (ivs ! (index - 1)) s) \<longleftrightarrow> covers ivs s"
  using assms
proof (induction ivs)
  case Nil
  then show ?case by (simp add: partition_point_def)
next
  case (Cons iv ivs)
  let ?P = "\<lambda>iv. iv_first iv \<le> s"
  show ?case
  proof (cases "?P iv")
    case False
    have "\<not> covers (iv # ivs) s"
    proof
      assume "covers (iv # ivs) s"
      with False have "covers ivs s" by (auto simp: interval_contains_def)
      from merged_covers_above [OF Cons.prems this] Cons.prems False show False
        by (auto simp: merged_Cons interval_wf_def)
    qed
    with False show ?thesis by (simp add: partition_point_def)
  next
    case True
    show ?thesis
    proof (cases "takeWhile ?P ivs")
      case Nil
      then have "\<not> covers ivs s"
        using Cons.IH Cons.prems by (simp add: merged_Cons partition_point_def)
      with True Nil show ?thesis by (simp add: partition_point_def)
    next
      case (Cons a as)
      have "\<not> interval_contains iv s"
      proof -
        have "?P a" "a \<in> set ivs"
          using Cons by (metis list.set_intros(1) set_takeWhileD)+
        then show ?thesis
          using Cons.prems apart_imp_less [of iv a] by (auto simp: merged_Cons interval_contains_def)
      qed
      with True Cons Cons.IH Cons.prems show ?thesis
        by (simp add: partition_point_def merged_Cons)
    qed
  qed
qed

lemma coverage_contains_iff:
  "coverage_wf ranges \<Longrightarrow>
   coverage_contains ranges boot cpu s \<longleftrightarrow> covers (coverage_intervals ranges boot cpu) s"
  using partition_point_lookup
  by (auto simp: coverage_contains_def coverage_intervals_def coverage_wf_def split: option.splits)

lemma merged_coverage_intervals:
  "coverage_wf ranges \<Longrightarrow> merged (coverage_intervals ranges boot cpu)"
  by (auto simp: coverage_intervals_def coverage_wf_def merged_def split: option.splits)

lemma from_receipts_union:
  assumes "unstable_sort sort_by_first"
    and "\<forall>(boot, cpu, iv) \<in> set receipts. interval_wf iv"
  shows "coverage_wf (from_receipts sort_by_first receipts)"
    and "coverage_contains (from_receipts sort_by_first receipts) boot cpu s \<longleftrightarrow>
      (\<exists>iv. (boot, cpu, iv) \<in> set receipts \<and> interval_contains iv s)"
proof -
  let ?cov = "from_receipts sort_by_first receipts"
  note sorted = unstable_sort.merge_sorted [OF assms(1) stream_receipts_wf [OF assms(2)]]
  show wf: "coverage_wf ?cov"
    using sorted(1) by (auto simp: coverage_wf_def from_receipts_eq split: if_splits)
  have "covers (coverage_intervals ?cov boot cpu) s \<longleftrightarrow>
      covers (stream_receipts receipts (boot, cpu)) s"
    using sorted(2) by (simp add: coverage_intervals_def from_receipts_eq)
  with wf show "coverage_contains ?cov boot cpu s \<longleftrightarrow> (\<exists>iv. (boot, cpu, iv) \<in> set receipts \<and> interval_contains iv s)"
    by (simp add: coverage_contains_iff covers_stream_receipts)
qed

text \<open>
  C10. Whatever order and overlap the receipt rows have, and however the unstable sort places equal
  keys, the union keeps every stream as ascending, pairwise separated intervals, and the binary
  search over them finds a sequence exactly when some receipt row of that stream contains it.
\<close>

theorem from_receipts_exact:
  assumes "unstable_sort sort_by_first"
    and "\<forall>(boot, cpu, iv) \<in> set receipts. interval_wf iv"
  shows "coverage_wf (from_receipts sort_by_first receipts) \<and>
    (coverage_contains (from_receipts sort_by_first receipts) boot cpu s \<longleftrightarrow>
      (\<exists>iv. (boot, cpu, iv) \<in> set receipts \<and> interval_contains iv s))"
  using from_receipts_union [OF assms] by blast

definition example_receipts :: "(guid \<times> u16 \<times> interval) list" where
  "example_receipts =
     [([7], 3, \<lparr>iv_first = 8, iv_last = 12\<rparr>), ([7], 3, \<lparr>iv_first = 1, iv_last = 4\<rparr>),
      ([7], 3, \<lparr>iv_first = 4, iv_last = 7\<rparr>), ([7], 3, \<lparr>iv_first = 20, iv_last = 22\<rparr>)]"

theorem from_receipts_exact_witness:
  "coverage_contains (from_receipts (sort_key iv_first) example_receipts) [7] 3 10 \<and>
   \<not> coverage_contains (from_receipts (sort_key iv_first) example_receipts) [7] 3 19"
proof -
  have wf: "\<forall>(boot, cpu, iv) \<in> set example_receipts. interval_wf iv"
    by (simp add: example_receipts_def interval_wf_def word_order)
  have "([7], 3, \<lparr>iv_first = 8, iv_last = 12\<rparr>) \<in> set example_receipts \<and>
      interval_contains \<lparr>iv_first = 8, iv_last = 12\<rparr> 10"
    by (simp add: example_receipts_def interval_contains_def)
  moreover have "\<not> (\<exists>iv. ([7], 3, iv) \<in> set example_receipts \<and> interval_contains iv 19)"
    by (auto simp: example_receipts_def interval_contains_def)
  ultimately show ?thesis
    using from_receipts_exact [OF stable_sort.unstable_sort_axioms wf, of "[7]" 3 10]
      from_receipts_exact [OF stable_sort.unstable_sort_axioms wf, of "[7]" 3 19]
    by blast
qed

text \<open>
  The resume point is the highest sequence covered contiguously from sequence one: every
  sequence up to it is covered, and the next one is not.
\<close>

theorem highest_contiguous_spec:
  assumes "coverage_wf ranges"
  shows "(\<forall>s. 1 \<le> s \<and> s \<le> highest_contiguous ranges boot cpu \<longrightarrow>
      coverage_contains ranges boot cpu s) \<and>
    (highest_contiguous ranges boot cpu \<noteq> - 1 \<longrightarrow>
      \<not> coverage_contains ranges boot cpu (highest_contiguous ranges boot cpu + 1))"
proof (cases "coverage_intervals ranges boot cpu")
  case Nil
  with assms show ?thesis
    by (auto simp: highest_contiguous_def coverage_contains_iff word_order.extremum_unique)
next
  case (Cons iv ivs)
  have m: "merged (iv # ivs)"
    using merged_coverage_intervals [OF assms, of boot cpu] Cons by simp
  show ?thesis
  proof (cases "iv_first iv = 1")
    case True
    have "\<not> covers ivs (iv_last iv + 1)"
      using merged_covers_above [OF m, of "iv_last iv + 1"] by auto
    moreover have "\<not> interval_contains iv (iv_last iv + 1)" if "iv_last iv \<noteq> - 1"
      using that by (auto simp: interval_contains_def word_order unat_succ)
    ultimately show ?thesis
      using True Cons assms
      by (auto simp: highest_contiguous_def coverage_contains_iff interval_contains_def)
  next
    case False
    with m have "1 < iv_first iv" "iv_first iv \<le> iv_last iv"
      by (auto simp: merged_Cons interval_wf_def word_order word_unat_eq_iff)
    moreover from this have "\<not> covers ivs 1"
      using merged_covers_above [OF m, of 1] by auto
    ultimately have "\<not> coverage_contains ranges boot cpu 1"
      using Cons assms by (simp add: coverage_contains_iff interval_contains_def not_le)
    moreover have "highest_contiguous ranges boot cpu = 0"
      using False Cons by (simp add: highest_contiguous_def)
    ultimately show ?thesis by simp
  qed
qed

theorem highest_contiguous_spec_witness:
  "highest_contiguous (from_receipts (sort_key iv_first) example_receipts) [7] 3 = 12 \<and>
   coverage_contains (from_receipts (sort_key iv_first) example_receipts) [7] 3 12 \<and>
   \<not> coverage_contains (from_receipts (sort_key iv_first) example_receipts) [7] 3 13"
proof -
  let ?cov = "from_receipts (sort_key iv_first) example_receipts"
  have val: "highest_contiguous ?cov [7] 3 = 12"
    by (simp add: highest_contiguous_def coverage_intervals_def from_receipts_eq
        stream_receipts_def example_receipts_def merge_intervals_def merge_interval_def
        saturating_succ_def word_order)
  have "coverage_wf ?cov"
    using stable_sort.merge_sorted(1) [OF stream_receipts_wf, of example_receipts]
    by (auto simp: coverage_wf_def from_receipts_eq example_receipts_def interval_wf_def
        split: if_splits)
  from highest_contiguous_spec [OF this, of "[7]" 3] val show ?thesis by simp
qed

end
