(* ===== verification/Reconcile.thy ===== *)
theory Reconcile
  imports Model Receipt
begin

text \<open>
  Receipt-aware restart reconciliation and live sequence-gap detection
  (\<^verbatim>\<open>eventd-core/src/reconcile.rs\<close>). One reconciler belongs to one CPU's drain thread: it sees the
  surviving ring events of a boot stream in order, decides which of them still have to be stored,
  and reports every sequence that neither survived nor has a committed receipt as part of a gap.
\<close>

section \<open>The reconciler\<close>

record reconciler =
  rc_coverage :: coverage
  rc_boot_id :: guid
  rc_cpu_id :: u16
  next_sequence :: u64
  preceding_timestamp :: "u64 option"

record observation =
  obs_store_event :: bool
  obs_gaps :: "gap list"

datatype reconcile_error =
    ZeroSequence
  | Regression (expected_at_least: u64) (observed: u64)
  | SequenceExhausted

definition reconciler_new :: "coverage \<Rightarrow> guid \<Rightarrow> u16 \<Rightarrow> reconciler" where
  "reconciler_new cov boot cpu =
     \<lparr>rc_coverage = cov, rc_boot_id = boot, rc_cpu_id = cpu,
      next_sequence = 1, preceding_timestamp = None\<rparr>"

definition make_gap :: "u64 \<Rightarrow> u64 \<Rightarrow> u64 option \<Rightarrow> u64 \<Rightarrow> gap" where
  "make_gap fst_seq lst_seq preceding revealing =
     \<lparr>first_sequence = fst_seq, last_sequence = lst_seq,
      gap_preceding_timestamp = preceding, revealing_timestamp = revealing\<rparr>"

text \<open>The loop over the merged receipts of the stream, with its \<^verbatim>\<open>continue\<close> and its two \<^verbatim>\<open>break\<close>s.\<close>

fun gap_loop ::
  "interval list \<Rightarrow> u64 \<Rightarrow> u64 \<Rightarrow> u64 option \<Rightarrow> u64 \<Rightarrow> gap list \<Rightarrow> gap list \<times> u64 \<times> u64 option" where
  "gap_loop [] first lst preceding revealing gaps = (gaps, first, preceding)"
| "gap_loop (receipt # receipts) first lst preceding revealing gaps =
     (if iv_last receipt < first then gap_loop receipts first lst preceding revealing gaps
      else if lst < iv_first receipt then (gaps, first, preceding)
      else
        let gaps' = (if first < iv_first receipt
                     then gaps @ [make_gap first (iv_first receipt - 1) preceding revealing]
                     else gaps);
            first' = max first (saturating_succ (iv_last receipt)) in
        if lst < first' then (gaps', first', None)
        else gap_loop receipts first' lst None revealing gaps')"

definition uncovered_gaps :: "reconciler \<Rightarrow> u64 \<Rightarrow> u64 \<Rightarrow> gap list" where
  "uncovered_gaps r sequence revealing =
     (if sequence \<le> next_sequence r then []
      else
        let lst = sequence - 1 in
        case gap_loop (coverage_intervals (rc_coverage r) (rc_boot_id r) (rc_cpu_id r))
               (next_sequence r) lst (preceding_timestamp r) revealing [] of
          (gaps, first, preceding) \<Rightarrow>
            if first \<le> lst then gaps @ [make_gap first lst preceding revealing] else gaps)"

abbreviation rc_covered :: "reconciler \<Rightarrow> u64 \<Rightarrow> bool" where
  "rc_covered r s \<equiv> coverage_contains (rc_coverage r) (rc_boot_id r) (rc_cpu_id r) s"

text \<open>Every error return comes before the first field is written, so an error leaves the state.\<close>

definition observe :: "reconciler \<Rightarrow> u64 \<Rightarrow> u64 \<Rightarrow> reconcile_error + (observation \<times> reconciler)" where
  "observe r sequence timestamp =
     (if sequence = 0 then Err ZeroSequence
      else if sequence < next_sequence r then
        (if rc_covered r sequence
         then Ok (\<lparr>obs_store_event = False, obs_gaps = []\<rparr>,
                  r\<lparr>preceding_timestamp := Some timestamp\<rparr>)
         else Err (Regression (next_sequence r) sequence))
      else
        let gaps = uncovered_gaps r sequence timestamp;
            store = (\<not> rc_covered r sequence) in
        rbind (ok_or SequenceExhausted (checked_succ sequence)) (\<lambda>next.
          Ok (\<lparr>obs_store_event = store, obs_gaps = gaps\<rparr>,
              r\<lparr>next_sequence := next, preceding_timestamp := Some timestamp\<rparr>)))"

text \<open>A drain thread's successive observations, up to the first error.\<close>

fun observe_all ::
  "reconciler \<Rightarrow> (u64 \<times> u64) list \<Rightarrow> reconcile_error + (observation list \<times> reconciler)" where
  "observe_all r [] = Ok ([], r)"
| "observe_all r ((sequence, timestamp) # events) =
     rbind (observe r sequence timestamp) (\<lambda>(obs, r').
       rbind (observe_all r' events) (\<lambda>(rest, r''). Ok (obs # rest, r'')))"

section \<open>Gap lists\<close>

definition gaps_cover :: "gap list \<Rightarrow> u64 set" where
  "gaps_cover gaps = (\<Union>g \<in> set gaps. gap_set g)"

definition gap_before :: "gap \<Rightarrow> gap \<Rightarrow> bool" where
  "gap_before a b \<longleftrightarrow> last_sequence a < first_sequence b"

definition gaps_ordered :: "gap list \<Rightarrow> bool" where
  "gaps_ordered gaps \<longleftrightarrow> sorted_wrt gap_before gaps \<and> (\<forall>g \<in> set gaps. gap_wf g)"

lemma gaps_cover_simps [simp]:
  "gaps_cover [] = {}"
  "gaps_cover (g # gs) = gap_set g \<union> gaps_cover gs"
  "gaps_cover (xs @ ys) = gaps_cover xs \<union> gaps_cover ys"
  by (auto simp: gaps_cover_def)

lemma gap_set_make_gap [simp]: "gap_set (make_gap f l p t) = {s. f \<le> s \<and> s \<le> l}"
  by (simp add: gap_set_def make_gap_def)

lemma make_gap_select [simp]:
  "first_sequence (make_gap f l p t) = f"
  "last_sequence (make_gap f l p t) = l"
  "gap_preceding_timestamp (make_gap f l p t) = p"
  "revealing_timestamp (make_gap f l p t) = t"
  by (simp_all add: make_gap_def)

lemma gap_wf_bounds_in_cover:
  assumes "g \<in> set gaps" and "gap_wf g"
  shows "first_sequence g \<in> gaps_cover gaps" and "last_sequence g \<in> gaps_cover gaps"
  using assms by (auto simp: gaps_cover_def gap_set_def gap_wf_def)

lemma gaps_ordered_append:
  assumes "gaps_ordered xs" and "gaps_ordered ys"
    and "\<And>s t. s \<in> gaps_cover xs \<Longrightarrow> t \<in> gaps_cover ys \<Longrightarrow> s < t"
  shows "gaps_ordered (xs @ ys)"
  using assms gap_wf_bounds_in_cover
  by (auto simp: gaps_ordered_def sorted_wrt_append gap_before_def)

section \<open>What one gap computation reports\<close>

text \<open>The gaps still to be reported from \<open>first\<close> on, with the loop's exit folded in.\<close>

definition gaps_from :: "interval list \<Rightarrow> u64 \<Rightarrow> u64 \<Rightarrow> u64 option \<Rightarrow> u64 \<Rightarrow> gap list" where
  "gaps_from receipts first lst preceding revealing =
     (case gap_loop receipts first lst preceding revealing [] of
        (gaps, f, p) \<Rightarrow> if f \<le> lst then gaps @ [make_gap f lst p revealing] else gaps)"

lemma gap_loop_acc:
  "gap_loop receipts first lst preceding revealing gaps =
     (case gap_loop receipts first lst preceding revealing [] of
        (gs, f, p) \<Rightarrow> (gaps @ gs, f, p))"
proof (induction receipts arbitrary: first preceding gaps)
  case Nil
  then show ?case by simp
next
  case (Cons r rs)
  note IH = Cons.IH [of _ _ "gaps @ _"] Cons.IH [of _ _ gaps]
  show ?case
    by (subst (1 2) gap_loop.simps)
      (auto simp: Let_def split: prod.splits if_splits
        dest: IH(1) [THEN trans [OF sym]] simp: Cons.IH [of _ _ "[_]"] Cons.IH [of _ _ "gaps @ _"]
          Cons.IH [of _ _ gaps])
qed

lemma gaps_from_Nil:
  "gaps_from [] first lst p t = (if first \<le> lst then [make_gap first lst p t] else [])"
  by (simp add: gaps_from_def)

lemma gaps_from_Cons:
  "gaps_from (r # rs) first lst p t =
     (if iv_last r < first then gaps_from rs first lst p t
      else if lst < iv_first r then (if first \<le> lst then [make_gap first lst p t] else [])
      else (if first < iv_first r then [make_gap first (iv_first r - 1) p t] else []) @
        (let first' = max first (saturating_succ (iv_last r)) in
         if lst < first' then [] else gaps_from rs first' lst None t))"
  by (auto simp: gaps_from_def Let_def gap_loop_acc [of rs _ _ _ _ "[_]"] less_max_iff_disj
      split: prod.splits)

lemma uncovered_gaps_eq:
  "uncovered_gaps r sequence revealing =
     (if sequence \<le> next_sequence r then []
      else gaps_from (coverage_intervals (rc_coverage r) (rc_boot_id r) (rc_cpu_id r))
        (next_sequence r) (sequence - 1) (preceding_timestamp r) revealing)"
  by (simp add: uncovered_gaps_def gaps_from_def Let_def)

lemma merged_tail_above:
  "merged (iv # ivs) \<Longrightarrow> s \<le> iv_last iv \<Longrightarrow> \<not> covers ivs s"
  using merged_covers_above [of iv ivs s] by auto

text \<open>A receipt that overlaps the missing span splits the uncovered sequences in two.\<close>

lemma uncovered_split:
  assumes m: "merged (r # rs)" and "first \<le> iv_last r" and "iv_first r \<le> lst"
    and f': "first' = max first (saturating_succ (iv_last r))" and "lst \<noteq> - 1"
  shows "{s. first \<le> s \<and> s \<le> lst \<and> \<not> covers (r # rs) s} =
    {s. first \<le> s \<and> s < iv_first r} \<union>
    (if lst < first' then {} else {s. first' \<le> s \<and> s \<le> lst \<and> \<not> covers rs s})"
proof -
  have wf: "iv_first r \<le> iv_last r"
    using m by (simp add: merged_Cons interval_wf_def)
  have low: "\<not> covers rs s" if "s < iv_first r" for s
    using merged_tail_above [OF m, of s] that wf by simp
  have f'_eq: "first' = saturating_succ (iv_last r)"
    using f' assms(2) saturating_succ_mono [of "iv_last r"] by simp
  have above: "first' \<le> s \<longleftrightarrow> iv_last r < s" if "s \<le> lst" for s
  proof (cases "iv_last r = - 1")
    case True
    with that assms(5) have "s < - 1"
      by (metis le_less_trans less_le word_order.extremum)
    with True f'_eq show ?thesis
      by (simp add: saturating_succ_def not_le)
  next
    case False
    with f'_eq show ?thesis by (simp add: saturating_succ_le_iff)
  qed
  show ?thesis
  proof (cases "lst < first'")
    case True
    have "\<not> iv_last r < s" if "s \<le> lst" for s
      using above [OF that] True that by (metis leD le_less_trans)
    with True low assms(3) show ?thesis
      by (auto simp: interval_contains_def not_le)
  next
    case False
    have "{s. first \<le> s \<and> s \<le> lst \<and> \<not> covers (r # rs) s} =
        {s. first \<le> s \<and> s < iv_first r} \<union> {s. first' \<le> s \<and> s \<le> lst \<and> \<not> covers rs s}"
      using above low wf assms(2,3) by (auto simp: interval_contains_def not_le)
    with False show ?thesis by simp
  qed
qed

lemma gaps_from_correct:
  assumes "merged rs" and "lst \<noteq> - 1" and "first \<le> lst" and "0 < first"
  shows "gaps_cover (gaps_from rs first lst p t) = {s. first \<le> s \<and> s \<le> lst \<and> \<not> covers rs s} \<and>
    gaps_ordered (gaps_from rs first lst p t)"
  using assms
proof (induction rs arbitrary: first p)
  case Nil
  then show ?case by (simp add: gaps_from_Nil gaps_ordered_def gap_wf_def)
next
  case (Cons r rs)
  have m: "merged rs" and wf: "iv_first r \<le> iv_last r"
    using Cons.prems by (simp_all add: merged_Cons interval_wf_def)
  consider (skip) "iv_last r < first"
    | (beyond) "first \<le> iv_last r" "lst < iv_first r"
    | (split) "first \<le> iv_last r" "iv_first r \<le> lst"
    by (meson not_less)
  then show ?case
  proof cases
    case skip
    have "\<not> interval_contains r s" if "first \<le> s" for s
      using that skip by (metis interval_contains_def leD le_less_trans)
    with skip Cons.IH [OF m Cons.prems(2-4), of p] show ?thesis
      by (auto simp: gaps_from_Cons)
  next
    case beyond
    have "\<not> covers (r # rs) s" if "s \<le> lst" for s
      using that beyond merged_tail_above [OF Cons.prems(1), of s] wf
      by (auto simp: interval_contains_def)
    with beyond Cons.prems show ?thesis
      by (auto simp: gaps_from_Cons gaps_ordered_def gap_wf_def)
  next
    case split
    define first' where "first' = max first (saturating_succ (iv_last r))"
    let ?pre = "if first < iv_first r then [make_gap first (iv_first r - 1) p t] else []"
    let ?post = "if lst < first' then [] else gaps_from rs first' lst None t"
    have eq: "gaps_from (r # rs) first lst p t = ?pre @ ?post"
    proof -
      have "\<not> iv_last r < first" "\<not> lst < iv_first r"
        using split by auto
      then show ?thesis by (simp add: gaps_from_Cons first'_def Let_def)
    qed
    have "0 < iv_first r" if "first < iv_first r"
      using that Cons.prems(4) by simp
    then have pre: "gaps_cover ?pre = {s. first \<le> s \<and> s < iv_first r}" "gaps_ordered ?pre"
      using Cons.prems(4)
      by (auto simp: gaps_ordered_def gap_wf_def le_pred_iff dest: le_less_trans)
    have "first \<le> first'" by (simp add: first'_def)
    with Cons.prems(4) have "0 < first'" by simp
    have post: "gaps_cover ?post =
        (if lst < first' then {} else {s. first' \<le> s \<and> s \<le> lst \<and> \<not> covers rs s})"
      "gaps_ordered ?post"
      using Cons.IH [OF m Cons.prems(2), of first' None] \<open>0 < first'\<close>
      by (auto simp: not_less gaps_ordered_def)
    have "iv_first r \<le> first'"
      using wf saturating_succ_mono [of "iv_last r"] by (auto simp: first'_def le_max_iff_disj)
    then have "gaps_ordered (?pre @ ?post)"
      by (intro gaps_ordered_append pre(2) post(2)) (auto simp: pre(1) post(1) split: if_splits)
    moreover have "gaps_cover (?pre @ ?post) = {s. first \<le> s \<and> s \<le> lst \<and> \<not> covers (r # rs) s}"
      unfolding uncovered_split [OF Cons.prems(1) split first'_def Cons.prems(2)]
      by (simp only: gaps_cover_simps pre(1) post(1))
    ultimately show ?thesis by (simp only: eq)
  qed
qed

text \<open>
  A gap that begins at the next expected sequence follows the event seen last; behind a receipt the
  timestamp of the preceding event is not known.
\<close>

lemma gaps_from_timestamps:
  assumes "merged rs" and "lst \<noteq> - 1" and "g \<in> set (gaps_from rs first lst p t)"
  shows "revealing_timestamp g = t \<and> first \<le> first_sequence g \<and>
    gap_preceding_timestamp g = (if first_sequence g = first then p else None)"
  using assms
proof (induction rs arbitrary: first p)
  case Nil
  then show ?case by (auto simp: gaps_from_Nil split: if_splits)
next
  case (Cons r rs)
  let ?first' = "max first (saturating_succ (iv_last r))"
  have m: "merged rs" using Cons.prems by (simp add: merged_Cons)
  have later: "first < ?first'" if "first \<le> iv_last r" "\<not> lst < ?first'"
  proof -
    from that(2) Cons.prems(2) have "iv_last r \<noteq> - 1"
      by (auto simp: saturating_succ_def not_less max_def word_order.extremum_unique split: if_splits)
    with that(1) show ?thesis
      by (auto simp: saturating_succ_def less_max_iff_disj less_succ_iff word_order unat_succ)
  qed
  from Cons.prems(3) consider
      (skip) "iv_last r < first" "g \<in> set (gaps_from rs first lst p t)"
    | (own) "first_sequence g = first" "gap_preceding_timestamp g = p" "revealing_timestamp g = t"
    | (rest) "\<not> iv_last r < first" "\<not> lst < ?first'"
        "g \<in> set (gaps_from rs ?first' lst None t)"
    by (auto simp: gaps_from_Cons Let_def split: if_splits)
  then show ?case
  proof cases
    case skip
    with Cons.IH [OF m Cons.prems(2)] show ?thesis by simp
  next
    case own
    then show ?thesis by simp
  next
    case rest
    with Cons.IH [OF m Cons.prems(2) rest(3)] later show ?thesis
      by (auto simp: not_less)
  qed
qed

section \<open>One observation\<close>

lemma uncovered_gaps_correct:
  assumes "coverage_wf (rc_coverage r)" and "0 < next_sequence r"
  shows "gaps_cover (uncovered_gaps r sequence t) =
      {s. next_sequence r \<le> s \<and> s < sequence \<and> \<not> rc_covered r s} \<and>
    gaps_ordered (uncovered_gaps r sequence t)"
proof (cases "sequence \<le> next_sequence r")
  case True
  then show ?thesis
    by (auto simp: uncovered_gaps_def gaps_ordered_def)
next
  case False
  then have pos: "0 < sequence" and le: "next_sequence r \<le> sequence - 1"
    using assms(2) by (auto simp: le_pred_iff not_le)
  have "sequence - 1 \<noteq> - 1"
    using pos by simp
  from gaps_from_correct [OF merged_coverage_intervals [OF assms(1)] this le assms(2)] False
  show ?thesis
    by (simp add: uncovered_gaps_eq coverage_contains_iff [OF assms(1)] le_pred_iff [OF pos])
qed

definition reconciler_wf :: "reconciler \<Rightarrow> bool" where
  "reconciler_wf r \<longleftrightarrow> coverage_wf (rc_coverage r) \<and> 0 < next_sequence r"

definition same_stream :: "reconciler \<Rightarrow> reconciler \<Rightarrow> bool" where
  "same_stream r r' \<longleftrightarrow> rc_coverage r' = rc_coverage r \<and> rc_boot_id r' = rc_boot_id r \<and>
     rc_cpu_id r' = rc_cpu_id r"

lemma observe_forward:
  assumes "sequence \<noteq> 0" and "sequence \<noteq> - 1" and "next_sequence r \<le> sequence"
  shows "observe r sequence t =
     Ok (\<lparr>obs_store_event = (\<not> rc_covered r sequence),
           obs_gaps = uncovered_gaps r sequence t\<rparr>,
         r\<lparr>next_sequence := sequence + 1, preceding_timestamp := Some t\<rparr>)"
proof -
  have "\<not> sequence < next_sequence r" using assms(3) by simp
  with assms(1,2) show ?thesis by (simp add: observe_def Let_def checked_succ_def)
qed

lemma observe_wf:
  assumes "observe r sequence t = Ok (obs, r')" and "reconciler_wf r"
  shows "reconciler_wf r'" and "same_stream r r'" and "next_sequence r \<le> next_sequence r'"
proof -
  have "reconciler_wf r' \<and> same_stream r r' \<and> next_sequence r \<le> next_sequence r'"
    using assms
    by (auto simp: observe_def Let_def rbind_Ok_iff checked_succ_Some reconciler_wf_def
        same_stream_def word_order unat_succ split: if_splits)
  then show "reconciler_wf r'" and "same_stream r r'" and "next_sequence r \<le> next_sequence r'"
    by simp_all
qed

text \<open>What an observation accounts for: the sequences of its gaps and the event it stores.\<close>

definition observed_new :: "u64 \<Rightarrow> observation \<Rightarrow> u64 list" where
  "observed_new sequence obs = (if obs_store_event obs then [sequence] else [])"

lemma observe_accounts:
  assumes ok: "observe r sequence t = Ok (obs, r')" and wf: "reconciler_wf r"
  shows "gaps_cover (obs_gaps obs) \<union> set (observed_new sequence obs) =
      {s. next_sequence r \<le> s \<and> s < next_sequence r' \<and> \<not> rc_covered r s}"
    and "gaps_ordered (obs_gaps obs)"
    and "s \<in> gaps_cover (obs_gaps obs) \<Longrightarrow> s < sequence"
proof -
  note gaps = uncovered_gaps_correct [of r sequence t] wf [unfolded reconciler_wf_def]
  have "gaps_cover (obs_gaps obs) \<union> set (observed_new sequence obs) =
      {s. next_sequence r \<le> s \<and> s < next_sequence r' \<and> \<not> rc_covered r s} \<and>
    gaps_ordered (obs_gaps obs) \<and> (\<forall>s \<in> gaps_cover (obs_gaps obs). s < sequence)"
  proof (cases "sequence < next_sequence r")
    case True
    with ok show ?thesis
      by (auto simp: observe_def observed_new_def gaps_ordered_def split: if_splits)
  next
    case False
    with ok have "sequence \<noteq> - 1" and r': "next_sequence r' = sequence + 1"
      and obs: "obs_gaps obs = uncovered_gaps r sequence t"
        "obs_store_event obs \<longleftrightarrow> \<not> rc_covered r sequence"
      by (auto simp: observe_def Let_def rbind_Ok_iff checked_succ_Some split: if_splits)
    then have "s < next_sequence r' \<longleftrightarrow> s < sequence \<or> s = sequence" for s
      by (auto simp: less_succ_iff)
    with False gaps obs show ?thesis
      by (auto simp: observed_new_def not_less)
  qed
  then show "gaps_cover (obs_gaps obs) \<union> set (observed_new sequence obs) =
      {s. next_sequence r \<le> s \<and> s < next_sequence r' \<and> \<not> rc_covered r s}"
    and "gaps_ordered (obs_gaps obs)"
    and "s \<in> gaps_cover (obs_gaps obs) \<Longrightarrow> s < sequence"
    by auto
qed

text \<open>
  C8. Observing a sequence that is not below the expected one reports as gaps exactly the sequences
  between the two that no receipt covers, as ascending disjoint intervals, and asks for the event
  to be stored exactly when no receipt covers it. Each gap names the event that revealed it, and
  names a preceding event only when it starts right at the expected sequence.
\<close>

theorem observe_exact:
  assumes "coverage_wf (rc_coverage r)" and "0 < next_sequence r"
    and "next_sequence r \<le> sequence" and "sequence \<noteq> - 1"
  shows "\<exists>obs r'. observe r sequence t = Ok (obs, r') \<and>
    next_sequence r' = sequence + 1 \<and> preceding_timestamp r' = Some t \<and>
    (obs_store_event obs \<longleftrightarrow> \<not> rc_covered r sequence) \<and>
    gaps_cover (obs_gaps obs) = {s. next_sequence r \<le> s \<and> s < sequence \<and> \<not> rc_covered r s} \<and>
    gaps_ordered (obs_gaps obs) \<and>
    (\<forall>g \<in> set (obs_gaps obs). revealing_timestamp g = t \<and> gap_preceding_timestamp g =
      (if first_sequence g = next_sequence r then preceding_timestamp r else None))"
proof -
  have pos: "0 < sequence" using assms(2,3) by simp
  then have "sequence - 1 \<noteq> - 1" by simp
  note from_ts = gaps_from_timestamps [OF merged_coverage_intervals [OF assms(1)] this]
  have "revealing_timestamp g = t \<and> gap_preceding_timestamp g =
        (if first_sequence g = next_sequence r then preceding_timestamp r else None)"
    if "g \<in> set (uncovered_gaps r sequence t)" for g
    using that from_ts [of g] by (auto simp: uncovered_gaps_eq split: if_splits)
  with pos assms uncovered_gaps_correct [OF assms(1,2)] show ?thesis
    by (simp add: observe_forward)
qed

text \<open>
  Observation fails exactly on the three incompatible ring behaviours: sequence zero, an
  uncovered sequence below the expected one, and the last sequence number, after which none can
  follow. A covered sequence below the expected one is skipped.
\<close>

theorem observe_errors:
  "observe r sequence t = Err e \<longleftrightarrow>
     (case e of
        ZeroSequence \<Rightarrow> sequence = 0
      | Regression expected seen \<Rightarrow>
          sequence \<noteq> 0 \<and> sequence < next_sequence r \<and> \<not> rc_covered r sequence \<and>
          expected = next_sequence r \<and> seen = sequence
      | SequenceExhausted \<Rightarrow> sequence \<noteq> 0 \<and> next_sequence r \<le> sequence \<and> sequence = - 1)"
  by (auto simp: observe_def Let_def checked_succ_def not_less split: reconcile_error.splits)

section \<open>A whole run\<close>

definition reported_gaps :: "observation list \<Rightarrow> gap list" where
  "reported_gaps obss = concat (map obs_gaps obss)"

definition stored_sequences :: "(u64 \<times> u64) list \<Rightarrow> observation list \<Rightarrow> u64 list" where
  "stored_sequences events obss =
     concat (map (\<lambda>((sequence, t), obs). observed_new sequence obs) (zip events obss))"

lemma run_simps [simp]:
  "reported_gaps [] = []"
  "reported_gaps (obs # obss) = obs_gaps obs @ reported_gaps obss"
  "stored_sequences [] obss = []"
  "stored_sequences ((sequence, t) # events) (obs # obss) =
     observed_new sequence obs @ stored_sequences events obss"
  by (simp_all add: reported_gaps_def stored_sequences_def)

definition accounts :: "(u64 \<Rightarrow> bool) \<Rightarrow> u64 \<Rightarrow> u64 \<Rightarrow> gap list \<Rightarrow> u64 list \<Rightarrow> bool" where
  "accounts covered lo hi gaps stored \<longleftrightarrow>
     gaps_cover gaps \<union> set stored = {s. lo \<le> s \<and> s < hi \<and> \<not> covered s} \<and>
     gaps_cover gaps \<inter> set stored = {} \<and> gaps_ordered gaps \<and> sorted_wrt (<) stored"

lemma accounts_append:
  assumes "accounts covered a b gs ss" and "accounts covered b c gs' ss'" and "a \<le> b" and "b \<le> c"
  shows "accounts covered a c (gs @ gs') (ss @ ss')"
proof -
  have before: "s < t" if "s \<in> gaps_cover gs \<union> set ss" "t \<in> gaps_cover gs' \<union> set ss'" for s t
  proof -
    from that have "s < b" "b \<le> t"
      using assms(1,2) unfolding accounts_def by blast+
    then show ?thesis by (rule less_le_trans)
  qed
  have ord: "gaps_ordered gs" "gaps_ordered gs'" "sorted_wrt (<) ss" "sorted_wrt (<) ss'"
    and dis: "gaps_cover gs \<inter> set ss = {}" "gaps_cover gs' \<inter> set ss' = {}"
    and eq: "gaps_cover gs \<union> set ss = {s. a \<le> s \<and> s < b \<and> \<not> covered s}"
      "gaps_cover gs' \<union> set ss' = {s. b \<le> s \<and> s < c \<and> \<not> covered s}"
    using assms(1,2) by (simp_all add: accounts_def)
  have "gaps_ordered (gs @ gs')"
    using ord before by (intro gaps_ordered_append) simp_all
  moreover have "sorted_wrt (<) (ss @ ss')"
    using ord before by (simp add: sorted_wrt_append)
  moreover have "gaps_cover (gs @ gs') \<inter> set (ss @ ss') = {}"
  proof -
    have "gaps_cover gs \<inter> set ss' = {}" "gaps_cover gs' \<inter> set ss = {}"
      using before less_irrefl by blast+
    then show ?thesis using dis by auto
  qed
  moreover have "gaps_cover (gs @ gs') \<union> set (ss @ ss') =
      {s. a \<le> s \<and> s < b \<and> \<not> covered s} \<union> {s. b \<le> s \<and> s < c \<and> \<not> covered s}"
    using eq by auto
  moreover have "\<dots> = {s. a \<le> s \<and> s < c \<and> \<not> covered s}"
    using assms(3,4) by (auto simp: not_less intro: order.trans less_le_trans)
  ultimately show ?thesis by (simp add: accounts_def)
qed

lemma observe_accounts_step:
  assumes "observe r sequence t = Ok (obs, r')" and "reconciler_wf r"
  shows "accounts (rc_covered r) (next_sequence r) (next_sequence r')
    (obs_gaps obs) (observed_new sequence obs)"
  using observe_accounts [OF assms] by (auto simp: accounts_def observed_new_def)

lemma observe_all_accounts:
  assumes "observe_all r events = Ok (obss, r')" and "reconciler_wf r"
  shows "accounts (rc_covered r) (next_sequence r) (next_sequence r')
      (reported_gaps obss) (stored_sequences events obss) \<and>
    next_sequence r \<le> next_sequence r'"
  using assms
proof (induction events arbitrary: r obss)
  case Nil
  then show ?case by (auto simp: accounts_def gaps_ordered_def)
next
  case (Cons event events)
  obtain sequence t where event: "event = (sequence, t)" by fastforce
  from Cons.prems(1) obtain obs r1 rest where
      step: "observe r sequence t = Ok (obs, r1)"
      and rest: "observe_all r1 events = Ok (rest, r')" and obss: "obss = obs # rest"
    by (auto simp: event rbind_Ok_iff)
  note wf = observe_wf [OF step Cons.prems(2)]
  note tail = Cons.IH [OF rest wf(1)]
  have "rc_covered r1 = rc_covered r"
    using wf(2) by (simp add: same_stream_def)
  with accounts_append [OF observe_accounts_step [OF step Cons.prems(2)]] tail wf(3)
  show ?case by (auto simp: event obss intro: order.trans)
qed

text \<open>
  C1. No sequence is lost and none is counted twice. After any run of observations on a fresh
  reconciler, every sequence from one up to the expected one is covered by a committed receipt, or
  lies in exactly one reported gap, or was handed over to be stored exactly once; nothing that a
  receipt covers is stored or reported again.
\<close>

theorem run_accounts_every_sequence:
  assumes "coverage_wf cov"
    and "observe_all (reconciler_new cov boot cpu) events = Ok (obss, r)"
  shows "{s. 1 \<le> s \<and> s < next_sequence r} =
      {s. 1 \<le> s \<and> s < next_sequence r \<and> coverage_contains cov boot cpu s} \<union>
      gaps_cover (reported_gaps obss) \<union> set (stored_sequences events obss) \<and>
    gaps_cover (reported_gaps obss) \<inter> set (stored_sequences events obss) = {} \<and>
    (\<forall>s \<in> gaps_cover (reported_gaps obss) \<union> set (stored_sequences events obss).
      \<not> coverage_contains cov boot cpu s) \<and>
    gaps_ordered (reported_gaps obss) \<and> distinct (stored_sequences events obss)"
proof -
  have "reconciler_wf (reconciler_new cov boot cpu)"
    using assms(1) by (simp add: reconciler_wf_def reconciler_new_def)
  from observe_all_accounts [OF assms(2) this]
  have acc: "accounts (coverage_contains cov boot cpu) 1 (next_sequence r)
      (reported_gaps obss) (stored_sequences events obss)"
    by (simp add: reconciler_new_def)
  then have "distinct (stored_sequences events obss)"
    by (simp add: accounts_def strict_sorted_iff)
  with acc show ?thesis unfolding accounts_def by blast
qed


section \<open>Witnesses\<close>

text \<open>The restart of the source's own test: receipts 1 to 3 and 6 to 7, survivors 3 and 9.\<close>

definition restart_coverage :: coverage where
  "restart_coverage = [([1], 2) \<mapsto>
     [\<lparr>iv_first = 1, iv_last = 3\<rparr>, \<lparr>iv_first = 6, iv_last = 7\<rparr>]]"

lemma restart_coverage_wf: "coverage_wf restart_coverage"
  by (auto simp: coverage_wf_def restart_coverage_def merged_def interval_wf_def apart_def
      saturating_succ_def word_order split: if_splits)

lemma restart_intervals:
  "coverage_intervals restart_coverage [1] 2 =
     [\<lparr>iv_first = 1, iv_last = 3\<rparr>, \<lparr>iv_first = 6, iv_last = 7\<rparr>]"
  by (simp add: coverage_intervals_def restart_coverage_def)

lemma restart_covered_iff:
  "coverage_contains restart_coverage [1] 2 s \<longleftrightarrow> (1 \<le> s \<and> s \<le> 3) \<or> (6 \<le> s \<and> s \<le> 7)"
  by (auto simp: coverage_contains_iff [OF restart_coverage_wf] restart_intervals
      interval_contains_def)

lemma restart_run:
  "observe_all (reconciler_new restart_coverage [1] 2) [(3, 30), (9, 90)] =
     Ok ([\<lparr>obs_store_event = False, obs_gaps = []\<rparr>,
          \<lparr>obs_store_event = True,
           obs_gaps = [make_gap 4 5 (Some 30) 90, make_gap 8 8 None 90]\<rparr>],
         (reconciler_new restart_coverage [1] 2)
           \<lparr>next_sequence := 10, preceding_timestamp := Some 90\<rparr>)"
  by (simp add: reconciler_new_def observe_def restart_covered_iff uncovered_gaps_def
      restart_intervals checked_succ_def saturating_succ_def
      max_def Let_def word_order)

theorem observe_exact_witness:
  "\<exists>obs r'. observe (reconciler_new restart_coverage [1] 2) 5 50 = Ok (obs, r') \<and>
     next_sequence r' = 6 \<and> obs_store_event obs \<and> gaps_cover (obs_gaps obs) = {4}"
proof -
  let ?r = "reconciler_new restart_coverage [1] 2"
  have pre: "coverage_wf (rc_coverage ?r)" "0 < next_sequence ?r" "next_sequence ?r \<le> 5"
    by (simp_all add: reconciler_new_def restart_coverage_wf word_order)
  have "{s. next_sequence ?r \<le> s \<and> s < 5 \<and> \<not> rc_covered ?r s} = {4}"
    by (auto simp: reconciler_new_def restart_covered_iff word_order word_unat_eq_iff)
  moreover have "\<not> rc_covered ?r 5"
    by (simp add: reconciler_new_def restart_covered_iff word_order)
  ultimately show ?thesis
    using observe_exact [OF pre, of 50] by auto
qed

theorem run_accounts_witness:
  "\<exists>obss r. observe_all (reconciler_new restart_coverage [1] 2) [(3, 30), (9, 90)] = Ok (obss, r) \<and>
     next_sequence r = 10 \<and> stored_sequences [(3, 30), (9, 90)] obss = [9] \<and>
     gaps_cover (reported_gaps obss) \<inter> {9} = {} \<and>
     (\<forall>s \<in> gaps_cover (reported_gaps obss) \<union> {9}.
        \<not> coverage_contains restart_coverage [1] 2 s)"
  using run_accounts_every_sequence [OF restart_coverage_wf restart_run] restart_run
  by (simp add: observed_new_def)


end
