(* ===== verification/Bounded_Queue.thy ===== *)
theory Bounded_Queue
  imports Prelude
begin

unbundle bit_operations_syntax

text \<open>
  The slot-and-byte bounded handoff between drain threads and shard writers
  (\<^verbatim>\<open>eventd-core/src/queue.rs\<close>). The ring positions are 64-bit words that wrap, exactly as the
  code's \<^verbatim>\<open>usize\<close> counters do. Each operation of a handle (reserve, publish, drop, pop, close) is
  one function on the shared state; producers interleave at the level of these operations, and a
  permit may stay outstanding over any number of them. A slot's payload is an option: \<open>None\<close> is
  uninitialised memory, and reading it is undefined behaviour, which the model represents by the
  absence of a result, as it does a loop that spins for ever.
\<close>

section \<open>Data\<close>

record 'a slot =
  slot_sequence :: usize
  slot_bytes :: usize
  slot_cancelled :: bool
  slot_value :: "'a option"

record 'a inner =
  ring :: "'a slot list"
  ring_mask :: usize
  capacity :: usize
  enqueue :: usize
  dequeue :: usize
  bytes_used :: usize
  byte_capacity :: usize
  closed :: bool
  epoch :: u64

record permit =
  permit_position :: usize
  permit_bytes :: usize

datatype 'a pop = Item 'a | Empty | PopClosed

datatype reserve_error = Full | TooLarge | ReserveClosed

datatype queue_config_error = QueueConfigError

definition slot_new :: "usize \<Rightarrow> 'a slot" where
  "slot_new sequence =
     \<lparr>slot_sequence = sequence, slot_bytes = 0, slot_cancelled = False, slot_value = None\<rparr>"

text \<open>\<^verbatim>\<open>usize::is_power_of_two\<close>: exactly one of the 64 bits is set.\<close>

definition is_power_of_two :: "usize \<Rightarrow> bool" where
  "is_power_of_two n \<longleftrightarrow> n \<in> set (map (\<lambda>k. 2 ^ k) [0..<64])"

definition queue_new :: "usize \<Rightarrow> usize \<Rightarrow> queue_config_error + 'a inner" where
  "queue_new slots bytes =
     (if slots < 2 \<or> \<not> is_power_of_two slots \<or> bytes = 0 then Err QueueConfigError
      else Ok \<lparr>ring = map (\<lambda>sequence. slot_new (of_nat sequence)) [0..<unat slots],
              ring_mask = slots - 1, capacity = slots, enqueue = 0, dequeue = 0, bytes_used = 0,
              byte_capacity = bytes, closed = False, epoch = 0\<rparr>)"

section \<open>Operations\<close>

definition slot_at :: "'a inner \<Rightarrow> usize \<Rightarrow> 'a slot" where
  "slot_at q position = ring q ! unat (position AND ring_mask q)"

definition set_slot :: "'a inner \<Rightarrow> usize \<Rightarrow> 'a slot \<Rightarrow> 'a inner" where
  "set_slot q position s = q\<lparr>ring := (ring q)[unat (position AND ring_mask q) := s]\<rparr>"

definition notify_change :: "'a inner \<Rightarrow> 'a inner" where
  "notify_change q = q\<lparr>epoch := epoch q + 1\<rparr>"

definition permit_publish :: "'a inner \<Rightarrow> permit \<Rightarrow> 'a \<Rightarrow> 'a inner" where
  "permit_publish q p value =
     (let position = permit_position p;
          s = (slot_at q position)\<lparr>slot_value := Some value, slot_bytes := permit_bytes p,
                slot_cancelled := False, slot_sequence := position + 1\<rparr> in
      notify_change (set_slot q position s))"

definition permit_drop :: "'a inner \<Rightarrow> permit \<Rightarrow> 'a inner" where
  "permit_drop q p =
     (let position = permit_position p;
          s = (slot_at q position)\<lparr>slot_bytes := 0, slot_cancelled := True,
                slot_sequence := position + 1\<rparr> in
      notify_change
        ((set_slot q position s)\<lparr>bytes_used := bytes_used q - permit_bytes p\<rparr>))"

text \<open>The \<^verbatim>\<open>fetch_update\<close> that charges the byte budget.\<close>

definition charge_bytes :: "'a inner \<Rightarrow> usize \<Rightarrow> 'a inner option" where
  "charge_bytes q bytes =
     (case checked_add (bytes_used q) bytes of
        None \<Rightarrow> None
      | Some next \<Rightarrow>
          if next \<le> byte_capacity q then Some (q\<lparr>bytes_used := next\<rparr>) else None)"

text \<open>One pass of the claim loop. A difference above zero spins: no result.\<close>

definition claim_slot :: "'a inner \<Rightarrow> usize \<Rightarrow> ((reserve_error + permit) \<times> 'a inner) option" where
  "claim_slot q bytes =
     (let position = enqueue q;
          difference = sint (slot_sequence (slot_at q position) - position) in
      if difference = 0 then
        let q' = q\<lparr>enqueue := position + 1\<rparr>;
            permit = \<lparr>permit_position = position, permit_bytes = bytes\<rparr> in
        if closed q' then Some (Err ReserveClosed, permit_drop q' permit)
        else Some (Ok permit, q')
      else if difference < 0 then Some (Err Full, q\<lparr>bytes_used := bytes_used q - bytes\<rparr>)
      else None)"

definition inner_try_reserve ::
  "'a inner \<Rightarrow> usize \<Rightarrow> ((reserve_error + permit) \<times> 'a inner) option" where
  "inner_try_reserve q bytes =
     (if closed q then Some (Err ReserveClosed, q)
      else
        case charge_bytes q bytes of
          None \<Rightarrow> Some (Err Full, q)
        | Some q' \<Rightarrow> claim_slot q' bytes)"

definition try_reserve ::
  "'a inner \<Rightarrow> usize \<Rightarrow> ((reserve_error + permit) \<times> 'a inner) option" where
  "try_reserve q bytes =
     (if byte_capacity q < bytes then Some (Err TooLarge, q) else inner_try_reserve q bytes)"

definition is_drained :: "'a inner \<Rightarrow> bool" where
  "is_drained q \<longleftrightarrow> dequeue q = enqueue q"

text \<open>The consumer takes the head slot: it reads a payload only if the permit was not cancelled.\<close>

definition take_head :: "'a inner \<Rightarrow> ('a option \<times> 'a inner) option" where
  "take_head q =
     (let position = dequeue q; s = slot_at q position;
          release = (\<lambda>q0 s'. notify_change
            (let q1 = set_slot (q0\<lparr>dequeue := position + 1\<rparr>) position
                        (s'\<lparr>slot_sequence := position + capacity q\<rparr>) in
             if slot_bytes s \<noteq> 0 then q1\<lparr>bytes_used := bytes_used q1 - slot_bytes s\<rparr> else q1)) in
      if slot_cancelled s then Some (None, release q s)
      else
        case slot_value s of
          None \<Rightarrow> None
        | Some value \<Rightarrow> Some (Some value, release q (s\<lparr>slot_value := None\<rparr>)))"

partial_function (option) inner_pop :: "'a inner \<Rightarrow> ('a pop \<times> 'a inner) option" where
  "inner_pop q =
     (let position = dequeue q;
          difference = sint (slot_sequence (slot_at q position) - (position + 1)) in
      if difference = 0 then
        Option.bind (take_head q) (\<lambda>(taken, q').
          case taken of
            Some value \<Rightarrow> Some (Item value, q')
          | None \<Rightarrow> inner_pop q')
      else if difference < 0 then
        Some (if closed q \<and> is_drained q then PopClosed else Empty, q)
      else None)"

definition queue_close :: "'a inner \<Rightarrow> 'a inner" where
  "queue_close q = notify_change (q\<lparr>closed := True\<rparr>)"

definition queue_len :: "'a inner \<Rightarrow> usize" where
  "queue_len q = enqueue q - dequeue q"

definition queue_is_empty :: "'a inner \<Rightarrow> bool" where
  "queue_is_empty q \<longleftrightarrow> queue_len q = 0"

text \<open>Dropping the shared state drops the payload of every published slot still queued.\<close>

function drop_from :: "'a inner \<Rightarrow> usize \<Rightarrow> usize \<Rightarrow> 'a option list" where
  "drop_from q position end_position =
     (if position = end_position then []
      else
        let s = slot_at q position in
        (if slot_sequence s = position + 1 \<and> \<not> slot_cancelled s then [slot_value s] else []) @
        drop_from q (position + 1) end_position)"
  by pat_completeness auto
termination
proof (relation "measure (\<lambda>(q, position, end_position). unat (end_position - position))", simp_all)
  fix position end_position :: usize
  assume "position \<noteq> end_position"
  then have pos: "0 < unat (end_position - position)" by (simp add: unat_gt_0)
  then have "unat (end_position - position - 1) = unat (end_position - position) - 1"
    by (intro unat_pred) (simp add: word_order)
  with pos have "unat (end_position - position - 1) < unat (end_position - position)" by simp
  then show "unat (end_position - (position + 1)) < unat (end_position - position)"
    by (simp add: algebra_simps)
qed

definition inner_drop :: "'a inner \<Rightarrow> 'a option list" where
  "inner_drop q = drop_from q (dequeue q) (enqueue q)"

section \<open>Geometry of the ring\<close>

definition geometry :: "nat \<Rightarrow> 'a inner \<Rightarrow> bool" where
  "geometry k q \<longleftrightarrow> 1 \<le> k \<and> k < 64 \<and> capacity q = 2 ^ k \<and> ring_mask q = 2 ^ k - 1 \<and>
     length (ring q) = 2 ^ k"

definition pos :: "'a inner \<Rightarrow> nat \<Rightarrow> usize" where
  "pos q i = dequeue q + of_nat i"

lemma mod_power_of_two_cancel: "k \<le> n \<Longrightarrow> a mod 2 ^ n mod 2 ^ k = a mod (2 :: nat) ^ k"
  by (simp add: mod_mod_cancel le_imp_power_dvd)

lemma unat_power_of_two: "k < 64 \<Longrightarrow> unat (2 ^ k :: usize) = 2 ^ k"
proof -
  assume "k < 64"
  then have "(2 :: nat) ^ k < 2 ^ 64" by (intro power_strict_increasing) simp_all
  moreover have "(2 ^ k :: usize) = of_nat (2 ^ k)" by simp
  ultimately show "unat (2 ^ k :: usize) = 2 ^ k"
    by (simp only: unat_of_nat) simp
qed

lemma slot_index:
  assumes "geometry k q"
  shows "unat (pos q i AND ring_mask q) = (unat (dequeue q) + i) mod 2 ^ k"
proof -
  have k: "k < 64" and m: "ring_mask q = 2 ^ k - 1"
    using assms by (simp_all add: geometry_def)
  have "unat (pos q i) mod 2 ^ k = (unat (dequeue q) + i) mod 2 ^ 64 mod 2 ^ k"
    by (simp add: pos_def unat_word_ariths unat_of_nat mod_add_right_eq)
  with k m show ?thesis
    by (simp add: unat_and_low_bits mod_power_of_two_cancel [of k 64, simplified])
qed

lemma window_index_eq_iff:
  assumes "i < n" and "j < n"
  shows "(d + i) mod n = (d + j) mod n \<longleftrightarrow> i = (j :: nat)"
proof
  assume "(d + i) mod n = (d + j) mod n"
  then have "i mod n = j mod n" by (simp add: mod_add_left_eq nat_mod_eq_iff)
  with assms show "i = j" by simp
qed simp

lemma slot_at_set_slot:
  assumes g: "geometry k q" and "i < 2 ^ k" and "j < 2 ^ k"
  shows "slot_at (set_slot q (pos q i) s) (pos q j) = (if i = j then s else slot_at q (pos q j))"
proof -
  have idx: "unat (pos q n AND ring_mask q) = (unat (dequeue q) + n) mod 2 ^ k" for n
    by (rule slot_index [OF g])
  have len: "length (ring q) = 2 ^ k" using g by (simp add: geometry_def)
  show ?thesis
    using window_index_eq_iff [OF assms(2,3), of "unat (dequeue q)"] len
    by (auto simp: slot_at_def set_slot_def idx nth_list_update)
qed

section \<open>The abstract queue\<close>

text \<open>
  What the ring stands for: the claimed slots from the oldest to the newest. An entry is reserved
  (its permit is outstanding), published with its payload, or cancelled.
\<close>

datatype 'a entry = Reserved usize | Published usize 'a | Cancelled

fun entry_bytes :: "'a entry \<Rightarrow> nat" where
  "entry_bytes (Reserved b) = unat b"
| "entry_bytes (Published b v) = unat b"
| "entry_bytes Cancelled = 0"

definition total_bytes :: "'a entry list \<Rightarrow> nat" where
  "total_bytes es = sum_list (map entry_bytes es)"

text \<open>How a slot at a claimed or free position must look.\<close>

fun slot_free :: "'a slot \<Rightarrow> usize \<Rightarrow> bool" where
  "slot_free s p \<longleftrightarrow> slot_sequence s = p \<and> slot_value s = None"

fun slot_holds :: "'a slot \<Rightarrow> usize \<Rightarrow> 'a entry \<Rightarrow> bool" where
  "slot_holds s p (Reserved b) \<longleftrightarrow> slot_sequence s = p \<and> slot_value s = None"
| "slot_holds s p (Published b v) \<longleftrightarrow>
     slot_sequence s = p + 1 \<and> \<not> slot_cancelled s \<and> slot_bytes s = b \<and> slot_value s = Some v"
| "slot_holds s p Cancelled \<longleftrightarrow>
     slot_sequence s = p + 1 \<and> slot_cancelled s \<and> slot_bytes s = 0 \<and> slot_value s = None"

definition rep :: "nat \<Rightarrow> 'a inner \<Rightarrow> 'a entry list \<Rightarrow> bool" where
  "rep k q es \<longleftrightarrow>
     geometry k q \<and> length es \<le> 2 ^ k \<and> enqueue q = pos q (length es) \<and>
     (\<forall>i < length es. slot_holds (slot_at q (pos q i)) (pos q i) (es ! i)) \<and>
     (\<forall>i < 2 ^ k. length es \<le> i \<longrightarrow> slot_free (slot_at q (pos q i)) (pos q i)) \<and>
     unat (bytes_used q) = total_bytes es \<and> bytes_used q \<le> byte_capacity q"

text \<open>A permit belongs to the queue when its position holds its reservation.\<close>

definition holds_permit :: "'a inner \<Rightarrow> 'a entry list \<Rightarrow> nat \<Rightarrow> permit \<Rightarrow> bool" where
  "holds_permit q es i p \<longleftrightarrow>
     i < length es \<and> permit_position p = pos q i \<and> es ! i = Reserved (permit_bytes p)"

lemma total_bytes_simps [simp]:
  "total_bytes [] = 0"
  "total_bytes (e # es) = entry_bytes e + total_bytes es"
  "total_bytes (xs @ ys) = total_bytes xs + total_bytes ys"
  by (simp_all add: total_bytes_def)

lemma total_bytes_update:
  "i < length es \<Longrightarrow> total_bytes (es[i := e]) + entry_bytes (es ! i) = total_bytes es + entry_bytes e"
  by (induction es arbitrary: i) (auto split: nat.splits)

lemma entry_bytes_le_total: "i < length es \<Longrightarrow> entry_bytes (es ! i) \<le> total_bytes es"
  by (simp add: total_bytes_def member_le_sum_list)

lemma set_slot_frame [simp]:
  "ring_mask (set_slot q p s) = ring_mask q" "capacity (set_slot q p s) = capacity q"
  "enqueue (set_slot q p s) = enqueue q" "dequeue (set_slot q p s) = dequeue q"
  "bytes_used (set_slot q p s) = bytes_used q" "byte_capacity (set_slot q p s) = byte_capacity q"
  "closed (set_slot q p s) = closed q" "length (ring (set_slot q p s)) = length (ring q)"
  by (simp_all add: set_slot_def)

lemma notify_change_frame [simp]:
  "ring (notify_change q) = ring q" "ring_mask (notify_change q) = ring_mask q"
  "capacity (notify_change q) = capacity q" "enqueue (notify_change q) = enqueue q"
  "dequeue (notify_change q) = dequeue q" "bytes_used (notify_change q) = bytes_used q"
  "byte_capacity (notify_change q) = byte_capacity q" "closed (notify_change q) = closed q"
  "slot_at (notify_change q) = slot_at q" "pos (notify_change q) = pos q"
  "geometry k (notify_change q) = geometry k q"
  by (auto simp: notify_change_def slot_at_def pos_def geometry_def fun_eq_iff)

lemma rep_notify_change [simp]: "rep k (notify_change q) es = rep k q es"
  by (simp add: rep_def)

lemma update_frame [simp]:
  "slot_at (q\<lparr>bytes_used := b\<rparr>) = slot_at q" "slot_at (q\<lparr>enqueue := n\<rparr>) = slot_at q"
  "slot_at (q\<lparr>dequeue := n\<rparr>) = slot_at q" "slot_at (q\<lparr>closed := c\<rparr>) = slot_at q"
  "pos (q\<lparr>bytes_used := b\<rparr>) = pos q" "pos (q\<lparr>enqueue := n\<rparr>) = pos q"
  "pos (q\<lparr>closed := c\<rparr>) = pos q" "pos (set_slot q p s) = pos q"
  "geometry k (q\<lparr>bytes_used := b\<rparr>) = geometry k q" "geometry k (q\<lparr>enqueue := n\<rparr>) = geometry k q"
  "geometry k (q\<lparr>dequeue := n\<rparr>) = geometry k q" "geometry k (q\<lparr>closed := c\<rparr>) = geometry k q"
  "geometry k (set_slot q p s) = geometry k q"
  by (auto simp: slot_at_def pos_def geometry_def fun_eq_iff)

section \<open>Operations refine the abstract queue\<close>

lemma rep_new:
  assumes "queue_new slots bytes = Ok q"
  shows "\<exists>k. rep k q [] \<and> capacity q = slots \<and> byte_capacity q = bytes \<and> \<not> closed q"
proof -
  from assms have ok: "\<not> slots < 2" "is_power_of_two slots"
    and q: "q = \<lparr>ring = map (\<lambda>sequence. slot_new (of_nat sequence)) [0..<unat slots],
              ring_mask = slots - 1, capacity = slots, enqueue = 0, dequeue = 0, bytes_used = 0,
              byte_capacity = bytes, closed = False, epoch = 0\<rparr>"
    by (auto simp: queue_new_def split: if_splits)
  then obtain k where k: "slots = 2 ^ k" "k < 64"
    by (auto simp: is_power_of_two_def)
  have "1 \<le> k" using ok(1) k(1) by (cases k) auto
  with k q have g: "geometry k q"
    by (simp add: geometry_def unat_power_of_two)
  have "slot_at q (pos q i) = slot_new (pos q i)" if "i < 2 ^ k" for i
    using that slot_index [OF g, of i] k q
    by (simp add: slot_at_def pos_def unat_power_of_two)
  with g q show ?thesis
    by (auto simp: rep_def slot_new_def pos_def)
qed

lemma rep_set_entry:
  assumes r: "rep k q es" and i: "i < length es"
    and s: "slot_holds s (pos q i) e"
    and b: "unat b = total_bytes (es[i := e])" "b \<le> byte_capacity q"
  shows "rep k ((set_slot q (pos q i) s)\<lparr>bytes_used := b\<rparr>) (es[i := e])"
proof -
  have g: "geometry k q" and len: "length es \<le> 2 ^ k"
    using r by (simp_all add: rep_def)
  have at: "slot_at (set_slot q (pos q i) s) (pos q j) = (if i = j then s else slot_at q (pos q j))"
    if "j < 2 ^ k" for j
    using slot_at_set_slot [OF g _ that, of i] i len by simp
  show ?thesis
    using r i len s b by (auto simp: rep_def at nth_list_update)
qed

lemma rep_publish:
  assumes "rep k q es" and "holds_permit q es i p"
  shows "rep k (permit_publish q p v) (es[i := Published (permit_bytes p) v])"
proof -
  have i: "i < length es" "permit_position p = pos q i" "es ! i = Reserved (permit_bytes p)"
    using assms(2) by (simp_all add: holds_permit_def)
  have "total_bytes (es[i := Published (permit_bytes p) v]) = total_bytes es"
    using total_bytes_update [OF i(1), of "Published (permit_bytes p) v"] i(3) by simp
  with rep_set_entry [OF assms(1) i(1), of _ "Published (permit_bytes p) v" "bytes_used q"] i assms(1)
  show ?thesis
    by (simp add: permit_publish_def Let_def rep_def)
qed

lemma rep_drop:
  assumes "rep k q es" and "holds_permit q es i p"
  shows "rep k (permit_drop q p) (es[i := Cancelled])"
proof -
  have i: "i < length es" "permit_position p = pos q i" "es ! i = Reserved (permit_bytes p)"
    using assms(2) by (simp_all add: holds_permit_def)
  have "slot_value (slot_at q (pos q i)) = None"
    using assms(1) i by (auto simp: rep_def)
  moreover have le: "permit_bytes p \<le> bytes_used q"
    using entry_bytes_le_total [OF i(1)] i(3) assms(1) by (simp add: rep_def word_order)
  then have "unat (bytes_used q - permit_bytes p) = total_bytes (es[i := Cancelled])"
    using total_bytes_update [OF i(1), of Cancelled] i(3) assms(1)
    by (simp add: rep_def unat_sub)
  moreover have "bytes_used q - permit_bytes p \<le> byte_capacity q"
    using le assms(1) by (auto simp: rep_def word_order unat_sub)
  ultimately show ?thesis
    using rep_set_entry [OF assms(1) i(1), of _ Cancelled "bytes_used q - permit_bytes p"] i
    by (simp add: permit_drop_def Let_def)
qed

lemma sint_negative_iff: "sint (w :: usize) < 0 \<longleftrightarrow> 2 ^ 63 \<le> unat w"
proof -
  have "uint w < 2 ^ 64"
    using unsigned_less [of w, where ?'a = int] by simp
  have "sint w < 0 \<longleftrightarrow> bit (uint w) 63"
    by (simp add: sint_uint signed_take_bit_negative_iff)
  also have "\<dots> \<longleftrightarrow> odd (uint w div 2 ^ 63)"
    by (simp add: bit_iff_odd)
  also have "\<dots> \<longleftrightarrow> 2 ^ 63 \<le> uint w"
  proof (cases "2 ^ 63 \<le> uint w")
    case True
    with \<open>uint w < 2 ^ 64\<close> have "uint w div 2 ^ 63 = 1"
      by (intro int_div_pos_eq [of _ _ _ "uint w - 2 ^ 63"]) simp_all
    with True show ?thesis by simp
  next
    case False
    then have "uint w div 2 ^ 63 = 0" by (intro div_pos_pos_trivial) simp_all
    with False show ?thesis by (metis dvd_0_right)
  qed
  also have "\<dots> \<longleftrightarrow> int (2 ^ 63) \<le> int (unat w)" by (simp only: of_nat_power of_nat_unat) simp
  finally show ?thesis by (simp only: of_nat_le_iff)
qed

lemma slot_at_full:
  assumes "geometry k q"
  shows "slot_at q (pos q (2 ^ k)) = slot_at q (pos q 0)"
  using slot_index [OF assms, of "2 ^ k"] slot_index [OF assms, of 0]
  by (simp add: slot_at_def)

lemma full_difference_negative:
  assumes "1 \<le> k" and "k < 64"
  shows "sint (- (2 ^ k) :: usize) < 0" and "sint (1 - 2 ^ k :: usize) < 0"
proof -
  have lo: "2 \<le> (2 :: nat) ^ k" using power_increasing [OF assms(1), of "2 :: nat"] by simp
  have hi: "(2 :: nat) ^ k \<le> 2 ^ 63" using assms(2) by (intro power_increasing) simp_all
  have "(- (2 ^ k) :: usize) = of_nat (2 ^ 64 - 2 ^ k)"
    using hi by (subst of_nat_diff) simp_all
  then have u: "unat (- (2 ^ k) :: usize) = 2 ^ 64 - 2 ^ k"
    using lo by (simp only: unat_of_nat) simp
  with hi show "sint (- (2 ^ k) :: usize) < 0" by (simp add: sint_negative_iff)
  have "(1 - 2 ^ k :: usize) = of_nat (2 ^ 64 - 2 ^ k + 1)"
    using hi by (subst of_nat_add, subst of_nat_diff) simp_all
  moreover have "(2 :: nat) ^ 64 - 2 ^ k + 1 < 2 ^ 64" using lo hi by simp
  ultimately have "unat (1 - 2 ^ k :: usize) = 2 ^ 64 - 2 ^ k + 1"
    by (simp only: unat_of_nat) simp
  with hi show "sint (1 - 2 ^ k :: usize) < 0" by (simp add: sint_negative_iff)
qed

lemma charge_bytes_cases:
  assumes "rep k q es"
  shows "charge_bytes q b =
    (if total_bytes es + unat b \<le> unat (byte_capacity q)
     then Some (q\<lparr>bytes_used := bytes_used q + b\<rparr>) else None)"
proof -
  have t: "unat (bytes_used q) = total_bytes es" using assms by (simp add: rep_def)
  show ?thesis
    using unat_less_2p [of "byte_capacity q"]
    by (auto simp: charge_bytes_def checked_add_def word_order t [symmetric] unat_add_lem [THEN iffD1]
        split: option.splits)
qed

lemma rep_claim:
  assumes r: "rep k q es" and len: "length es < 2 ^ k"
    and b: "total_bytes es + unat b \<le> unat (byte_capacity q)"
  shows "rep k (q\<lparr>bytes_used := bytes_used q + b, enqueue := enqueue q + 1\<rparr>) (es @ [Reserved b])"
proof -
  have t: "unat (bytes_used q) = total_bytes es" using r by (simp add: rep_def)
  have u: "unat (bytes_used q + b) = total_bytes es + unat b"
    using b t unat_less_2p [of "byte_capacity q"] by (simp add: unat_add_no_overflow)
  have free: "slot_free (slot_at q (pos q (length es))) (pos q (length es))"
    using r len by (simp add: rep_def)
  have "enqueue q + 1 = pos q (length (es @ [Reserved b]))"
    using r by (simp add: rep_def pos_def)
  with r len free u b show ?thesis
    by (auto simp: rep_def nth_append word_order less_Suc_eq)
qed

lemma claim_slot_cases:
  assumes r: "rep k q es" and "\<not> closed q"
    and b: "total_bytes es + unat b \<le> unat (byte_capacity q)"
  shows "claim_slot (q\<lparr>bytes_used := bytes_used q + b\<rparr>) b =
    Some (if length es < 2 ^ k
          then (Ok \<lparr>permit_position = pos q (length es), permit_bytes = b\<rparr>,
                q\<lparr>bytes_used := bytes_used q + b, enqueue := enqueue q + 1\<rparr>)
          else (Err Full, q))"
proof (cases "length es < 2 ^ k")
  case True
  then have "slot_sequence (slot_at q (pos q (length es))) = pos q (length es)"
    using r by (simp add: rep_def)
  with True r assms(2) show ?thesis
    by (simp add: claim_slot_def Let_def rep_def)
next
  case False
  then have g: "geometry k q" and full: "length es = 2 ^ k" and e: "enqueue q = pos q (2 ^ k)"
    using r by (simp_all add: rep_def)
  then have k: "1 \<le> k" "k < 64" by (simp_all add: geometry_def)
  have "slot_holds (slot_at q (pos q 0)) (pos q 0) (es ! 0)"
    using r full by (simp add: rep_def)
  then have "slot_sequence (slot_at q (pos q 0)) = pos q 0 \<or>
      slot_sequence (slot_at q (pos q 0)) = pos q 0 + 1"
    by (cases "es ! 0") simp_all
  then have "slot_sequence (slot_at q (enqueue q)) - enqueue q \<in> {- (2 ^ k), 1 - 2 ^ k}"
    unfolding e slot_at_full [OF g] by (auto simp: pos_def)
  then have "sint (slot_sequence (slot_at q (enqueue q)) - enqueue q) < 0"
    using full_difference_negative [OF k] by auto
  with False show ?thesis by (simp add: claim_slot_def Let_def)
qed

lemma rep_reserve:
  assumes r: "rep k q es"
  shows "try_reserve q b =
    (if byte_capacity q < b then Some (Err TooLarge, q)
     else if closed q then Some (Err ReserveClosed, q)
     else if length es < 2 ^ k \<and> total_bytes es + unat b \<le> unat (byte_capacity q)
     then Some (Ok \<lparr>permit_position = pos q (length es), permit_bytes = b\<rparr>,
                q\<lparr>bytes_used := bytes_used q + b, enqueue := enqueue q + 1\<rparr>)
     else Some (Err Full, q))"
  using claim_slot_cases [OF r, of b]
  by (simp add: try_reserve_def inner_try_reserve_def charge_bytes_cases [OF r])

lemma rep_release:
  assumes r: "rep k q (e # es)"
    and s: "slot_value s = None" "slot_sequence s = dequeue q + capacity q"
    and b: "unat b = total_bytes es" "b \<le> byte_capacity q"
  shows "rep k ((set_slot (q\<lparr>dequeue := dequeue q + 1\<rparr>) (dequeue q) s)\<lparr>bytes_used := b\<rparr>) es"
    (is "rep k ?q es")
proof -
  have g: "geometry k q" and len: "length es < 2 ^ k" and e: "enqueue q = pos q (Suc (length es))"
    using r by (simp_all add: rep_def)
  have shift: "pos ?q i = pos q (Suc i)" for i
    by (simp add: pos_def add.assoc)
  have wrap: "pos q (2 ^ k) = dequeue q + capacity q" and k: "0 < (2 :: nat) ^ k"
    using g by (simp_all add: pos_def geometry_def)
  have "slot_at ?q p = slot_at (set_slot q (pos q 0) s) p" for p
    by (simp add: slot_at_def set_slot_def pos_def)
  then have at: "slot_at ?q (pos q j) = (if j = 0 then s else slot_at q (pos q j))" if "j < 2 ^ k" for j
    using slot_at_set_slot [OF g k that, of s] by simp
  have at_full: "slot_at ?q (pos q (2 ^ k)) = s"
    using slot_at_full [of k ?q] slot_index [OF g, of 0] slot_index [OF g, of "2 ^ k"] g at [OF k]
    by (simp add: slot_at_def set_slot_def)
  have "slot_holds (slot_at ?q (pos ?q i)) (pos ?q i) (es ! i)" if "i < length es" for i
    using r len that at [of "Suc i"] unfolding shift rep_def by auto
  moreover have "slot_free (slot_at ?q (pos ?q i)) (pos ?q i)" if "i < 2 ^ k" "length es \<le> i" for i
  proof (cases "Suc i = 2 ^ k")
    case True
    then show ?thesis using at_full wrap s unfolding shift by simp
  next
    case False
    with that have "Suc i < 2 ^ k" by simp
    then show ?thesis using r that at [of "Suc i"] unfolding shift rep_def by auto
  qed
  ultimately show ?thesis
    using g len e b unfolding rep_def shift by simp
qed

lemma rep_release_uncharged:
  assumes "rep k q (e # es)" "slot_value s = None" "slot_sequence s = dequeue q + capacity q"
    and "unat (bytes_used q) = total_bytes es"
  shows "rep k (set_slot (q\<lparr>dequeue := dequeue q + 1\<rparr>) (dequeue q) s) es"
proof -
  have "bytes_used q \<le> byte_capacity q" using assms(1) by (simp add: rep_def)
  from rep_release [OF assms this] show ?thesis by (simp add: set_slot_def)
qed

lemma take_head_published:
  assumes r: "rep k q (Published b v # es)"
  shows "\<exists>q'. take_head q = Some (Some v, q') \<and> rep k q' es \<and> closed q' = closed q \<and>
    byte_capacity q' = byte_capacity q \<and> dequeue q' = dequeue q + 1"
proof -
  have h: "slot_holds (slot_at q (dequeue q)) (dequeue q) (Published b v)"
    using r unfolding rep_def by (force simp: pos_def)
  have u: "unat (bytes_used q) = unat b + total_bytes es" "bytes_used q \<le> byte_capacity q"
    using r by (simp_all add: rep_def)
  then have "unat (bytes_used q - b) = total_bytes es" "bytes_used q - b \<le> byte_capacity q"
    by (auto simp: word_order unat_sub)
  with rep_release [OF r, of _ "bytes_used q - b"] u rep_release_uncharged [OF r] h
  show ?thesis
    by (auto simp: take_head_def Let_def)
qed

lemma take_head_cancelled:
  assumes r: "rep k q (Cancelled # es)"
  shows "\<exists>q'. take_head q = Some (None, q') \<and> rep k q' es \<and> closed q' = closed q \<and>
    byte_capacity q' = byte_capacity q \<and> dequeue q' = dequeue q + 1"
proof -
  have h: "slot_holds (slot_at q (dequeue q)) (dequeue q) Cancelled"
    using r unfolding rep_def by (force simp: pos_def)
  have "unat (bytes_used q) = total_bytes es"
    using r by (simp add: rep_def)
  with rep_release_uncharged [OF r] h
  show ?thesis
    by (auto simp: take_head_def Let_def)
qed

text \<open>The result and the remaining entries of a pop, on the abstract queue.\<close>

fun pop_entries :: "bool \<Rightarrow> 'a entry list \<Rightarrow> 'a pop \<times> 'a entry list" where
  "pop_entries c [] = (if c then PopClosed else Empty, [])"
| "pop_entries c (Cancelled # es) = pop_entries c es"
| "pop_entries c (Reserved b # es) = (Empty, Reserved b # es)"
| "pop_entries c (Published b v # es) = (Item v, es)"

lemma head_difference:
  assumes r: "rep k q es"
  shows "slot_sequence (slot_at q (dequeue q)) - (dequeue q + 1) =
    (case es of [] \<Rightarrow> - 1 | Reserved b # _ \<Rightarrow> - 1 | _ \<Rightarrow> 0)"
proof (cases es)
  case Nil
  then have "slot_sequence (slot_at q (pos q 0)) = pos q 0"
    using r by (simp add: rep_def)
  with Nil show ?thesis by (simp add: pos_def)
next
  case (Cons e es')
  then have "slot_holds (slot_at q (dequeue q)) (dequeue q) e"
    using r unfolding rep_def by (force simp: pos_def)
  with Cons show ?thesis by (cases e) simp_all
qed

lemma rep_drained:
  assumes r: "rep k q es"
  shows "is_drained q \<longleftrightarrow> es = []"
proof -
  have "length es < 2 ^ 64" and e: "enqueue q = dequeue q + of_nat (length es)"
    using r power_strict_increasing [of k 64 "2 :: nat"]
    by (auto simp: rep_def geometry_def pos_def)
  then have "unat (of_nat (length es) :: usize) = length es" by (simp add: unat_of_nat)
  then have "(of_nat (length es) :: usize) \<noteq> 0 \<longleftrightarrow> es \<noteq> []"
    by (simp only: unat_gt_0 [symmetric]) simp
  with e show ?thesis by (simp add: is_drained_def)
qed

lemma rep_pop:
  assumes "rep k q es"
  shows "\<exists>q'. inner_pop q = Some (fst (pop_entries (closed q) es), q') \<and>
    rep k q' (snd (pop_entries (closed q) es)) \<and> closed q' = closed q \<and>
    byte_capacity q' = byte_capacity q \<and>
    dequeue q' = dequeue q + of_nat (length es - length (snd (pop_entries (closed q) es)))"
  using assms
proof (induction "closed q" es arbitrary: q rule: pop_entries.induct)
  case 1
  then show ?case
    using head_difference [of k q "[]"] rep_drained [of k q "[]"] by (simp add: inner_pop.simps [of q])
next
  case (2 es)
  from take_head_cancelled [OF \<open>rep k q (Cancelled # es)\<close>] obtain q' where
    q': "take_head q = Some (None, q')" "rep k q' es" "closed q' = closed q"
      "byte_capacity q' = byte_capacity q" "dequeue q' = dequeue q + 1"
    by blast
  have le: "length (snd (pop_entries (closed q) es)) \<le> length es"
    by (induction "closed q" es rule: pop_entries.induct) auto
  have "inner_pop q = inner_pop q'"
    using head_difference [OF 2(2)] q'(1) by (simp add: inner_pop.simps [of q])
  with 2(1) [OF q'(3)[symmetric] q'(2)] q' le show ?case
    by (simp add: Suc_diff_le algebra_simps)
next
  case (3 b es)
  then show ?case
    using head_difference [OF 3] rep_drained [OF 3] by (simp add: inner_pop.simps [of q])
next
  case (4 b v es)
  from take_head_published [OF 4] obtain q' where
    q': "take_head q = Some (Some v, q')" "rep k q' es" "closed q' = closed q"
      "byte_capacity q' = byte_capacity q" "dequeue q' = dequeue q + 1"
    by blast
  then show ?case
    using head_difference [OF 4] by (simp add: inner_pop.simps [of q])
qed

lemma rep_close: "rep k q es \<Longrightarrow> rep k (queue_close q) es"
  by (simp add: queue_close_def rep_def)

lemma rep_len: "rep k q es \<Longrightarrow> unat (queue_len q) = length es"
  using power_strict_increasing [of k 64 "2 :: nat"]
  by (auto simp: rep_def geometry_def pos_def queue_len_def unat_of_nat)

text \<open>What the destructor reads: exactly the payloads still published.\<close>

lemma drop_from_window:
  assumes r: "rep k q es" and "i \<le> length es"
  shows "drop_from q (pos q i) (pos q (length es)) =
    concat (map (\<lambda>e. case e of Published b v \<Rightarrow> [Some v] | _ \<Rightarrow> []) (drop i es))"
  using assms(2)
proof (induction "length es - i" arbitrary: i)
  case 0
  then show ?case by (simp add: drop_from.simps)
next
  case (Suc n)
  then have i: "i < length es" by simp
  have inj: "pos q i \<noteq> pos q (length es)"
  proof
    assume "pos q i = pos q (length es)"
    then have "unat (of_nat i :: usize) = unat (of_nat (length es) :: usize)" by (simp add: pos_def)
    moreover have "length es < 2 ^ 64"
      using r power_strict_increasing [of k 64 "2 :: nat"] by (auto simp: rep_def geometry_def)
    ultimately show False using i by (simp add: unat_of_nat)
  qed
  have h: "slot_holds (slot_at q (pos q i)) (pos q i) (es ! i)" using r i by (simp add: rep_def)
  have "pos q i + 1 = pos q (Suc i)" by (simp add: pos_def)
  then have "drop_from q (pos q i + 1) (pos q (length es)) =
      concat (map (\<lambda>e. case e of Published b v \<Rightarrow> [Some v] | _ \<Rightarrow> []) (drop (Suc i) es))"
    using Suc.hyps(1) [of "Suc i"] Suc.hyps(2) i by simp
  then show ?case
    using inj h i by (cases "es ! i") (simp_all add: drop_from.simps [of q "pos q i"] Let_def
        Cons_nth_drop_Suc [symmetric])
qed

section \<open>Runs of producers and the consumer\<close>

text \<open>
  A world is the queue together with what its users hold: the outstanding permits, each under the
  number of its reservation, the fate of every reservation ever made, and the items popped so far.
  Producers and the consumer take turns in any order.
\<close>

record 'a world =
  shared :: "'a inner"
  held :: "(nat \<times> permit) set"
  history :: "'a entry list"
  consumed :: nat
  popped :: "'a list"

definition world_new :: "'a inner \<Rightarrow> 'a world" where
  "world_new q = \<lparr>shared = q, held = {}, history = [], consumed = 0, popped = []\<rparr>"

fun items :: "'a pop \<Rightarrow> 'a list" where
  "items (Item v) = [v]"
| "items _ = []"

inductive queue_step :: "'a world \<Rightarrow> 'a world \<Rightarrow> bool" where
  step_reserve: "try_reserve (shared w) b = Some (Ok p, q) \<Longrightarrow>
    queue_step w (w\<lparr>shared := q, held := insert (length (history w), p) (held w),
      history := history w @ [Reserved b]\<rparr>)"
| step_refuse: "try_reserve (shared w) b = Some (Err e, q) \<Longrightarrow> queue_step w (w\<lparr>shared := q\<rparr>)"
| step_publish: "(t, p) \<in> held w \<Longrightarrow>
    queue_step w (w\<lparr>shared := permit_publish (shared w) p v, held := held w - {(t, p)},
      history := (history w)[t := Published (permit_bytes p) v]\<rparr>)"
| step_cancel: "(t, p) \<in> held w \<Longrightarrow>
    queue_step w (w\<lparr>shared := permit_drop (shared w) p, held := held w - {(t, p)},
      history := (history w)[t := Cancelled]\<rparr>)"
| step_pop: "inner_pop (shared w) = Some (r, q) \<Longrightarrow>
    queue_step w (w\<lparr>shared := q, consumed := consumed w + unat (dequeue q - dequeue (shared w)),
      popped := popped w @ items r\<rparr>)"
| step_close: "queue_step w (w\<lparr>shared := queue_close (shared w)\<rparr>)"

inductive queue_run :: "usize \<Rightarrow> usize \<Rightarrow> 'a world \<Rightarrow> bool" for slots bytes where
  run_start: "queue_new slots bytes = Ok q \<Longrightarrow> queue_run slots bytes (world_new q)"
| run_step: "queue_run slots bytes w \<Longrightarrow> queue_step w w' \<Longrightarrow> queue_run slots bytes w'"

fun published :: "'a entry list \<Rightarrow> 'a list" where
  "published [] = []"
| "published (Published b v # es) = v # published es"
| "published (_ # es) = published es"

fun settled :: "'a entry \<Rightarrow> bool" where
  "settled (Reserved b) = False"
| "settled _ = True"

definition live :: "'a world \<Rightarrow> 'a entry list" where
  "live w = drop (consumed w) (history w)"

definition world_ok :: "nat \<Rightarrow> 'a world \<Rightarrow> bool" where
  "world_ok k w \<longleftrightarrow>
     rep k (shared w) (live w) \<and> consumed w \<le> length (history w) \<and>
     popped w = published (take (consumed w) (history w)) \<and>
     list_all settled (take (consumed w) (history w)) \<and>
     (\<forall>t p. (t, p) \<in> held w \<longleftrightarrow>
        consumed w \<le> t \<and> holds_permit (shared w) (live w) (t - consumed w) p)"

lemma published_append [simp]: "published (xs @ ys) = published xs @ published ys"
  by (induction xs rule: published.induct) simp_all

lemma pop_entries_prefix:
  "\<exists>pre. es = pre @ snd (pop_entries c es) \<and> list_all settled pre \<and>
     published pre = items (fst (pop_entries c es))"
proof (induction c es rule: pop_entries.induct)
  case (2 c es)
  then obtain pre where "es = pre @ snd (pop_entries c es)" "list_all settled pre"
    "published pre = items (fst (pop_entries c es))" by blast
  then show ?case by (intro exI [of _ "Cancelled # pre"]) simp
next
  case (4 c b v es)
  show ?case by (intro exI [of _ "[Published b v]"]) simp
qed auto

lemma pop_entries_closed: "fst (pop_entries c es) = PopClosed \<Longrightarrow> c \<and> snd (pop_entries c es) = []"
  by (induction c es rule: pop_entries.induct) (auto split: if_splits)

lemma pop_entries_empty:
  "fst (pop_entries c es) = Empty \<Longrightarrow>
     snd (pop_entries c es) = [] \<and> \<not> c \<or> (\<exists>b es'. snd (pop_entries c es) = Reserved b # es')"
  by (induction c es rule: pop_entries.induct) (auto split: if_splits)

lemma permit_frame [simp]:
  "dequeue (permit_publish q p v) = dequeue q" "closed (permit_publish q p v) = closed q"
  "byte_capacity (permit_publish q p v) = byte_capacity q" "capacity (permit_publish q p v) = capacity q"
  "dequeue (permit_drop q p) = dequeue q" "closed (permit_drop q p) = closed q"
  "byte_capacity (permit_drop q p) = byte_capacity q" "capacity (permit_drop q p) = capacity q"
  by (simp_all add: permit_publish_def permit_drop_def Let_def)

lemma holds_permit_cong: "dequeue q = dequeue q' \<Longrightarrow> holds_permit q es i p = holds_permit q' es i p"
  by (simp add: holds_permit_def pos_def)

lemma holds_permit_unique: "holds_permit q es i p \<Longrightarrow> holds_permit q es i p' \<Longrightarrow> p = p'"
  by (simp add: holds_permit_def)

lemma holds_permit_update:
  "settled e \<Longrightarrow> holds_permit q (es[i := e]) j p \<longleftrightarrow> j \<noteq> i \<and> holds_permit q es j p"
  by (cases e; cases "j = i"; auto simp: holds_permit_def)

lemma world_ok_settle:
  assumes ok: "world_ok k w" and h: "(t, p) \<in> held w" and e: "settled e"
    and r: "rep k q ((live w)[t - consumed w := e])" and d: "dequeue q = dequeue (shared w)"
  shows "world_ok k (w\<lparr>shared := q, held := held w - {(t, p)}, history := (history w)[t := e]\<rparr>)"
    (is "world_ok k ?w")
proof -
  have t: "consumed w \<le> t" and hp: "holds_permit (shared w) (live w) (t - consumed w) p"
    using ok h by (simp_all add: world_ok_def)
  have live: "live ?w = (live w)[t - consumed w := e]"
    using t by (simp add: live_def drop_update_swap)
  have keep: "take (consumed w) ((history w)[t := e]) = take (consumed w) (history w)"
    using t by simp
  have "(t', p') \<in> held ?w \<longleftrightarrow> consumed w \<le> t' \<and> holds_permit q (live ?w) (t' - consumed w) p'" for t' p'
  proof -
    have "holds_permit q (live ?w) (t' - consumed w) p' \<longleftrightarrow>
        t' - consumed w \<noteq> t - consumed w \<and> holds_permit (shared w) (live w) (t' - consumed w) p'"
      using holds_permit_cong [OF d] by (simp add: live holds_permit_update [OF e])
    moreover have "(t', p') \<in> held w \<longleftrightarrow>
        consumed w \<le> t' \<and> holds_permit (shared w) (live w) (t' - consumed w) p'"
      using ok by (simp add: world_ok_def)
    ultimately show ?thesis
      using t holds_permit_unique [OF hp] by auto
  qed
  with ok r live keep show ?thesis
    by (simp add: world_ok_def)
qed

lemma world_ok_publish:
  assumes "world_ok k w" and "(t, p) \<in> held w"
  shows "world_ok k (w\<lparr>shared := permit_publish (shared w) p v, held := held w - {(t, p)},
    history := (history w)[t := Published (permit_bytes p) v]\<rparr>)"
  using assms rep_publish [of k "shared w" "live w" "t - consumed w" p v]
  by (intro world_ok_settle) (simp_all add: world_ok_def)

lemma world_ok_cancel:
  assumes "world_ok k w" and "(t, p) \<in> held w"
  shows "world_ok k (w\<lparr>shared := permit_drop (shared w) p, held := held w - {(t, p)},
    history := (history w)[t := Cancelled]\<rparr>)"
  using assms rep_drop [of k "shared w" "live w" "t - consumed w" p]
  by (intro world_ok_settle) (simp_all add: world_ok_def)

lemma try_reserve_ok:
  assumes "rep k q es" and "try_reserve q b = Some (Ok p, q')"
  shows "rep k q' (es @ [Reserved b])" "p = \<lparr>permit_position = pos q (length es), permit_bytes = b\<rparr>"
    "dequeue q' = dequeue q" "\<not> closed q" "closed q' = closed q" "byte_capacity q' = byte_capacity q"
  using assms(2) rep_claim [OF assms(1), of b]
  unfolding rep_reserve [OF assms(1)] by (auto split: if_splits)

lemma try_reserve_err:
  assumes "rep k q es" and "try_reserve q b = Some (Err e, q')"
  shows "q' = q"
  using assms(2) unfolding rep_reserve [OF assms(1)] by (auto split: if_splits)

lemma world_ok_reserve:
  assumes ok: "world_ok k w" and s: "try_reserve (shared w) b = Some (Ok p, q)"
  shows "world_ok k (w\<lparr>shared := q, held := insert (length (history w), p) (held w),
    history := history w @ [Reserved b]\<rparr>)" (is "world_ok k ?w")
proof -
  have r: "rep k (shared w) (live w)" using ok by (simp add: world_ok_def)
  note o = try_reserve_ok [OF r s]
  have le: "consumed w \<le> length (history w)" using ok by (simp add: world_ok_def)
  then have live: "live ?w = live w @ [Reserved b]" by (simp add: live_def)
  have n: "length (live w) = length (history w) - consumed w" by (simp add: live_def)
  have "holds_permit q (live w @ [Reserved b]) i p' \<longleftrightarrow>
      i = length (live w) \<and> p' = p \<or> holds_permit (shared w) (live w) i p'" for i p'
    using o(2,3) by (auto simp: holds_permit_def nth_append pos_def less_Suc_eq)
  with ok o(1) le live n show ?thesis
    by (auto simp: world_ok_def le_diff_conv2)
qed

lemma world_ok_pop:
  assumes ok: "world_ok k w" and s: "inner_pop (shared w) = Some (r, q)"
  shows "world_ok k (w\<lparr>shared := q, consumed := consumed w + unat (dequeue q - dequeue (shared w)),
    popped := popped w @ items r\<rparr>)" (is "world_ok k ?w")
proof -
  have r: "rep k (shared w) (live w)" using ok by (simp add: world_ok_def)
  let ?c = "closed (shared w)"
  from rep_pop [OF r] s have q: "r = fst (pop_entries ?c (live w))"
      "rep k q (snd (pop_entries ?c (live w)))"
      "dequeue q = dequeue (shared w) + of_nat (length (live w) - length (snd (pop_entries ?c (live w))))"
    by auto
  obtain pre where pre: "live w = pre @ snd (pop_entries ?c (live w))" "list_all settled pre"
      "published pre = items r"
    using pop_entries_prefix [of "live w" ?c] q(1) by blast
  define es where "es = snd (pop_entries ?c (live w))"
  have le: "consumed w \<le> length (history w)" using ok by (simp add: world_ok_def)
  have split: "live w = pre @ es" using pre(1) by (simp add: es_def)
  have "length (live w) < 2 ^ 64"
    using r power_strict_increasing [of k 64 "2 :: nat"] by (auto simp: rep_def geometry_def)
  with split have n: "unat (of_nat (length pre) :: usize) = length pre"
    by (simp add: unat_of_nat)
  have dq: "dequeue q = dequeue (shared w) + of_nat (length pre)"
    using q(3) unfolding es_def [symmetric] by (simp add: split)
  with n have cons: "consumed ?w = consumed w + length pre" by simp
  have hist: "history w = take (consumed w) (history w) @ pre @ es"
    using split append_take_drop_id [of "consumed w" "history w"] by (simp add: live_def)
  then have taken: "take (consumed w + length pre) (history w) = take (consumed w) (history w) @ pre"
    and rest: "drop (consumed w + length pre) (history w) = es"
    using le by (metis append.assoc append_eq_conv_conj length_append length_take min.absorb2)+
  have hp: "holds_permit q es i p \<longleftrightarrow> holds_permit (shared w) (pre @ es) (length pre + i) p" for i p
    by (auto simp: holds_permit_def pos_def dq add.assoc)
  have pre_none: "\<not> holds_permit (shared w) (pre @ es) i p" if "i < length pre" for i p
    using pre(2) that by (auto simp: holds_permit_def nth_append list_all_length dest!: spec)
  have "(t, p) \<in> held w \<longleftrightarrow> consumed w + length pre \<le> t \<and>
      holds_permit q es (t - (consumed w + length pre)) p" for t p
    using ok pre_none [of "t - consumed w" p] hp [of "t - (consumed w + length pre)" p]
    by (cases "consumed w + length pre \<le> t") (auto simp: world_ok_def split)
  moreover have "consumed w + length pre \<le> length (history w)"
    using arg_cong [OF hist, of length] le by simp
  moreover have "rep k q es" using q(2) by (simp add: es_def)
  ultimately show ?thesis
    using ok pre(2,3) unfolding world_ok_def live_def cons by (simp add: taken rest)
qed

lemma world_ok_step:
  assumes "queue_step w w'" and "world_ok k w"
  shows "world_ok k w'"
  using assms(1)
proof (cases rule: queue_step.cases)
  case (step_refuse b e q)
  then show ?thesis
    using assms(2) try_reserve_err [of k "shared w" "live w" b e q] by (simp add: world_ok_def live_def)
next
  case step_close
  then show ?thesis
    using assms(2) rep_close [of k "shared w" "live w"] holds_permit_cong [of "queue_close (shared w)" "shared w"]
    by (simp add: world_ok_def live_def queue_close_def)
qed (simp_all add: assms(2) world_ok_reserve world_ok_publish world_ok_cancel world_ok_pop)

lemma world_ok_new:
  assumes "queue_new slots bytes = Ok q"
  shows "\<exists>k. world_ok k (world_new q) \<and> capacity q = slots \<and> byte_capacity q = bytes"
  using rep_new [OF assms] by (auto simp: world_ok_def world_new_def live_def holds_permit_def)

lemma queue_run_ok:
  assumes "queue_run slots bytes w"
  shows "\<exists>k. world_ok k w"
  using assms
proof (induction)
  case (run_start q)
  then show ?case using world_ok_new by blast
next
  case (run_step w w')
  then show ?case using world_ok_step by blast
qed

lemma step_byte_capacity:
  assumes "queue_step w w'" and "world_ok k w"
  shows "byte_capacity (shared w') = byte_capacity (shared w)"
  using assms(1)
proof (cases rule: queue_step.cases)
  case (step_reserve b p q)
  then show ?thesis using assms(2) try_reserve_ok(6) [of k "shared w" "live w" b p q] by (simp add: world_ok_def)
next
  case (step_refuse b e q)
  then show ?thesis using assms(2) try_reserve_err [of k "shared w" "live w" b e q] by (simp add: world_ok_def)
next
  case (step_pop r q)
  then show ?thesis using assms(2) rep_pop [of k "shared w" "live w"] by (auto simp: world_ok_def)
qed (simp_all add: queue_close_def)

lemma queue_run_byte_capacity:
  assumes "queue_run slots bytes w"
  shows "byte_capacity (shared w) = bytes"
  using assms
proof (induction)
  case (run_start q)
  then show ?case by (auto simp: queue_new_def world_new_def split: if_splits)
next
  case (run_step w w')
  then show ?case using queue_run_ok step_byte_capacity by metis
qed

lemma queue_run_capacity:
  assumes "queue_run slots bytes w"
  shows "\<exists>k. world_ok k w \<and> 2 ^ k = unat slots"
  using assms
proof (induction)
  case (run_start q)
  from world_ok_new [OF this] obtain k where k: "world_ok k (world_new q)" "capacity q = slots"
    by blast
  then have "2 ^ k = unat slots"
    by (auto simp: world_ok_def rep_def geometry_def world_new_def unat_power_of_two)
  with k show ?case by blast
next
  case (run_step w w')
  then show ?case using world_ok_step by blast
qed

section \<open>The contract a consumer relies on\<close>

text \<open>
  A shard writer only pops. What it relies on is one law: popping a queue that stands for the
  entries \<open>es\<close> returns, with the result and the remaining entries of \<open>pop_entries\<close>. From that law
  alone follows that a closed queue with no outstanding permit is drained completely.
\<close>

fun pops :: "('q \<Rightarrow> ('a pop \<times> 'q) option) \<Rightarrow> nat \<Rightarrow> 'q \<Rightarrow> ('a pop list \<times> 'q) option" where
  "pops take_one 0 q = Some ([], q)"
| "pops take_one (Suc n) q =
     Option.bind (take_one q) (\<lambda>(r, q').
       Option.bind (pops take_one n q') (\<lambda>(rs, q''). Some (r # rs, q'')))"

locale handoff_consumer =
  fixes stands_for :: "'q \<Rightarrow> 'a entry list \<Rightarrow> bool"
    and is_closed :: "'q \<Rightarrow> bool"
    and take_one :: "'q \<Rightarrow> ('a pop \<times> 'q) option"
  assumes take_law: "stands_for q es \<Longrightarrow>
    \<exists>q'. take_one q = Some (fst (pop_entries (is_closed q) es), q') \<and>
      stands_for q' (snd (pop_entries (is_closed q) es)) \<and> is_closed q' = is_closed q"
begin

lemma drain_all:
  assumes "stands_for q es" and "is_closed q" and "list_all settled es"
  shows "\<exists>q'. pops take_one (Suc (length (published es))) q =
      Some (map Item (published es) @ [PopClosed], q') \<and> stands_for q' [] \<and> is_closed q'"
  using assms
proof (induction "length (published es)" arbitrary: q es)
  case 0
  have "list_all settled es \<Longrightarrow> published es = [] \<Longrightarrow> pop_entries True es = (PopClosed, [])"
    by (induction es rule: published.induct) auto
  with 0 take_law [OF 0(2)] show ?case by auto
next
  case (Suc n)
  have "list_all settled es \<Longrightarrow> published es \<noteq> [] \<Longrightarrow>
      \<exists>es'. pop_entries True es = (Item (hd (published es)), es') \<and> list_all settled es' \<and>
        published es = hd (published es) # published es'"
    by (induction es rule: published.induct) auto
  with Suc obtain es' where es': "pop_entries True es = (Item (hd (published es)), es')"
      "list_all settled es'" "published es = hd (published es) # published es'"
    by fastforce
  from take_law [OF Suc(3)] Suc(4) es'(1) obtain q' where
    q': "take_one q = Some (Item (hd (published es)), q')" "stands_for q' es'" "is_closed q'"
    by auto
  have "n = length (published es')" using Suc(2) es'(3) by (metis Suc_inject length_Cons)
  from Suc(1) [OF this q'(2,3) es'(2)] obtain q'' where
    "pops take_one (Suc (length (published es'))) q' =
       Some (map Item (published es') @ [PopClosed], q'')" "stands_for q'' []" "is_closed q''"
    by blast
  with q'(1) show ?case
    by (subst (1 2) es'(3)) (simp del: pops.simps(2) add: pops.simps(2) [of _ "Suc _"])
qed

end

interpretation ring: handoff_consumer "rep k" closed inner_pop for k
proof
  fix q :: "'a inner" and es
  assume "rep k q es"
  from rep_pop [OF this]
  show "\<exists>q'. inner_pop q = Some (fst (pop_entries (closed q) es), q') \<and>
      rep k q' (snd (pop_entries (closed q) es)) \<and> closed q' = closed q"
    by blast
qed

section \<open>Properties\<close>

text \<open>
  C12. First in, first out, exactly once. In every interleaving of reservations, refusals,
  publications, cancellations, pops and closings, the items popped so far are exactly the published
  ones among the first reservations, in the order of reservation; a reservation is passed over only
  when its permit was dropped, never while it is outstanding.
\<close>

theorem queue_delivers_in_order:
  assumes "queue_run slots bytes w"
  shows "popped w = published (take (consumed w) (history w)) \<and>
    list_all settled (take (consumed w) (history w)) \<and> consumed w \<le> length (history w)"
  using queue_run_ok [OF assms] by (auto simp: world_ok_def)

text \<open>A two-slot queue through one reservation, publication and pop.\<close>

definition sample_new :: "nat inner" where
  "sample_new = \<lparr>ring = [slot_new 0, slot_new 1], ring_mask = 1, capacity = 2, enqueue = 0,
     dequeue = 0, bytes_used = 0, byte_capacity = 8, closed = False, epoch = 0\<rparr>"

definition sample_permit :: permit where
  "sample_permit = \<lparr>permit_position = 0, permit_bytes = 3\<rparr>"

definition sample_reserved :: "nat inner" where
  "sample_reserved = sample_new\<lparr>bytes_used := 3, enqueue := 1\<rparr>"

definition sample_popped :: "nat inner" where
  "sample_popped = sample_new\<lparr>ring := [\<lparr>slot_sequence = 2, slot_bytes = 3, slot_cancelled = False,
     slot_value = None\<rparr>, slot_new 1], enqueue := 1, dequeue := 1, epoch := 2\<rparr>"

lemma sample_new_ok: "queue_new 2 8 = Ok sample_new"
  by (simp add: queue_new_def is_power_of_two_def upt_rec sample_new_def word_order)

lemmas queue_eval = try_reserve_def inner_try_reserve_def charge_bytes_def checked_add_def
  claim_slot_def slot_at_def set_slot_def slot_new_def permit_publish_def notify_change_def
  take_head_def inner_pop.simps Let_def

lemma sample_reserve: "try_reserve sample_new 3 = Some (Ok sample_permit, sample_reserved)"
  by (simp add: queue_eval sample_new_def sample_permit_def sample_reserved_def word_order)

lemma sample_pop: "inner_pop (permit_publish sample_reserved sample_permit 7) = Some (Item 7, sample_popped)"
  by (simp add: queue_eval sample_new_def sample_permit_def sample_reserved_def sample_popped_def)

definition sample_waiting :: "nat world" where
  "sample_waiting = \<lparr>shared = permit_publish sample_reserved sample_permit 7, held = {},
     history = [Published 3 7], consumed = 0, popped = []\<rparr>"

definition sample_world :: "nat world" where
  "sample_world = \<lparr>shared = sample_popped, held = {}, history = [Published 3 7], consumed = 1,
     popped = [7]\<rparr>"

lemma sample_waiting_run: "queue_run 2 8 sample_waiting"
proof -
  let ?w0 = "world_new sample_new"
  let ?w1 = "?w0\<lparr>shared := sample_reserved, held := {(0, sample_permit)}, history := [Reserved 3]\<rparr>"
  have "queue_run 2 8 ?w0" by (rule run_start) (rule sample_new_ok)
  then have "queue_run 2 8 ?w1"
    using run_step queue_step.step_reserve [of ?w0 3 sample_permit sample_reserved] sample_reserve
    by (simp add: world_new_def)
  then show ?thesis
    using run_step queue_step.step_publish [of 0 sample_permit ?w1 7]
    by (simp add: world_new_def sample_permit_def sample_waiting_def)
qed

lemma sample_run: "queue_run 2 8 sample_world"
  using run_step [OF sample_waiting_run] queue_step.step_pop [of sample_waiting "Item 7" sample_popped] sample_pop
  by (simp add: sample_waiting_def sample_world_def sample_popped_def sample_reserved_def sample_new_def)

theorem queue_delivers_in_order_witness:
  "queue_run 2 8 sample_world \<and> popped sample_world = published (take 1 [Published 3 7])"
  using queue_delivers_in_order [OF sample_run] sample_run by (simp add: sample_world_def)

text \<open>
  C14. The two bounds. In every run the number of claimed slots never exceeds the configured slots
  and the charged bytes never exceed the configured bytes; the charge is exactly the sum over the
  reservations not yet consumed or cancelled, so neither a publication, a cancellation nor a pop
  leaks or double-frees budget, and the 64-bit counters stay right when they wrap.
\<close>

theorem queue_bounds:
  assumes "queue_run slots bytes w"
  shows "unat (queue_len (shared w)) = length (history w) - consumed w \<and>
    unat (queue_len (shared w)) \<le> unat slots \<and>
    unat (bytes_used (shared w)) = total_bytes (drop (consumed w) (history w)) \<and>
    bytes_used (shared w) \<le> bytes"
proof -
  obtain k where ok: "world_ok k w" and k: "2 ^ k = unat slots"
    using queue_run_capacity [OF assms] by blast
  then have r: "rep k (shared w) (live w)" by (simp add: world_ok_def)
  from rep_len [OF r] r k queue_run_byte_capacity [OF assms] show ?thesis
    by (auto simp: rep_def live_def)
qed

theorem queue_bounds_witness:
  "queue_run 2 8 sample_world \<and> unat (queue_len (shared sample_world)) \<le> unat (2 :: usize)"
  using queue_bounds [OF sample_run] sample_run by blast

text \<open>
  A reservation always answers, and its answer is exact: a request over the whole byte budget is
  too large, a closed queue refuses, and otherwise it is refused as full only if the slots or the
  bytes really are exhausted. Every refusal leaves the queue unchanged. In particular no reachable
  state makes the claim loop spin.
\<close>

theorem try_reserve_exact:
  assumes "queue_run slots bytes w"
  shows "\<exists>answer q'. try_reserve (shared w) b = Some (answer, q') \<and>
    (answer = Err TooLarge \<longleftrightarrow> bytes < b) \<and>
    (answer = Err ReserveClosed \<longleftrightarrow> b \<le> bytes \<and> closed (shared w)) \<and>
    (answer = Err Full \<longleftrightarrow> b \<le> bytes \<and> \<not> closed (shared w) \<and>
       (length (history w) - consumed w = unat slots \<or>
        unat bytes < total_bytes (drop (consumed w) (history w)) + unat b)) \<and>
    (\<forall>e. answer = Err e \<longrightarrow> q' = shared w)"
proof -
  obtain k where ok: "world_ok k w" and k: "2 ^ k = unat slots"
    using queue_run_capacity [OF assms] by blast
  then have r: "rep k (shared w) (live w)" by (simp add: world_ok_def)
  have "length (live w) \<le> unat slots" using r k by (simp add: rep_def)
  then show ?thesis
    using queue_run_byte_capacity [OF assms] unfolding rep_reserve [OF r]
    by (auto simp: k live_def not_less not_le)
qed

theorem try_reserve_exact_witness:
  "queue_run 2 8 sample_world \<and> (\<exists>answer q'. try_reserve (shared sample_world) 9 = Some (answer, q') \<and>
     answer = Err TooLarge \<and> q' = shared sample_world)"
proof -
  have "(8 :: usize) < 9" by (simp add: word_order)
  with try_reserve_exact [OF sample_run, of 9] sample_run show ?thesis by blast
qed

text \<open>
  C13. A pop always answers and its answer is honest: it says closed only when the queue is closed and
  every reservation ever granted has been consumed, so no accepted item is left behind; it says
  empty only when nothing is waiting or the oldest remaining reservation is still outstanding. It
  never reads a slot whose payload was not written.
\<close>

theorem pop_exact:
  assumes "queue_run slots bytes w"
  shows "\<exists>answer q'. inner_pop (shared w) = Some (answer, q') \<and>
    (let d = consumed w + unat (dequeue q' - dequeue (shared w)) in
      (answer = PopClosed \<longrightarrow> closed (shared w) \<and> d = length (history w)) \<and>
      (answer = Empty \<longrightarrow> d = length (history w) \<and> \<not> closed (shared w) \<or>
         (\<exists>b. d < length (history w) \<and> history w ! d = Reserved b)) \<and>
      (\<forall>v. answer = Item v \<longrightarrow>
         published (take d (history w)) = popped w @ [v]))"
proof -
  obtain k where ok: "world_ok k w" using queue_run_ok [OF assms] by blast
  then have r: "rep k (shared w) (live w)" by (simp add: world_ok_def)
  let ?c = "closed (shared w)"
  obtain q' where q': "inner_pop (shared w) = Some (fst (pop_entries ?c (live w)), q')"
      "rep k q' (snd (pop_entries ?c (live w)))"
    using rep_pop [OF r] by blast
  let ?w = "w\<lparr>shared := q', consumed := consumed w + unat (dequeue q' - dequeue (shared w)),
    popped := popped w @ items (fst (pop_entries ?c (live w)))\<rparr>"
  have ok': "world_ok k ?w" by (rule world_ok_pop [OF ok q'(1)])
  have "length (live ?w) = length (snd (pop_entries ?c (live w)))"
  proof -
    have "rep k (shared ?w) (live ?w)" using ok' unfolding world_ok_def by blast
    from rep_len [OF this] rep_len [OF q'(2)] show ?thesis by simp
  qed
  moreover obtain pre where "live w = pre @ snd (pop_entries ?c (live w))"
    using pop_entries_prefix [of "live w" ?c] by blast
  moreover have "live ?w = drop (unat (dequeue q' - dequeue (shared w))) (live w)"
    by (simp add: live_def add.commute)
  ultimately have rest: "live ?w = snd (pop_entries ?c (live w))"
    by (metis append_eq_append_conv append_take_drop_id)
  have le: "consumed ?w \<le> length (history w)" using ok' by (simp add: world_ok_def)
  have nil: "live ?w = [] \<longleftrightarrow> consumed ?w = length (history w)"
    using le by (auto simp: live_def)
  have hd: "live ?w = e # es \<Longrightarrow> consumed ?w < length (history w) \<and> history w ! consumed ?w = e" for e es
    using hd_drop_conv_nth [of "consumed ?w" "history w"] le
    by (cases "consumed ?w = length (history w)") (auto simp: live_def)
  have pp: "popped ?w = published (take (consumed ?w) (history w))"
    using ok' by (simp add: world_ok_def)
  have "fst (pop_entries ?c (live w)) = PopClosed \<Longrightarrow> ?c \<and> consumed ?w = length (history w)"
    using pop_entries_closed [of ?c "live w"] nil rest by metis
  moreover have "fst (pop_entries ?c (live w)) = Empty \<Longrightarrow> consumed ?w = length (history w) \<and> \<not> ?c \<or>
      (\<exists>b. consumed ?w < length (history w) \<and> history w ! consumed ?w = Reserved b)"
    using pop_entries_empty [of ?c "live w"] nil hd rest by metis
  ultimately show ?thesis
    using q'(1) pp by (intro exI conjI) (auto simp: Let_def)
qed

theorem pop_exact_witness:
  "queue_run 2 8 sample_world \<and> (\<exists>q'. inner_pop (shared sample_world) = Some (Empty, q'))"
proof -
  have "inner_pop (shared sample_world) = Some (Empty, sample_popped)"
    by (simp add: queue_eval sample_world_def sample_popped_def sample_new_def)
  with pop_exact [OF sample_run] sample_run show ?thesis by auto
qed

text \<open>
  C15. Shutdown loses nothing. Once the queue is closed and every permit has been published or
  dropped, popping delivers every published item that is still queued, in order, and then reports
  closed; it never stalls on the way.
\<close>

theorem closed_queue_drains:
  assumes "queue_run slots bytes w" and "closed (shared w)" and "held w = {}"
  shows "\<exists>q'. pops inner_pop (Suc (length (published (history w)) - length (popped w))) (shared w) =
    Some (map Item (drop (length (popped w)) (published (history w))) @ [PopClosed], q')"
proof -
  obtain k where ok: "world_ok k w" using queue_run_ok [OF assms(1)] by blast
  then have r: "rep k (shared w) (live w)" by (simp add: world_ok_def)
  have none: "\<not> holds_permit (shared w) (live w) i p" for i p
    using ok assms(3) unfolding world_ok_def by (metis add_diff_cancel_left' empty_iff le_add1)
  have "settled (live w ! i)" if "i < length (live w)" for i
    using none [of i "\<lparr>permit_position = pos (shared w) i, permit_bytes = b\<rparr>" for b] that
    by (cases "live w ! i") (auto simp: holds_permit_def)
  then have s: "list_all settled (live w)" by (simp add: list_all_length)
  have "published (history w) = popped w @ published (live w)"
    using ok published_append [of "take (consumed w) (history w)" "live w"]
    by (simp add: world_ok_def live_def)
  with ring.drain_all [OF r assms(2) s] show ?thesis
    by (auto simp: Suc_diff_le)
qed

theorem closed_queue_drains_witness:
  "\<exists>w q'. queue_run 2 8 (w :: nat world) \<and> closed (shared w) \<and>
     pops inner_pop 2 (shared w) = Some ([Item 7, PopClosed], q')"
proof -
  let ?w = "sample_waiting\<lparr>shared := queue_close (shared sample_waiting)\<rparr>"
  have run: "queue_run 2 8 ?w"
    by (rule run_step [OF sample_waiting_run]) (rule queue_step.step_close)
  have c: "closed (shared ?w)" "held ?w = {}"
    by (simp_all add: queue_close_def notify_change_def sample_waiting_def)
  from closed_queue_drains [OF run c] run c(1) show ?thesis
    by (intro exI [of _ ?w]) (simp add: sample_waiting_def numeral_2_eq_2)
qed

text \<open>
  Dropping the queue drops each payload still inside exactly once: the destructor visits the
  claimed slots and reads exactly those published and not yet consumed, every one of them
  initialised.
\<close>

theorem drop_reads_published:
  assumes "queue_run slots bytes w"
  shows "inner_drop (shared w) = map Some (published (drop (consumed w) (history w)))"
proof -
  obtain k where ok: "world_ok k w" using queue_run_ok [OF assms] by blast
  then have r: "rep k (shared w) (live w)" by (simp add: world_ok_def)
  have "concat (map (\<lambda>e. case e of Published b v \<Rightarrow> [Some v] | _ \<Rightarrow> []) es) = map Some (published es)"
    for es :: "'a entry list"
    by (induction es rule: published.induct) simp_all
  moreover have "dequeue (shared w) = pos (shared w) 0" "enqueue (shared w) = pos (shared w) (length (live w))"
    using r by (simp_all add: rep_def pos_def)
  ultimately show ?thesis
    using drop_from_window [OF r, of 0] by (simp add: inner_drop_def live_def)
qed

theorem drop_reads_published_witness:
  "queue_run 2 8 sample_waiting \<and> inner_drop (shared sample_waiting) = [Some 7]"
  using drop_reads_published [OF sample_waiting_run] sample_waiting_run by (simp add: sample_waiting_def)

end
