(* ===== verification/Text_Bytes.thy ===== *)
theory Text_Bytes
  imports Prelude
begin

unbundle bit_operations_syntax

text \<open>
  Text as the sources handle it: the byte classes of \<^verbatim>\<open>u8\<close> (\<^verbatim>\<open>is_ascii_alphabetic\<close> and its
  siblings), ASCII case folding, the lower-case hexadecimal that \<^verbatim>\<open>{:02x}\<close> prints, splitting at a
  separator, and the validity check and encoder of UTF-8. A byte of text is a \<^typ>\<open>char\<close>; a byte of
  binary data is a word; \<open>byte_of\<close> and \<open>char_byte\<close> convert.
\<close>

section \<open>Bytes and characters\<close>

definition byte_of :: "char \<Rightarrow> u8" where
  "byte_of c = of_char c"

definition char_byte :: "u8 \<Rightarrow> char" where
  "char_byte b = char_of (unat b)"

lemma byte_of_char_byte [simp]: "byte_of (char_byte b) = b"
proof -
  have "unat b < 256" using unat_less_2p [of b] by simp
  then have "of_nat (of_char (char_of (unat b)) :: nat) = b" by (simp only: of_char_of) simp
  then show ?thesis by (simp only: byte_of_def char_byte_def of_nat_of_char)
qed

lemma of_char_less_256: "(of_char c :: nat) < 256"
  by (cases c) simp

lemma unat_byte_of: "unat (byte_of c) = of_char c"
proof -
  have "unat (of_nat (of_char c) :: u8) = of_char c"
    using of_char_less_256 [of c] by (simp only: unat_of_nat) simp
  then show ?thesis by (simp only: byte_of_def of_nat_of_char)
qed

lemma char_byte_byte_of [simp]: "char_byte (byte_of c) = c"
  by (simp add: char_byte_def unat_byte_of)

lemma byte_of_eq_iff [simp]: "byte_of c = byte_of d \<longleftrightarrow> c = d"
  by (metis char_byte_byte_of)

abbreviation code :: "char \<Rightarrow> nat" where
  "code c \<equiv> of_char c"

definition is_ascii_digit :: "char \<Rightarrow> bool" where
  "is_ascii_digit c \<longleftrightarrow> 48 \<le> code c \<and> code c \<le> 57"

definition is_ascii_uppercase :: "char \<Rightarrow> bool" where
  "is_ascii_uppercase c \<longleftrightarrow> 65 \<le> code c \<and> code c \<le> 90"

definition is_ascii_lowercase :: "char \<Rightarrow> bool" where
  "is_ascii_lowercase c \<longleftrightarrow> 97 \<le> code c \<and> code c \<le> 122"

definition is_ascii_alphabetic :: "char \<Rightarrow> bool" where
  "is_ascii_alphabetic c \<longleftrightarrow> is_ascii_uppercase c \<or> is_ascii_lowercase c"

definition is_ascii_alphanumeric :: "char \<Rightarrow> bool" where
  "is_ascii_alphanumeric c \<longleftrightarrow> is_ascii_alphabetic c \<or> is_ascii_digit c"

definition is_ascii_hexdigit :: "char \<Rightarrow> bool" where
  "is_ascii_hexdigit c \<longleftrightarrow>
     is_ascii_digit c \<or> (65 \<le> code c \<and> code c \<le> 70) \<or> (97 \<le> code c \<and> code c \<le> 102)"

text \<open>Space, tab, line feed, form feed and carriage return: Rust's ASCII whitespace.\<close>

definition is_ascii_whitespace :: "char \<Rightarrow> bool" where
  "is_ascii_whitespace c \<longleftrightarrow> code c \<in> {32, 9, 10, 12, 13}"

definition to_ascii_lowercase :: "char \<Rightarrow> char" where
  "to_ascii_lowercase c = (if is_ascii_uppercase c then char_of (code c + 32) else c)"

abbreviation lowercase :: "string \<Rightarrow> string" where
  "lowercase \<equiv> map to_ascii_lowercase"

definition eq_ignore_ascii_case :: "string \<Rightarrow> string \<Rightarrow> bool" where
  "eq_ignore_ascii_case a b \<longleftrightarrow> lowercase a = lowercase b"

lemma to_ascii_lowercase_idem [simp]: "to_ascii_lowercase (to_ascii_lowercase c) = to_ascii_lowercase c"
  by (auto simp: to_ascii_lowercase_def is_ascii_uppercase_def of_char_of)

lemma lowercase_idem [simp]: "lowercase (lowercase s) = lowercase s"
  by simp

lemma eq_ignore_ascii_case_equiv:
  "eq_ignore_ascii_case a a"
  "eq_ignore_ascii_case a b \<Longrightarrow> eq_ignore_ascii_case b a"
  "eq_ignore_ascii_case a b \<Longrightarrow> eq_ignore_ascii_case b c \<Longrightarrow> eq_ignore_ascii_case a c"
  by (simp_all add: eq_ignore_ascii_case_def)

section \<open>Hexadecimal\<close>

definition hex_digits :: string where
  "hex_digits = ''0123456789abcdef''"

definition hex_digit :: "u8 \<Rightarrow> char" where
  "hex_digit n = hex_digits ! unat (n AND 15)"

text \<open>What \<^verbatim>\<open>{:02x}\<close> prints for a byte.\<close>

definition hex2 :: "u8 \<Rightarrow> string" where
  "hex2 b = [hex_digit (drop_bit 4 b), hex_digit (b AND 15)]"

definition hex_value :: "char \<Rightarrow> u8 option" where
  "hex_value c =
     (if is_ascii_digit c then Some (byte_of c - 48)
      else if 97 \<le> code c \<and> code c \<le> 102 then Some (byte_of c - 97 + 10)
      else if 65 \<le> code c \<and> code c \<le> 70 then Some (byte_of c - 65 + 10)
      else None)"

definition nibble :: "u8 \<Rightarrow> bool" where
  "nibble n \<longleftrightarrow> n < 16"

lemma nibble_cases:
  assumes "nibble n"
  shows "n \<in> {0, 1, 2, 3, 4, 5, 6, 7, 8, 9, 10, 11, 12, 13, 14, 15}"
proof -
  have "unat n < 16" using assms by (simp add: nibble_def word_order)
  then have "unat n \<in> set [0..<16]" by simp
  then have "(of_nat (unat n) :: u8) \<in> of_nat ` set [0..<16]" by (rule imageI)
  then show ?thesis by (simp add: upt_rec)
qed

lemma hex_value_hex_digit: "nibble n \<Longrightarrow> hex_value (hex_digit n) = Some n"
  by (drule nibble_cases)
    (elim insertE emptyE; simp add: hex_digit_def hex_digits_def hex_value_def is_ascii_digit_def byte_of_def)

lemma to_ascii_lowercase_eqD:
  assumes "to_ascii_lowercase c = d"
  shows "c = d \<or> (97 \<le> code d \<and> code d \<le> 122 \<and> c = char_of (code d - 32))"
proof (cases "is_ascii_uppercase c")
  case True
  then have r: "65 \<le> code c" "code c \<le> 90" by (simp_all add: is_ascii_uppercase_def)
  with True assms have "code d = code c + 32"
    by (auto simp: to_ascii_lowercase_def of_char_of)
  with r show ?thesis by simp
next
  case False
  with assms show ?thesis by (simp add: to_ascii_lowercase_def)
qed

lemma code_range_cases:
  assumes "l \<le> code c" and "code c \<le> u"
  shows "c \<in> char_of ` set [l..<Suc u]"
proof -
  from assms have "code c \<in> set [l..<Suc u]" by auto
  then have "char_of (code c) \<in> char_of ` set [l..<Suc u]" by (rule imageI)
  then show ?thesis by simp
qed

lemma hex_char_cases:
  assumes "hex_value c = Some n"
  shows "c \<in> set ''0123456789abcdefABCDEF''"
proof -
  consider "48 \<le> code c" "code c \<le> 57" | "97 \<le> code c" "code c \<le> 102" | "65 \<le> code c" "code c \<le> 70"
    using assms by (auto simp: hex_value_def is_ascii_digit_def split: if_splits)
  then show ?thesis
  proof cases
    case 1
    from code_range_cases [OF this] show ?thesis by (auto simp: upt_rec char_of_def bit_0)
  next
    case 2
    from code_range_cases [OF this] show ?thesis by (auto simp: upt_rec char_of_def bit_0)
  next
    case 3
    from code_range_cases [OF this] show ?thesis by (auto simp: upt_rec char_of_def bit_0)
  qed
qed

lemma hex_value_SomeD:
  assumes "hex_value c = Some n"
  shows "nibble n \<and> to_ascii_lowercase c = hex_digit n"
  using hex_char_cases [OF assms] assms
  by (simp only: list.set) (elim insertE emptyE; simp add: hex_value_def is_ascii_digit_def byte_of_def
      hex_digit_def hex_digits_def nibble_def word_order to_ascii_lowercase_def is_ascii_uppercase_def
      char_of_def bit_0)

lemma hex_value_uppercase:
  assumes "nibble n" and "97 \<le> code (hex_digit n)"
  shows "hex_value (char_of (code (hex_digit n) - 32)) = Some n"
  using nibble_cases [OF assms(1)] assms(2)
  by (elim insertE emptyE; simp add: hex_value_def is_ascii_digit_def byte_of_def
      hex_digit_def hex_digits_def char_of_def bit_0)

lemma hex_value_Some_iff: "hex_value c = Some n \<longleftrightarrow> nibble n \<and> to_ascii_lowercase c = hex_digit n"
  using to_ascii_lowercase_eqD [of c "hex_digit n"] hex_value_hex_digit [of n] hex_value_uppercase [of n]
    hex_value_SomeD [of c n] by blast

lemma nibble_and_15: "nibble (b AND 15)"
  using unat_and_low_bits [of b 4] by (simp add: nibble_def word_order)

lemma nibble_drop_4: "nibble (drop_bit 4 b)"
  using unat_less_2p [of b] by (simp add: nibble_def word_order unat_drop_bit)

text \<open>Putting two nibbles together, as \<^verbatim>\<open>(high << 4) | low\<close>, and printing them again.\<close>

definition join_nibbles :: "u8 \<Rightarrow> u8 \<Rightarrow> u8" where
  "join_nibbles high low = push_bit 4 high OR low"

lemma nibble_bits: "nibble n \<Longrightarrow> bit n k \<Longrightarrow> k < 4"
proof -
  assume "nibble n" and b: "bit n k"
  then have "n AND (2 ^ 4 - 1) = n"
    using unat_and_low_bits [of n 4] by (simp add: nibble_def word_order word_unat_eq_iff)
  then have "take_bit 4 n = n" by (simp add: take_bit_eq_mask mask_eq_exp_minus_1)
  with b have "bit (take_bit 4 n) k" by simp
  then show "k < 4" by (simp add: bit_take_bit_iff)
qed

lemma and_15: "n AND 15 = take_bit 4 (n :: u8)"
  by (simp add: take_bit_eq_mask mask_eq_exp_minus_1)

lemma split_join_nibbles:
  assumes "nibble a" and "nibble b"
  shows "drop_bit 4 (join_nibbles a b) = a" and "join_nibbles a b AND 15 = b"
  using nibble_bits [OF assms(1)] nibble_bits [OF assms(2)] unfolding join_nibbles_def and_15
  by (force intro!: bit_word_eqI simp: bit_simps)+

lemma join_split_nibbles [simp]: "join_nibbles (drop_bit 4 b) (b AND 15) = b"
  unfolding join_nibbles_def and_15 by (auto intro!: bit_word_eqI simp: bit_simps not_less)

lemma hex2_join: "nibble a \<Longrightarrow> nibble b \<Longrightarrow> hex2 (join_nibbles a b) = [hex_digit a, hex_digit b]"
  by (simp add: hex2_def split_join_nibbles)

section \<open>Separators\<close>

text \<open>\<^verbatim>\<open>str::split\<close> at one character: always at least one piece, empty pieces kept.\<close>

fun split_on :: "char \<Rightarrow> string \<Rightarrow> string list" where
  "split_on d [] = [[]]"
| "split_on d (c # cs) =
     (if c = d then [] # split_on d cs
      else (c # hd (split_on d cs)) # tl (split_on d cs))"

fun join_with :: "char \<Rightarrow> string list \<Rightarrow> string" where
  "join_with d [] = []"
| "join_with d [s] = s"
| "join_with d (s # t # ss) = s @ d # join_with d (t # ss)"

lemma split_on_not_Nil [simp]: "split_on d s \<noteq> []"
  by (induction s) simp_all

lemma join_split [simp]: "join_with d (split_on d s) = s"
proof (induction s)
  case (Cons c cs)
  obtain p ps where ps: "split_on d cs = p # ps" by (cases "split_on d cs") simp_all
  with Cons show ?case by (cases ps) auto
qed simp

lemma split_pieces: "p \<in> set (split_on d s) \<Longrightarrow> d \<notin> set p"
proof (induction s arbitrary: p)
  case (Cons c cs)
  have "hd (split_on d cs) \<in> set (split_on d cs)" "set (tl (split_on d cs)) \<subseteq> set (split_on d cs)"
    by (simp_all add: list.set_sel(2) subsetI)
  with Cons show ?case by (auto split: if_splits)
qed simp

lemma split_no_separator: "d \<notin> set s \<Longrightarrow> split_on d s = [s]"
  by (induction s) auto

lemma split_append_separator:
  "d \<notin> set s \<Longrightarrow> split_on d (s @ d # t) = s # split_on d t"
  by (induction s) auto

lemma split_join:
  assumes "ss \<noteq> []" and "\<forall>s \<in> set ss. d \<notin> set s"
  shows "split_on d (join_with d ss) = ss"
  using assms by (induction d ss rule: join_with.induct) (simp_all add: split_no_separator split_append_separator)

lemma split_on_append:
  "split_on d (s @ t) = butlast (split_on d s) @ (last (split_on d s) @ hd (split_on d t)) # tl (split_on d t)"
proof (induction s)
  case Nil
  obtain p ps where "split_on d t = p # ps" by (cases "split_on d t") simp_all
  then show ?case by simp
next
  case (Cons c s)
  obtain p ps where "split_on d s = p # ps" by (cases "split_on d s") simp_all
  with Cons show ?case by (cases ps) simp_all
qed

section \<open>Big-endian numbers\<close>

definition be_value :: "u8 list \<Rightarrow> nat" where
  "be_value bs = foldl (\<lambda>acc b. acc * 256 + unat b) 0 bs"

fun to_be_bytes :: "nat \<Rightarrow> nat \<Rightarrow> u8 list" where
  "to_be_bytes 0 n = []"
| "to_be_bytes (Suc k) n = to_be_bytes k (n div 256) @ [of_nat (n mod 256)]"

lemma be_value_snoc [simp]: "be_value (bs @ [b]) = be_value bs * 256 + unat b"
  by (simp add: be_value_def)

lemma be_value_Nil [simp]: "be_value [] = 0"
  by (simp add: be_value_def)

lemma length_to_be_bytes [simp]: "length (to_be_bytes k n) = k"
  by (induction k arbitrary: n) simp_all

lemma be_value_to_be_bytes: "n < 256 ^ k \<Longrightarrow> be_value (to_be_bytes k n) = n"
proof (induction k arbitrary: n)
  case (Suc k)
  then have "n div 256 < 256 ^ k" by (simp add: less_mult_imp_div_less mult.commute)
  with Suc.IH show ?case by (simp add: unat_of_nat)
qed simp

lemma be_value_less: "be_value bs < 256 ^ length bs"
proof (induction bs rule: rev_induct)
  case (snoc b bs)
  then show ?case using unat_less_2p [of b] by simp
qed simp

section \<open>UTF-8 validity\<close>

text \<open>\<^verbatim>\<open>core::str::from_utf8\<close> accepts exactly the well-formed byte sequences of the Unicode standard.\<close>

definition continuation :: "u8 \<Rightarrow> bool" where
  "continuation b \<longleftrightarrow> 0x80 \<le> b \<and> b \<le> 0xbf"

definition second_byte :: "u8 \<Rightarrow> u8 \<Rightarrow> bool" where
  "second_byte b0 b1 \<longleftrightarrow>
     (if b0 = 0xe0 then 0xa0 \<le> b1 \<and> b1 \<le> 0xbf
      else if b0 = 0xed then 0x80 \<le> b1 \<and> b1 \<le> 0x9f
      else if b0 = 0xf0 then 0x90 \<le> b1 \<and> b1 \<le> 0xbf
      else if b0 = 0xf4 then 0x80 \<le> b1 \<and> b1 \<le> 0x8f
      else continuation b1)"

fun utf8_valid :: "u8 list \<Rightarrow> bool" where
  "utf8_valid [] = True"
| "utf8_valid (b0 # bs) =
     (if b0 < 0x80 then utf8_valid bs
      else if 0xc2 \<le> b0 \<and> b0 \<le> 0xdf then
        (case bs of b1 # bs' \<Rightarrow> continuation b1 \<and> utf8_valid bs' | _ \<Rightarrow> False)
      else if 0xe0 \<le> b0 \<and> b0 \<le> 0xef then
        (case bs of b1 # b2 # bs' \<Rightarrow> second_byte b0 b1 \<and> continuation b2 \<and> utf8_valid bs' | _ \<Rightarrow> False)
      else if 0xf0 \<le> b0 \<and> b0 \<le> 0xf4 then
        (case bs of b1 # b2 # b3 # bs' \<Rightarrow>
           second_byte b0 b1 \<and> continuation b2 \<and> continuation b3 \<and> utf8_valid bs' | _ \<Rightarrow> False)
      else False)"

definition from_utf8 :: "u8 list \<Rightarrow> string option" where
  "from_utf8 bs = (if utf8_valid bs then Some (map char_byte bs) else None)"

abbreviation as_bytes :: "string \<Rightarrow> u8 list" where
  "as_bytes \<equiv> map byte_of"

lemma from_utf8_Some: "from_utf8 bs = Some s \<longleftrightarrow> utf8_valid bs \<and> as_bytes s = bs"
  by (auto simp: from_utf8_def comp_def)

end
