(* ===== verification/Boot_Id.thy ===== *)
theory Boot_Id
  imports Text_Bytes
begin

unbundle bit_operations_syntax

text \<open>
  Boot identifiers (\<^verbatim>\<open>eventd-core/src/boot_id.rs\<close>): the parser of the kernel's hyphenated UUID text
  into the mixed-endian PCDS GUID layout, and the two printers. Writing past the sixteen-byte buffer
  would panic; the parser is shown never to do so. Reading the file is left out.
\<close>

section \<open>Definitions\<close>

type_synonym boot_id = guid

datatype boot_id_error = Malformed

text \<open>The three in-place reversals between RFC byte order and PCDS byte order.\<close>

definition swap_fields :: "u8 list \<Rightarrow> u8 list" where
  "swap_fields rfc =
     rev (take 4 rfc) @ rev (take 2 (drop 4 rfc)) @ rev (take 2 (drop 6 rfc)) @ drop 8 rfc"

definition into_bytes :: "boot_id \<Rightarrow> guid" where
  "into_bytes b = b"

definition unbraced :: "boot_id \<Rightarrow> string" where
  "unbraced b =
     (let rfc = swap_fields b in
      hex2 (rfc ! 0) @ hex2 (rfc ! 1) @ hex2 (rfc ! 2) @ hex2 (rfc ! 3) @ ''-'' @
      hex2 (rfc ! 4) @ hex2 (rfc ! 5) @ ''-'' @ hex2 (rfc ! 6) @ hex2 (rfc ! 7) @ ''-'' @
      hex2 (rfc ! 8) @ hex2 (rfc ! 9) @ ''-'' @ hex2 (rfc ! 10) @ hex2 (rfc ! 11) @
      hex2 (rfc ! 12) @ hex2 (rfc ! 13) @ hex2 (rfc ! 14) @ hex2 (rfc ! 15))"

definition canonical :: "boot_id \<Rightarrow> string" where
  "canonical b = ''{'' @ unbraced b @ ''}''"

definition hex_nibble :: "char \<Rightarrow> u8 option" where
  "hex_nibble c = hex_value c"

text \<open>The loop over the bytes: the buffer, the next index to write, and a pending high nibble.\<close>

fun from_str_loop ::
  "string \<Rightarrow> u8 list \<Rightarrow> nat \<Rightarrow> u8 option \<Rightarrow> boot_id_error abort + (u8 list \<times> nat \<times> u8 option)" where
  "from_str_loop [] rfc out high = Ok (rfc, out, high)"
| "from_str_loop (c # cs) rfc out high =
     (if c = CHR ''-'' then from_str_loop cs rfc out high
      else
        rbind (ok_or (Raised Malformed) (hex_nibble c)) (\<lambda>nib.
          case high of
            Some h \<Rightarrow>
              if out < length rfc
              then from_str_loop cs (rfc[out := push_bit 4 h OR nib]) (out + 1) None
              else Err Panicked
          | None \<Rightarrow> from_str_loop cs rfc out (Some nib)))"

definition from_str :: "string \<Rightarrow> boot_id_error abort + boot_id" where
  "from_str input =
     (if length input \<noteq> 36 then Err (Raised Malformed)
      else if \<not> list_all (\<lambda>i. input ! i = CHR ''-'') [8, 13, 18, 23] then Err (Raised Malformed)
      else
        rbind (from_str_loop input (replicate 16 0) 0 None) (\<lambda>(rfc, out, high).
          if out \<noteq> length rfc \<or> high \<noteq> None then Err (Raised Malformed)
          else Ok (swap_fields rfc)))"

section \<open>The loop pairs up the nibbles\<close>

fun join_pairs :: "u8 list \<Rightarrow> u8 list" where
  "join_pairs (a # b # ns) = join_nibbles a b # join_pairs ns"
| "join_pairs _ = []"

definition nibbles_of :: "string \<Rightarrow> u8 option list" where
  "nibbles_of input = map hex_nibble (filter (\<lambda>c. c \<noteq> CHR ''-'') input)"

definition pending :: "u8 option \<Rightarrow> u8 list" where
  "pending high = (case high of None \<Rightarrow> [] | Some h \<Rightarrow> [h])"

lemma length_join_pairs: "length (join_pairs ns) = length ns div 2"
  by (induction ns rule: join_pairs.induct) simp_all

lemma from_str_loop_ok:
  assumes "nibbles_of input = map Some ns" and "length (pending high @ ns) \<le> 2 * (length rfc - out)"
    and "out \<le> length rfc"
  shows "\<exists>high'. from_str_loop input rfc out high =
      Ok (take out rfc @ join_pairs (pending high @ ns) @
            drop (out + length (pending high @ ns) div 2) rfc,
          out + length (pending high @ ns) div 2, high') \<and>
      (high' = None \<longleftrightarrow> even (length (pending high @ ns)))"
  using assms
proof (induction input rfc out high arbitrary: ns rule: from_str_loop.induct)
  case (1 rfc out high)
  then show ?case by (cases high) (simp_all add: nibbles_of_def pending_def)
next
  case (2 c cs rfc out high)
  show ?case
  proof (cases "c = CHR ''-''")
    case True
    with 2 show ?thesis by (simp add: nibbles_of_def)
  next
    case False
    then obtain n ns' where n: "hex_nibble c = Some n" "ns = n # ns'" "nibbles_of cs = map Some ns'"
      using 2(4) by (cases ns) (auto simp: nibbles_of_def)
    show ?thesis
    proof (cases high)
      case None
      with 2(2) [OF False _ None n(3)] 2(5,6) n False show ?thesis
        by (simp add: pending_def)
    next
      case (Some h)
      then have lt: "out < length rfc" using 2(5) n(2) by (simp add: pending_def)
      have "\<exists>high'. from_str_loop cs (rfc[out := push_bit 4 h OR n]) (out + 1) None =
          Ok (take (out + 1) (rfc[out := push_bit 4 h OR n]) @ join_pairs ns' @
            drop (out + 1 + length ns' div 2) (rfc[out := push_bit 4 h OR n]),
            out + 1 + length ns' div 2, high') \<and> (high' = None \<longleftrightarrow> even (length ns'))"
        using 2(3) [OF False _ Some lt n(3)] 2(5) n lt Some by (simp add: pending_def)
      with Some False n lt show ?thesis
        by (auto simp: pending_def take_Suc_conv_app_nth join_nibbles_def)
    qed
  qed
qed

lemma from_str_loop_total:
  assumes "length (pending high) + length (nibbles_of input) \<le> 2 * (length rfc - out)"
    and "out \<le> length rfc"
  shows "from_str_loop input rfc out high \<noteq> Err Panicked \<and>
    (\<forall>r. from_str_loop input rfc out high = Ok r \<longrightarrow> (\<exists>ns. nibbles_of input = map Some ns))"
  using assms
proof (induction input rfc out high rule: from_str_loop.induct)
  case (1 rfc out high)
  then show ?case by (simp add: nibbles_of_def)
next
  case (2 c cs rfc out high)
  show ?case
  proof (cases "c = CHR ''-''")
    case True
    with 2 show ?thesis by (simp add: nibbles_of_def)
  next
    case False
    show ?thesis
    proof (cases "hex_nibble c")
      case None
      with False show ?thesis by simp
    next
      case (Some n)
      have step: "nibbles_of (c # cs) = Some n # nibbles_of cs"
        using False Some by (simp add: nibbles_of_def)
      have lift: "\<exists>ns. nibbles_of cs = map Some ns \<Longrightarrow> \<exists>ns. nibbles_of (c # cs) = map Some ns"
        unfolding step by (metis list.simps(9))
      show ?thesis
      proof (cases high)
        case None
        with 2(2) [OF False _ None, of n] 2(4,5) step Some False show ?thesis
          using lift by (simp add: pending_def)
      next
        case (Some h)
        then have lt: "out < length rfc" using 2(4) step by (simp add: pending_def)
        with 2(3) [OF False _ Some lt, of n] 2(4,5) step Some \<open>hex_nibble c = Some n\<close> False
        show ?thesis using lift by (simp add: pending_def)
      qed
    qed
  qed
qed

lemma nibbles_of_append [simp]: "nibbles_of (xs @ ys) = nibbles_of xs @ nibbles_of ys"
  by (simp add: nibbles_of_def)

lemma lowercase_dash: "to_ascii_lowercase c = CHR ''-'' \<longleftrightarrow> c = CHR ''-''"
  using to_ascii_lowercase_eqD [of c "CHR ''-''"]
  by (auto simp: to_ascii_lowercase_def is_ascii_uppercase_def)

lemma hex_nibble_lowercase: "hex_nibble (to_ascii_lowercase c) = hex_nibble c"
proof -
  have "hex_nibble (to_ascii_lowercase c) = Some n \<longleftrightarrow> hex_nibble c = Some n" for n
    by (simp add: hex_nibble_def hex_value_Some_iff)
  then show ?thesis by (metis option.exhaust)
qed

lemma nibbles_of_lowercase: "nibbles_of (lowercase s) = nibbles_of s"
  by (induction s) (simp_all add: nibbles_of_def lowercase_dash hex_nibble_lowercase)

lemma hex_digit_not_dash: "hex_digit n \<noteq> CHR ''-''"
proof -
  have "hex_digit n = hex_digit (n AND 15)" by (simp add: hex_digit_def and.assoc)
  moreover have "hex_value (hex_digit (n AND 15)) \<noteq> None"
    by (simp add: hex_value_hex_digit nibble_and_15)
  ultimately show ?thesis by (auto simp: hex_value_def is_ascii_digit_def)
qed

lemma nibbles_of_hex2 [simp]: "nibbles_of (hex2 b) = [Some (drop_bit 4 b), Some (b AND 15)]"
  by (simp add: hex2_def nibbles_of_def hex_digit_not_dash hex_nibble_def hex_value_hex_digit
      nibble_and_15 nibble_drop_4)

lemma nibbles_of_dash [simp]: "nibbles_of (CHR ''-'' # s) = nibbles_of s"
  by (simp add: nibbles_of_def)

lemma lowercase_of_nibbles:
  assumes "nibbles_of s = map Some ns" and "length ns = length s"
  shows "lowercase s = map hex_digit ns \<and> list_all nibble ns"
proof -
  have "length (filter (\<lambda>c. c \<noteq> CHR ''-'') s) = length s"
    using arg_cong [OF assms(1), of length] assms(2) by (simp add: nibbles_of_def)
  then have "c \<noteq> CHR ''-''" if "c \<in> set s" for c
    using length_filter_less [OF that, of "\<lambda>c. c \<noteq> CHR ''-''"] by auto
  then have "filter (\<lambda>c. c \<noteq> CHR ''-'') s = s" by (simp add: filter_id_conv)
  with assms(1) have "map hex_nibble s = map Some ns" by (simp add: nibbles_of_def)
  then show ?thesis
    by (induction s arbitrary: ns) (auto simp: hex_nibble_def hex_value_Some_iff)
qed

lemma swap_fields_involution: "length g = 16 \<Longrightarrow> swap_fields (swap_fields g) = g"
  by (auto simp: numeral_eq_Suc length_Suc_conv swap_fields_def)

lemma length_swap_fields: "length g = 16 \<Longrightarrow> length (swap_fields g) = 16"
  by (simp add: swap_fields_def)

lemma join_pairs_unbraced:
  assumes "length g = 16"
  shows "\<exists>ns. nibbles_of (unbraced g) = map Some ns \<and> length ns = 32 \<and> join_pairs ns = swap_fields g"
proof -
  define r where "r = swap_fields g"
  have l: "length r = 16" using length_swap_fields [OF assms] by (simp add: r_def)
  define ns where "ns = concat (map (\<lambda>b. [drop_bit 4 b, b AND 15]) r)"
  have up: "[0..<16] = [0, 1, 2, 3, 4, 5, 6, 7, 8, 9, 10, 11, 12, 13, 14, 15]" by (simp add: upt_rec)
  have "nibbles_of (unbraced g) = map Some (concat (map (\<lambda>b. [drop_bit 4 b, b AND 15]) (map ((!) r) [0..<16])))"
    unfolding unbraced_def Let_def r_def [symmetric] up by simp
  moreover have "map ((!) r) [0..<16] = r" using map_nth [of r] l by simp
  moreover have "join_pairs (concat (map (\<lambda>b. [drop_bit 4 b, b AND 15]) r)) = r"
    by (induction r) simp_all
  moreover have "length (concat (map (\<lambda>b. [drop_bit 4 b, b AND 15]) r)) = 2 * length r"
    by (induction r) simp_all
  ultimately show ?thesis
    using l unfolding r_def [symmetric] by (intro exI [of _ ns]) (simp add: ns_def)
qed

lemma unbraced_length: "length (unbraced g) = 36"
  by (simp add: unbraced_def Let_def hex2_def)

lemma unbraced_dashes: "list_all (\<lambda>i. unbraced g ! i = CHR ''-'') [8, 13, 18, 23]"
  by (simp add: unbraced_def Let_def hex2_def)

lemma unbraced_of_nibbles:
  assumes "length ns = 32" and "list_all nibble ns"
  shows "unbraced (swap_fields (join_pairs ns)) =
    map hex_digit (take 8 ns) @ ''-'' @ map hex_digit (take 4 (drop 8 ns)) @ ''-'' @
    map hex_digit (take 4 (drop 12 ns)) @ ''-'' @ map hex_digit (take 4 (drop 16 ns)) @ ''-'' @
    map hex_digit (drop 20 ns)"
proof -
  have "length (join_pairs ns) = 16"
    using assms(1) by (simp add: length_join_pairs)
  then have "swap_fields (swap_fields (join_pairs ns)) = join_pairs ns"
    by (rule swap_fields_involution)
  then show ?thesis
    using assms unfolding unbraced_def Let_def
    by (auto simp: numeral_eq_Suc length_Suc_conv hex2_join)
qed

lemma split_at_dashes:
  assumes "length s = 36" and "list_all (\<lambda>i. s ! i = CHR ''-'') [8, 13, 18, 23]"
  shows "s = take 8 s @ ''-'' @ take 4 (drop 9 s) @ ''-'' @ take 4 (drop 14 s) @ ''-'' @
    take 4 (drop 19 s) @ ''-'' @ drop 24 s"
  using assms by (auto simp: numeral_eq_Suc length_Suc_conv)

lemma nibbles_of_nibble:
  assumes "nibbles_of s = map Some ns"
  shows "list_all nibble ns"
proof -
  have "map hex_nibble xs = map Some ns \<Longrightarrow> list_all nibble ns" for xs
    by (induction xs arbitrary: ns) (auto simp: hex_nibble_def hex_value_Some_iff)
  with assms show ?thesis by (simp add: nibbles_of_def)
qed

lemma map_Some_append_split:
  assumes "xs @ ys = map Some ns"
  shows "xs = map Some (take (length xs) ns)" and "ys = map Some (drop (length xs) ns)"
  using assms by (metis append_eq_conv_conj take_map drop_map)+

lemma lowercase_of_text_nibbles:
  assumes "length s = 36" and "list_all (\<lambda>i. s ! i = CHR ''-'') [8, 13, 18, 23]"
    and "nibbles_of s = map Some ns" and "length ns = 32"
  shows "lowercase s = unbraced (swap_fields (join_pairs ns))"
proof -
  define s0 s1 s2 s3 s4 where "s0 = take 8 s" "s1 = take 4 (drop 9 s)" "s2 = take 4 (drop 14 s)"
    "s3 = take 4 (drop 19 s)" "s4 = drop 24 s"
  have s: "s = s0 @ ''-'' @ s1 @ ''-'' @ s2 @ ''-'' @ s3 @ ''-'' @ s4"
    using split_at_dashes [OF assms(1,2)] by (simp add: s0_s1_s2_s3_s4_def)
  have len: "length s0 = 8" "length s1 = 4" "length s2 = 4" "length s3 = 4" "length s4 = 12"
    using assms(1) by (simp_all add: s0_s1_s2_s3_s4_def)
  have short: "length (nibbles_of x) \<le> length x" for x by (simp add: nibbles_of_def)
  have parts: "nibbles_of s0 @ nibbles_of s1 @ nibbles_of s2 @ nibbles_of s3 @ nibbles_of s4 = map Some ns"
    using assms(3) s by simp
  have full: "length (nibbles_of s0) = 8" "length (nibbles_of s1) = 4" "length (nibbles_of s2) = 4"
    "length (nibbles_of s3) = 4" "length (nibbles_of s4) = 12"
    using arg_cong [OF parts, of length] assms(4) short [of s0] short [of s1] short [of s2]
      short [of s3] short [of s4] len by simp_all
  have n0: "nibbles_of s0 = map Some (take 8 ns)"
    and r0: "nibbles_of s1 @ nibbles_of s2 @ nibbles_of s3 @ nibbles_of s4 = map Some (drop 8 ns)"
    using map_Some_append_split [OF parts] full by simp_all
  have n1: "nibbles_of s1 = map Some (take 4 (drop 8 ns))"
    and r1: "nibbles_of s2 @ nibbles_of s3 @ nibbles_of s4 = map Some (drop 12 ns)"
    using map_Some_append_split [OF r0] full by simp_all
  have n2: "nibbles_of s2 = map Some (take 4 (drop 12 ns))"
    and r2: "nibbles_of s3 @ nibbles_of s4 = map Some (drop 16 ns)"
    using map_Some_append_split [OF r1] full by simp_all
  have n3: "nibbles_of s3 = map Some (take 4 (drop 16 ns))" and n4: "nibbles_of s4 = map Some (drop 20 ns)"
    using map_Some_append_split [OF r2] full by simp_all
  note low = lowercase_of_nibbles [OF n0] lowercase_of_nibbles [OF n1] lowercase_of_nibbles [OF n2]
    lowercase_of_nibbles [OF n3] lowercase_of_nibbles [OF n4]
  have "list_all nibble ns" by (rule nibbles_of_nibble [OF assms(3)])
  from unbraced_of_nibbles [OF assms(4) this] show ?thesis
    using low len assms(4) by (subst s) (simp add: to_ascii_lowercase_def is_ascii_uppercase_def)
qed

lemma nibbles_bound:
  assumes "length s = 36" and "list_all (\<lambda>i. s ! i = CHR ''-'') [8, 13, 18, 23]"
  shows "length (nibbles_of s) \<le> 32"
proof -
  have "length (nibbles_of x) \<le> length x" for x by (simp add: nibbles_of_def)
  note short = this [of "take 8 s"] this [of "take 4 (drop 9 s)"] this [of "take 4 (drop 14 s)"]
    this [of "take 4 (drop 19 s)"] this [of "drop 24 s"]
  then show ?thesis
    using assms(1) by (subst split_at_dashes [OF assms]) simp
qed

lemma lowercase_hex_digit [simp]: "to_ascii_lowercase (hex_digit n) = hex_digit n"
proof -
  have "hex_digit n = hex_digit (n AND 15)" by (simp add: hex_digit_def and.assoc)
  then show ?thesis
    using hex_value_hex_digit [OF nibble_and_15, of n] by (simp add: hex_value_Some_iff)
qed

text \<open>The canonical form is the braced, 38-character, lower-case text that PCDS prescribes.\<close>

lemma canonical_format:
  "length (canonical g) = 38 \<and> lowercase (canonical g) = canonical g \<and>
   canonical g ! 0 = CHR ''{'' \<and> canonical g ! 37 = CHR ''}''"
proof -
  have "lowercase (unbraced g) = unbraced g"
    by (simp add: unbraced_def Let_def hex2_def to_ascii_lowercase_def [of "CHR ''-''"] is_ascii_uppercase_def)
  moreover have "canonical g ! 37 = CHR ''}''"
    by (simp add: canonical_def nth_append unbraced_length)
  ultimately show ?thesis
    by (simp add: canonical_def unbraced_length to_ascii_lowercase_def is_ascii_uppercase_def)
qed

section \<open>Properties\<close>

text \<open>
  C16. Parsing is exact: a text is accepted with the identifier \<open>g\<close> if and only if \<open>g\<close> has sixteen
  bytes and the text is the printed form of \<open>g\<close> up to the case of its letters. So printing and
  parsing are inverse to each other, every other text is refused, and the parser never writes past
  its buffer.
\<close>

theorem from_str_exact:
  "(from_str s = Ok g \<longleftrightarrow> length g = 16 \<and> lowercase s = unbraced g) \<and> from_str s \<noteq> Err Panicked"
proof (cases "length s = 36 \<and> list_all (\<lambda>i. s ! i = CHR ''-'') [8, 13, 18, 23]")
  case False
  have "length g = 16 \<and> lowercase s = unbraced g \<Longrightarrow>
      length s = 36 \<and> list_all (\<lambda>i. s ! i = CHR ''-'') [8, 13, 18, 23]"
  proof -
    assume a: "length g = 16 \<and> lowercase s = unbraced g"
    then have "length (lowercase s) = 36" using unbraced_length by simp
    moreover have "list_all (\<lambda>i. lowercase s ! i = CHR ''-'') [8, 13, 18, 23]"
      using a unbraced_dashes by simp
    ultimately show ?thesis by (simp add: lowercase_dash)
  qed
  with False show ?thesis by (auto simp: from_str_def)
next
  case True
  then have len: "length s = 36" and dashes: "list_all (\<lambda>i. s ! i = CHR ''-'') [8, 13, 18, 23]" by auto
  let ?loop = "from_str_loop s (replicate 16 0) 0 None"
  have total: "?loop \<noteq> Err Panicked" "\<And>r. ?loop = Ok r \<Longrightarrow> \<exists>ns. nibbles_of s = map Some ns"
    using from_str_loop_total [of None s "replicate 16 0" 0] nibbles_bound [OF len dashes]
    by (auto simp: pending_def)
  have run: "\<exists>high. ?loop = Ok (join_pairs ns @ drop (length ns div 2) (replicate 16 0), length ns div 2, high) \<and>
      (high = None \<longleftrightarrow> even (length ns))" if "nibbles_of s = map Some ns" for ns
    using from_str_loop_ok [OF that, of None "replicate 16 0" 0] nibbles_bound [OF len dashes] that
    by (simp add: pending_def)
  have "from_str s = Ok g \<longleftrightarrow> length g = 16 \<and> lowercase s = unbraced g"
  proof
    assume ok: "from_str s = Ok g"
    then obtain r where "?loop = Ok r" using True by (auto simp: from_str_def rbind_Ok_iff)
    with total(2) obtain ns where ns: "nibbles_of s = map Some ns" by blast
    from run [OF ns] ok True nibbles_bound [OF len dashes] ns
    have l: "length ns = 32" and g: "g = swap_fields (join_pairs ns)"
      by (auto simp: from_str_def length_join_pairs elim!: evenE split: if_splits)
    have "length (join_pairs ns) = 16" using l by (simp add: length_join_pairs)
    with lowercase_of_text_nibbles [OF len dashes ns l] g length_swap_fields
    show "length g = 16 \<and> lowercase s = unbraced g" by simp
  next
    assume g: "length g = 16 \<and> lowercase s = unbraced g"
    then obtain ns where ns: "nibbles_of s = map Some ns" "length ns = 32" "join_pairs ns = swap_fields g"
      using join_pairs_unbraced [of g] nibbles_of_lowercase [of s] by auto
    from run [OF ns(1)] ns True g length_swap_fields [of g] show "from_str s = Ok g"
      by (auto simp: from_str_def swap_fields_involution)
  qed
  moreover have "from_str s \<noteq> Err Panicked"
    using total(1) by (auto simp: from_str_def rbind_Err_iff split: if_splits)
  ultimately show ?thesis by blast
qed

end
