(* ===== verification/Sha1.thy ===== *)
theory Sha1
  imports Text_Bytes
begin

unbundle bit_operations_syntax

text \<open>
  The SHA-1 hasher behind the field identities (\<^verbatim>\<open>eventd-core/src/field.rs\<close>, and its twin in
  \<^verbatim>\<open>eventd-client/src/access.rs\<close>): the compression function, the streaming buffer and the padding
  of the last block, against the standard's definition that pads the whole message and folds the
  compression function over its 64-byte blocks.
\<close>

section \<open>Definitions\<close>

definition compress_word :: "u32 list \<Rightarrow> nat \<Rightarrow> u32 list" where
  "compress_word words index =
     words[index := word_rotl 1
       (words ! (index - 3) XOR words ! (index - 8) XOR words ! (index - 14) XOR words ! (index - 16))]"

text \<open>\<^verbatim>\<open>as_chunks\<close>: the whole chunks of \<open>n\<close> elements; a shorter remainder is dropped.\<close>

fun as_chunks :: "nat \<Rightarrow> 'a list \<Rightarrow> 'a list list" where
  "as_chunks n xs = (if n = 0 \<or> length xs < n then [] else take n xs # as_chunks n (drop n xs))"

declare as_chunks.simps [simp del]

definition from_be_bytes :: "u8 list \<Rightarrow> u32" where
  "from_be_bytes bs = of_nat (be_value bs)"

definition message_words :: "u8 list \<Rightarrow> u32 list" where
  "message_words block =
     foldl compress_word (map from_be_bytes (as_chunks 4 block) @ replicate 64 0) [16..<80]"

definition round_function :: "nat \<Rightarrow> u32 \<Rightarrow> u32 \<Rightarrow> u32 \<Rightarrow> u32 \<times> u32" where
  "round_function index b c d =
     (if index \<le> 19 then ((b AND c) OR (NOT b AND d), 0x5a827999)
      else if index \<le> 39 then (b XOR c XOR d, 0x6ed9eba1)
      else if index \<le> 59 then ((b AND c) OR (b AND d) OR (c AND d), 0x8f1bbcdc)
      else (b XOR c XOR d, 0xca62c1d6))"

type_synonym working = "u32 \<times> u32 \<times> u32 \<times> u32 \<times> u32"

definition round_step :: "working \<Rightarrow> nat \<times> u32 \<Rightarrow> working" where
  "round_step w iw =
     (case w of (a, b, c, d, e) \<Rightarrow>
      case iw of (index, word) \<Rightarrow>
      case round_function index b c d of (f, k) \<Rightarrow>
      let temporary = word_rotl 5 a + f + e + k + word in
      (temporary, a, word_rotl 30 b, c, d))"

definition compress :: "u32 list \<Rightarrow> u8 list \<Rightarrow> u32 list" where
  "compress state block =
     (case foldl round_step (state ! 0, state ! 1, state ! 2, state ! 3, state ! 4)
             (enumerate 0 (message_words block)) of
        (a, b, c, d, e) \<Rightarrow>
          [state ! 0 + a, state ! 1 + b, state ! 2 + c, state ! 3 + d, state ! 4 + e])"

record sha1 =
  sha_state :: "u32 list"
  sha_bytes :: u64
  sha_block :: "u8 list"
  sha_used :: nat

definition initial_state :: "u32 list" where
  "initial_state = [0x67452301, 0xefcdab89, 0x98badcfe, 0x10325476, 0xc3d2e1f0]"

definition sha1_new :: sha1 where
  "sha1_new = \<lparr>sha_state = initial_state, sha_bytes = 0, sha_block = replicate 64 0, sha_used = 0\<rparr>"

text \<open>\<^verbatim>\<open>block[at..at + n].copy_from_slice(bytes)\<close>.\<close>

definition overwrite :: "'a list \<Rightarrow> nat \<Rightarrow> 'a list \<Rightarrow> 'a list" where
  "overwrite xs at ys = take at xs @ ys @ drop (at + length ys) xs"

text \<open>The buffering loop; \<open>None\<close> is a loop that makes no progress.\<close>

partial_function (option) update_loop :: "sha1 \<Rightarrow> u8 list \<Rightarrow> sha1 option" where
  "update_loop s bytes =
     (if bytes = [] then Some s
      else
        let copied = min (64 - sha_used s) (length bytes);
            s' = s\<lparr>sha_block := overwrite (sha_block s) (sha_used s) (take copied bytes),
                   sha_used := sha_used s + copied\<rparr>;
            s'' = (if sha_used s' = 64
                   then s'\<lparr>sha_state := compress (sha_state s') (sha_block s'), sha_used := 0\<rparr>
                   else s') in
        update_loop s'' (drop copied bytes))"

definition sha1_update :: "sha1 \<Rightarrow> u8 list \<Rightarrow> sha1 option" where
  "sha1_update s bytes =
     update_loop (s\<lparr>sha_bytes := sha_bytes s + of_nat (length bytes)\<rparr>) bytes"

text \<open>Indexing the block out of range would panic: \<open>None\<close>.\<close>

definition sha1_finish :: "sha1 \<Rightarrow> u8 list option" where
  "sha1_finish s =
     (if 64 \<le> sha_used s then None
      else
        let bit_length = sha_bytes s * 8;
            block = (sha_block s)[sha_used s := 0x80];
            used = sha_used s + 1;
            (state, block) =
              (if 56 < used
               then (compress (sha_state s) (overwrite block used (replicate (64 - used) 0)), replicate 64 0)
               else (sha_state s, overwrite block used (replicate (56 - used) 0)));
            block = overwrite block 56 (to_be_bytes 8 (unat bit_length));
            state = compress state block in
        Some (concat (map (\<lambda>word. to_be_bytes 4 (unat word)) state)))"

section \<open>The standard\<close>

text \<open>FIPS 180: append one bit, then zeros up to 56 modulo 64, then the length in bits.\<close>

definition pad :: "u8 list \<Rightarrow> u8 list" where
  "pad m =
     m @ 0x80 # replicate ((119 - length m mod 64) mod 64) 0 @ to_be_bytes 8 (8 * length m mod 2 ^ 64)"

definition digest :: "u8 list \<Rightarrow> u8 list" where
  "digest m =
     concat (map (\<lambda>word. to_be_bytes 4 (unat word)) (foldl compress initial_state (as_chunks 64 (pad m))))"

section \<open>Chunks\<close>

lemma as_chunks_short: "length xs < n \<Longrightarrow> as_chunks n xs = []"
  by (simp add: as_chunks.simps)

lemma as_chunks_Cons: "0 < n \<Longrightarrow> length xs = n \<Longrightarrow> as_chunks n (xs @ ys) = xs # as_chunks n ys"
  by (subst as_chunks.simps) simp

lemma as_chunks_append:
  "0 < n \<Longrightarrow> n dvd length xs \<Longrightarrow> as_chunks n (xs @ ys) = as_chunks n xs @ as_chunks n ys"
proof (induction n xs rule: as_chunks.induct)
  case (1 n xs)
  show ?case
  proof (cases "xs = []")
    case True
    with 1 show ?thesis by (simp add: as_chunks_short)
  next
    case False
    with 1 have le: "n \<le> length xs" by (simp add: dvd_imp_le)
    with 1 have "as_chunks n (drop n xs @ ys) = as_chunks n (drop n xs) @ as_chunks n ys"
      by simp
    moreover have "as_chunks n (take n xs @ drop n xs @ ys) = take n xs # as_chunks n (drop n xs @ ys)"
      by (rule as_chunks_Cons) (use 1 le in simp_all)
    moreover have "as_chunks n (take n xs @ drop n xs) = take n xs # as_chunks n (drop n xs)"
      by (rule as_chunks_Cons) (use 1 le in simp_all)
    ultimately show ?thesis by (simp flip: append_assoc)
  qed
qed

section \<open>What the hasher has absorbed\<close>

definition absorbed :: "sha1 \<Rightarrow> u8 list \<Rightarrow> u8 list \<Rightarrow> bool" where
  "absorbed s full part \<longleftrightarrow>
     64 dvd length full \<and> length part < 64 \<and>
     sha_state s = foldl compress initial_state (as_chunks 64 full) \<and> sha_used s = length part \<and>
     length (sha_block s) = 64 \<and> take (length part) (sha_block s) = part"

lemma absorbed_new: "absorbed sha1_new [] []"
  by (simp add: absorbed_def sha1_new_def as_chunks_short)

lemma length_overwrite [simp]: "at + length ys \<le> length xs \<Longrightarrow> length (overwrite xs at ys) = length xs"
  by (simp add: overwrite_def)

lemma take_overwrite:
  "at + length ys \<le> length xs \<Longrightarrow> take (at + length ys) (overwrite xs at ys) = take at xs @ ys"
  by (simp add: overwrite_def)

lemma absorbed_block:
  assumes "absorbed s full part" and "length part + length ys = 64"
  shows "compress (sha_state s) (overwrite (sha_block s) (sha_used s) ys) =
    foldl compress initial_state (as_chunks 64 (full @ part @ ys))"
proof -
  have "overwrite (sha_block s) (sha_used s) ys = part @ ys"
    using assms by (simp add: absorbed_def overwrite_def)
  moreover have "as_chunks 64 (full @ part @ ys) = as_chunks 64 full @ as_chunks 64 (part @ ys)"
    using assms by (intro as_chunks_append) (simp_all add: absorbed_def)
  moreover have "as_chunks 64 (part @ ys) = [part @ ys]"
    using as_chunks_Cons [of 64 "part @ ys" "[]"] assms(2) by (simp add: as_chunks_short)
  ultimately show ?thesis using assms(1) by (simp add: absorbed_def)
qed

lemma update_loop_absorbs:
  assumes "absorbed s full part"
  shows "\<exists>s' full' part'. update_loop s bytes = Some s' \<and> absorbed s' full' part' \<and>
    full' @ part' = full @ part @ bytes \<and> sha_bytes s' = sha_bytes s"
  using assms
proof (induction "length bytes" arbitrary: s full part bytes rule: less_induct)
  case less
  show ?case
  proof (cases "bytes = []")
    case True
    with less.prems show ?thesis by (subst update_loop.simps) auto
  next
    case False
    have used: "sha_used s = length part" "length part < 64" "length (sha_block s) = 64"
      using less.prems by (simp_all add: absorbed_def)
    define copied where "copied = min (64 - sha_used s) (length bytes)"
    have c: "0 < copied" "copied \<le> length bytes" "length part + copied \<le> 64"
      using False used by (auto simp: copied_def)
    define s' where "s' = s\<lparr>sha_block := overwrite (sha_block s) (sha_used s) (take copied bytes),
      sha_used := sha_used s + copied\<rparr>"
    define s'' where "s'' = (if sha_used s' = 64
      then s'\<lparr>sha_state := compress (sha_state s') (sha_block s'), sha_used := 0\<rparr> else s')"
    have step: "update_loop s bytes = update_loop s'' (drop copied bytes)"
      using False by (subst update_loop.simps) (simp add: copied_def s'_def s''_def Let_def)
    obtain full' part' where a: "absorbed s'' full' part'" "full' @ part' = full @ part @ take copied bytes"
    proof (cases "sha_used s' = 64")
      case True
      then have "length part + length (take copied bytes) = 64" using used c by (simp add: s'_def)
      from absorbed_block [OF less.prems this] less.prems this True used c
      have "absorbed s'' (full @ part @ take copied bytes) []"
        by (simp add: absorbed_def s''_def s'_def)
      then show ?thesis using that by simp
    next
      case False
      with less.prems used c have "absorbed s'' full (part @ take copied bytes)"
        by (auto simp: absorbed_def s''_def s'_def overwrite_def)
      then show ?thesis using that by simp
    qed
    have "length (drop copied bytes) < length bytes" using c by simp
    from less.hyps [OF this a(1)] obtain s3 full3 part3 where
      "update_loop s'' (drop copied bytes) = Some s3" "absorbed s3 full3 part3"
      "full3 @ part3 = full' @ part' @ drop copied bytes" "sha_bytes s3 = sha_bytes s''" by blast
    moreover have "sha_bytes s'' = sha_bytes s" by (simp add: s''_def s'_def)
    moreover have "full' @ part' @ drop copied bytes = full @ part @ bytes"
      using a(2) by (metis append.assoc append_take_drop_id)
    ultimately show ?thesis using step by auto
  qed
qed

definition hashing :: "sha1 \<Rightarrow> u8 list \<Rightarrow> bool" where
  "hashing s m \<longleftrightarrow> sha_bytes s = of_nat (length m) \<and> (\<exists>full part. absorbed s full part \<and> m = full @ part)"

lemma hashing_new: "hashing sha1_new []"
  using absorbed_new by (auto simp: hashing_def sha1_new_def)

lemma hashing_update:
  assumes "hashing s m"
  shows "\<exists>s'. sha1_update s bytes = Some s' \<and> hashing s' (m @ bytes)"
proof -
  from assms obtain full part where a: "absorbed s full part" "m = full @ part"
    by (auto simp: hashing_def)
  let ?s = "s\<lparr>sha_bytes := sha_bytes s + of_nat (length bytes)\<rparr>"
  have "absorbed ?s full part" using a(1) by (simp add: absorbed_def)
  from update_loop_absorbs [OF this, of bytes] obtain s' full' part' where
    u: "update_loop ?s bytes = Some s'" "absorbed s' full' part'" "full' @ part' = full @ part @ bytes"
      "sha_bytes s' = sha_bytes ?s" by blast
  then have "m @ bytes = full' @ part'" using a(2) by simp
  moreover have "sha_bytes s' = of_nat (length (m @ bytes))" using u(4) assms by (simp add: hashing_def)
  ultimately have "hashing s' (m @ bytes)" using u(2) unfolding hashing_def by blast
  with u(1) show ?thesis by (simp add: sha1_update_def)
qed

lemma unat_bit_length: "unat (of_nat n * 8 :: u64) = 8 * n mod 2 ^ 64"
proof -
  have "(of_nat n * 8 :: u64) = of_nat (8 * n)" by simp
  then show ?thesis by (simp only: unat_of_nat) simp
qed

lemma hashing_finish:
  assumes "hashing s m"
  shows "sha1_finish s = Some (digest m)"
proof -
  from assms obtain full part where a: "absorbed s full part" and m: "m = full @ part"
    and len: "sha_bytes s = of_nat (length m)"
    by (auto simp: hashing_def)
  let ?r = "length part" and ?lb = "to_be_bytes 8 (8 * length m mod 2 ^ 64)"
  have r: "?r < 64" "length m mod 64 = ?r" "length (sha_block s) = 64" "sha_used s = ?r"
    "take ?r (sha_block s) = part"
    using a m by (auto simp: absorbed_def elim!: dvdE)
  have bits: "unat (sha_bytes s * 8) = 8 * length m mod 2 ^ 64"
    unfolding len by (rule unat_bit_length)
  have ow: "overwrite ((sha_block s)[sha_used s := 0x80]) (sha_used s + 1) (replicate n 0) =
      overwrite (sha_block s) (sha_used s) (0x80 # replicate n 0)" if "?r + 1 + n \<le> 64" for n
    using r that by (simp add: overwrite_def take_Suc_conv_app_nth)
  show ?thesis
  proof (cases "56 < ?r + 1")
    case True
    have "?r + length (0x80 # replicate (63 - ?r) (0 :: u8)) = 64" using r by simp
    note first = absorbed_block [OF a this]
    have second: "overwrite (replicate 64 0) 56 ?lb = replicate 56 0 @ ?lb"
      by (simp add: overwrite_def)
    have "replicate ((119 - ?r) mod 64) (0 :: u8) = replicate (63 - ?r) 0 @ replicate 56 0"
      unfolding replicate_add [symmetric] using True r(1) by (intro arg_cong2 [of _ _ _ _ replicate]) simp_all
    then have p: "pad m = (full @ part @ 0x80 # replicate (63 - ?r) 0) @ replicate 56 0 @ ?lb"
      using r(2) m by (simp add: pad_def)
    have "as_chunks 64 (pad m) = as_chunks 64 (full @ part @ 0x80 # replicate (63 - ?r) 0) @
        as_chunks 64 ((replicate 56 0 @ ?lb) @ [])"
      unfolding p append_Nil2 using a r by (intro as_chunks_append) (auto simp: absorbed_def)
    also have "as_chunks 64 ((replicate 56 0 @ ?lb) @ []) = [replicate 56 0 @ ?lb]"
      by (subst as_chunks_Cons) (simp_all add: as_chunks_short)
    finally show ?thesis
      using True r ow [of "63 - ?r"] first second bits
      by (simp add: sha1_finish_def digest_def Let_def)
  next
    case False
    have "overwrite (overwrite (sha_block s) (sha_used s) (0x80 # replicate (55 - ?r) 0)) 56 ?lb =
        overwrite (sha_block s) (sha_used s) (0x80 # replicate (55 - ?r) 0 @ ?lb)"
    proof -
      have "56 - ?r = Suc (55 - ?r)" using False by simp
      with False r show ?thesis by (simp add: overwrite_def)
    qed
    moreover have "?r + length (0x80 # replicate (55 - ?r) (0 :: u8) @ ?lb) = 64" using False by simp
    note last = absorbed_block [OF a this]
    moreover have "(119 - ?r) mod 64 = 55 - ?r"
    proof -
      have "119 - ?r = (55 - ?r) + 64" using False by simp
      then show ?thesis using False by (simp only: mod_add_self2) simp
    qed
    ultimately show ?thesis
      using False r ow [of "55 - ?r"] bits m
      by (simp add: sha1_finish_def digest_def Let_def pad_def)
  qed
qed

section \<open>Properties\<close>


end
