(* ===== verification/Field.thy ===== *)
theory Field
  imports Sha1 Boot_Id "HOL-Library.Sublist"
begin

unbundle bit_operations_syntax

text \<open>
  Event-field identities (\<^verbatim>\<open>eventd-core/src/field.rs\<close>): the header paths and the columns that hold
  them, which payload paths they reserve, the grammar of a flattened path, the UUID-v5 identity of a
  field and the name of the index built on it.
\<close>

section \<open>Definitions\<close>

definition EVENTD_FIELD_NAMESPACE :: "u8 list" where
  "EVENTD_FIELD_NAMESPACE =
     [0xe7, 0xd3, 0xa1, 0xb0, 0x5c, 0x2f, 0x4e, 0x8a, 0x9b, 0x1d, 0x0a, 0x6f, 0x3c, 0x8e, 0x2d, 0x4b]"

definition HEADER_FIELDS :: "(string \<times> string) list" where
  "HEADER_FIELDS =
     [(''event.time'', ''timestamp''), (''event.sequence'', ''sequence''), (''event.cpu'', ''cpu_id''),
      (''event.type'', ''event_type''), (''event.boot.guid'', ''boot_id''),
      (''emitter.class'', ''origin_class''), (''emitter.token.guid'', ''effective_token_guid''),
      (''emitter.true-token.guid'', ''true_token_guid''), (''emitter.process.guid'', ''process_guid'')]"

definition header_column :: "string \<Rightarrow> string option" where
  "header_column field = map_option snd (find (\<lambda>(path, _). path = field) HEADER_FIELDS)"

definition legacy_header_path :: "string \<Rightarrow> string option" where
  "legacy_header_path column = map_option fst (find (\<lambda>(_, legacy). legacy = column) HEADER_FIELDS)"

definition strip_prefix :: "string \<Rightarrow> string \<Rightarrow> string option" where
  "strip_prefix p s = (if take (length p) s = p then Some (drop (length p) s) else None)"

definition under_header_path :: "string \<Rightarrow> bool" where
  "under_header_path field \<longleftrightarrow>
     list_ex (\<lambda>(path, _).
       case strip_prefix path field of
         None \<Rightarrow> False
       | Some rest \<Rightarrow> rest = [] \<or> hd rest = CHR ''.'') HEADER_FIELDS"

definition valid_segment :: "string \<Rightarrow> bool" where
  "valid_segment segment =
     (case segment of
        [] \<Rightarrow> False
      | c # cs \<Rightarrow>
          (is_ascii_alphabetic c \<or> c = CHR ''_'') \<and>
          list_all (\<lambda>c. is_ascii_alphanumeric c \<or> c = CHR ''_'' \<or> c = CHR ''-'') cs)"

definition valid_field_path :: "string \<Rightarrow> bool" where
  "valid_field_path field \<longleftrightarrow> field \<noteq> [] \<and> list_all valid_segment (split_on (CHR ''.'') field)"

definition field_uuid_rfc :: "string \<Rightarrow> u8 list option" where
  "field_uuid_rfc field =
     Option.bind (sha1_update sha1_new EVENTD_FIELD_NAMESPACE) (\<lambda>s.
     Option.bind (sha1_update s (map byte_of field)) (\<lambda>s.
     Option.bind (sha1_finish s) (\<lambda>d.
       let uuid = take 16 d;
           uuid = uuid[6 := (uuid ! 6 AND 0x0f) OR 0x50];
           uuid = uuid[8 := (uuid ! 8 AND 0x3f) OR 0x80] in
       Some uuid)))"

definition field_guid :: "string \<Rightarrow> guid option" where
  "field_guid field = map_option swap_fields (field_uuid_rfc field)"

text \<open>The outer option is the code's; the inner computation always returns.\<close>

definition payload_index_name :: "string \<Rightarrow> string option" where
  "payload_index_name field =
     (if \<not> valid_field_path field then None
      else map_option (\<lambda>guid. ''idx_events_payload_'' @ concat (map hex2 guid)) (field_uuid_rfc field))"

section \<open>Paths as lists of segments\<close>

abbreviation segments_of :: "string \<Rightarrow> string list" where
  "segments_of \<equiv> split_on (CHR ''.'')"

lemma strip_prefix_Some: "strip_prefix p s = Some r \<longleftrightarrow> s = p @ r"
  by (auto simp: strip_prefix_def) (metis append_take_drop_id)

text \<open>A path continues another one at a segment boundary iff its segments continue the other's.\<close>

lemma segment_prefix:
  "(\<exists>r. s = p @ r \<and> (r = [] \<or> hd r = CHR ''.'')) \<longleftrightarrow> prefix (segments_of p) (segments_of s)"
proof
  assume "\<exists>r. s = p @ r \<and> (r = [] \<or> hd r = CHR ''.'')"
  then consider "s = p" | r where "s = p @ CHR ''.'' # r"
    by (metis append_Nil2 list.collapse)
  then show "prefix (segments_of p) (segments_of s)"
  proof cases
    case 2
    have "segments_of s = segments_of p @ segments_of r"
      unfolding 2 by (subst split_on_append) (simp add: append_butlast_last_id)
    then show ?thesis by simp
  qed simp
next
  assume "prefix (segments_of p) (segments_of s)"
  then obtain ts where ts: "segments_of s = segments_of p @ ts" by (auto simp: prefix_def)
  have "join_with d (xs @ y # ys) = join_with d xs @ d # join_with d (y # ys)" if "xs \<noteq> []" for d xs y ys
    using that by (induction d xs rule: join_with.induct) simp_all
  with ts have "s = (case ts of [] \<Rightarrow> p | _ \<Rightarrow> p @ CHR ''.'' # join_with (CHR ''.'') ts)"
    by (metis (no_types, lifting) append_Nil2 join_split list.case_eq_if list.collapse split_on_not_Nil)
  then show "\<exists>r. s = p @ r \<and> (r = [] \<or> hd r = CHR ''.'')"
    by (cases ts) auto
qed

text \<open>The reserved paths: those whose segments begin with the segments of a header path.\<close>

lemma strip_prefix_boundary:
  "(case strip_prefix path field of None \<Rightarrow> False | Some rest \<Rightarrow> rest = [] \<or> hd rest = CHR ''.'') \<longleftrightarrow>
     prefix (segments_of path) (segments_of field)"
proof (cases "strip_prefix path field")
  case None
  then have "\<nexists>r. field = path @ r" by (auto simp: strip_prefix_def)
  with None show ?thesis unfolding segment_prefix [symmetric] by simp
next
  case (Some rest)
  then have "field = path @ rest" by (simp add: strip_prefix_Some)
  with Some show ?thesis unfolding segment_prefix [symmetric] by simp
qed

lemma under_header_path_iff:
  "under_header_path field \<longleftrightarrow> (\<exists>pc \<in> set HEADER_FIELDS. prefix (segments_of (fst pc)) (segments_of field))"
  unfolding under_header_path_def list_ex_iff strip_prefix_boundary
  by (rule bex_cong) (simp_all split: prod.splits)

lemma under_header_path_append:
  "under_header_path field \<Longrightarrow> under_header_path (field @ CHR ''.'' # rest)"
proof -
  assume "under_header_path field"
  moreover have "prefix (segments_of field) (segments_of (field @ CHR ''.'' # rest))"
    by (subst segment_prefix [symmetric]) auto
  ultimately show ?thesis unfolding under_header_path_iff by (blast intro: prefix_order.trans)
qed

section \<open>The alphabet of valid paths\<close>

definition path_char :: "char \<Rightarrow> bool" where
  "path_char c \<longleftrightarrow> is_ascii_alphanumeric c \<or> c = CHR ''_'' \<or> c = CHR ''-''"

lemma valid_segment_chars: "valid_segment s \<Longrightarrow> list_all path_char s \<and> s \<noteq> []"
  by (auto simp: valid_segment_def path_char_def is_ascii_alphanumeric_def list_all_iff split: list.splits)

lemma valid_field_path_chars: "valid_field_path f \<Longrightarrow> list_all (\<lambda>c. path_char c \<or> c = CHR ''.'') f"
proof -
  assume "valid_field_path f"
  then have all: "\<forall>s \<in> set (segments_of f). list_all path_char s"
    using valid_segment_chars by (auto simp: valid_field_path_def list_all_iff)
  have "list_all (\<lambda>c. path_char c \<or> c = CHR ''.'') (join_with (CHR ''.'') ss)"
    if "\<forall>s \<in> set ss. list_all path_char s" for ss
    using that by (induction "CHR ''.''" ss rule: join_with.induct) (auto simp: list_all_iff)
  from this [OF all] show ?thesis by simp
qed

lemma valid_field_path_join:
  assumes "ss \<noteq> []" and "\<forall>s \<in> set ss. valid_segment s"
  shows "valid_field_path (join_with (CHR ''.'') ss)"
proof -
  have "\<forall>s \<in> set ss. CHR ''.'' \<notin> set s"
    using assms(2) valid_segment_chars by (fastforce simp: list_all_iff path_char_def
        is_ascii_alphanumeric_def is_ascii_alphabetic_def is_ascii_uppercase_def is_ascii_lowercase_def
        is_ascii_digit_def)
  with split_join [OF assms(1)] have s: "segments_of (join_with (CHR ''.'') ss) = ss" by blast
  moreover have "join_with (CHR ''.'') ss \<noteq> []"
    using assms by (cases "(CHR ''.'', ss)" rule: join_with.cases) (auto simp: valid_segment_def)
  ultimately show ?thesis using assms(2) by (simp add: valid_field_path_def list_all_iff)
qed

section \<open>Identities\<close>

lemma field_uuid_rfc_eq:
  "field_uuid_rfc field =
     (let uuid = take 16 (digest (EVENTD_FIELD_NAMESPACE @ map byte_of field));
          uuid = uuid[6 := (uuid ! 6 AND 0x0f) OR 0x50] in
      Some (uuid[8 := (uuid ! 8 AND 0x3f) OR 0x80]))"
proof -
  obtain s where s: "sha1_update sha1_new EVENTD_FIELD_NAMESPACE = Some s" "hashing s EVENTD_FIELD_NAMESPACE"
    using hashing_update [OF hashing_new] by auto
  obtain s' where s': "sha1_update s (map byte_of field) = Some s'"
      "hashing s' (EVENTD_FIELD_NAMESPACE @ map byte_of field)"
    using hashing_update [OF s(2)] by blast
  show ?thesis
    using s(1) s'(1) hashing_finish [OF s'(2)] by (simp add: field_uuid_rfc_def Let_def)
qed

lemma length_compress: "length (compress state block) = 5"
  by (simp add: compress_def split: prod.splits)

lemma length_digest: "length (digest m) = 20"
proof -
  have "length (foldl compress state bs) = 5" if "length state = 5" for state bs
    using that by (induction bs arbitrary: state) (simp_all add: length_compress)
  then have "length (foldl compress initial_state bs) = 5" for bs
    by (simp add: initial_state_def)
  moreover have "length (concat (map (\<lambda>word. to_be_bytes 4 (f word)) ws)) = 4 * length ws"
    for f :: "u32 \<Rightarrow> nat" and ws
    by (induction ws) simp_all
  ultimately show ?thesis by (simp add: digest_def)
qed

text \<open>The identity is a sixteen-byte version 5 UUID of the RFC variant.\<close>

lemma field_uuid_bits:
  "\<exists>u. field_uuid_rfc field = Some u \<and> length u = 16 \<and> drop_bit 4 (u ! 6) = 5 \<and> drop_bit 6 (u ! 8) = 2"
proof -
  define d where "d = take 16 (digest (EVENTD_FIELD_NAMESPACE @ map byte_of field))"
  have l: "length d = 16" by (simp add: d_def length_digest)
  have v: "drop_bit 4 ((b AND 0x0f) OR 0x50) = (5 :: u8)" for b :: u8
  proof -
    have "drop_bit 4 ((b AND 0x0f) OR 0x50) = drop_bit 4 (take_bit 4 b) OR drop_bit 4 0x50"
      by (simp only: and_15 drop_bit_or)
    also have "drop_bit 4 (take_bit 4 b) = 0" by (simp add: drop_bit_take_bit)
    finally show ?thesis by simp
  qed
  have w: "drop_bit 6 ((b AND 0x3f) OR 0x80) = (2 :: u8)" for b :: u8
  proof -
    have "b AND 0x3f = take_bit 6 b" by (simp add: take_bit_eq_mask mask_eq_exp_minus_1)
    then have "drop_bit 6 ((b AND 0x3f) OR 0x80) = drop_bit 6 (take_bit 6 b) OR drop_bit 6 0x80"
      by (simp only: drop_bit_or)
    also have "drop_bit 6 (take_bit 6 b) = 0" by (simp add: drop_bit_take_bit)
    finally show ?thesis by simp
  qed
  show ?thesis
    using l by (simp add: field_uuid_rfc_eq Let_def d_def [symmetric] v w del: drop_bit_eq_div)
qed

section \<open>Properties\<close>

text \<open>
  A payload path is reserved exactly when, cut at its dots, it begins with the segments of a
  header path: the header path itself and everything below it, and nothing beside it, whatever
  characters the two spellings share.
\<close>

theorem reserved_paths_exact:
  "under_header_path field \<longleftrightarrow>
   (\<exists>pc \<in> set HEADER_FIELDS. prefix (segments_of (fst pc)) (segments_of field))"
  by (rule under_header_path_iff)

text \<open>
  Every field has a sixteen-byte identity with the version and variant bits of UUID version 5,
  and exactly the valid paths have an index name: a fixed prefix and thirty-two hexadecimal digits
  of that identity, so the name contains nothing but lower-case letters, digits and underscores
  and is safe to splice into SQL.
\<close>

theorem index_name_safe:
  "\<exists>guid. field_guid field = Some guid \<and> length guid = 16 \<and>
     drop_bit 4 (guid ! 7) = 5 \<and> drop_bit 6 (guid ! 8) = 2 \<and>
     (case payload_index_name field of
        None \<Rightarrow> \<not> valid_field_path field
      | Some name \<Rightarrow> valid_field_path field \<and> length name = 51 \<and>
          name = ''idx_events_payload_'' @ concat (map hex2 (swap_fields guid)) \<and>
          list_all (\<lambda>c. is_ascii_lowercase c \<or> is_ascii_digit c \<or> c = CHR ''_'') name)"
proof -
  obtain u where u: "field_uuid_rfc field = Some u" "length u = 16" "drop_bit 4 (u ! 6) = 5"
      "drop_bit 6 (u ! 8) = 2"
    using field_uuid_bits by blast
  have swap: "swap_fields u ! 7 = u ! 6" "swap_fields u ! 8 = u ! 8"
    using u(2) by (simp_all add: swap_fields_def nth_append rev_nth)
  have hex: "is_ascii_lowercase (hex_digit n) \<or> is_ascii_digit (hex_digit n)" for n
  proof -
    have "hex_digit n = hex_digit (n AND 15)" by (simp add: hex_digit_def and.assoc)
    with nibble_cases [OF nibble_and_15, of n] show ?thesis
      by (elim insertE emptyE; simp add: hex_digit_def hex_digits_def is_ascii_lowercase_def is_ascii_digit_def)
  qed
  have "length (concat (map hex2 bs)) = 2 * length bs" for bs
    by (induction bs) (simp_all add: hex2_def)
  moreover have "list_all (\<lambda>c. is_ascii_lowercase c \<or> is_ascii_digit c \<or> c = CHR ''_'') (concat (map hex2 bs))" for bs
    using hex by (induction bs) (auto simp: hex2_def)
  moreover have "list_all (\<lambda>c. is_ascii_lowercase c \<or> is_ascii_digit c \<or> c = CHR ''_'') ''idx_events_payload_''"
    by (simp add: is_ascii_lowercase_def)
  ultimately show ?thesis
    using u swap by (intro exI [of _ "swap_fields u"])
      (auto simp: field_guid_def payload_index_name_def swap_fields_involution length_swap_fields)
qed

end
