(* ===== verification/Payload_Index.thy ===== *)
theory Payload_Index
  imports Field
begin

unbundle bit_operations_syntax

text \<open>
  The extractor behind the adaptive payload indexes (\<^verbatim>\<open>eventd-core/src/payload_index.rs\<close>): a
  MessagePack cursor that walks a stored payload to one flattened field and returns its index key.
  \<open>None\<close> is the code's \<^verbatim>\<open>Err(())\<close>. Positions and lengths count bytes of a slice in memory, so the
  checked additions and multiplications of the source, on lengths below \<open>2 ^ 32\<close>, never overflow
  a 64-bit \<^verbatim>\<open>usize\<close> and are plain additions here.
\<close>

section \<open>Keys\<close>

definition FUNCTION :: string where
  "FUNCTION = ''eventd_payload_key''"

definition MAX_DEPTH :: nat where
  "MAX_DEPTH = 32"

definition BOOLEAN_KEY :: u8 where "BOOLEAN_KEY = 1"
definition STRING_KEY :: u8 where "STRING_KEY = 2"
definition BINARY_KEY :: u8 where "BINARY_KEY = 3"

datatype payload_index_value = PBool bool | PString string | PBinary "u8 list"

definition fold_ascii :: "u8 \<Rightarrow> u8" where
  "fold_ascii byte = (if 65 \<le> byte \<and> byte \<le> 90 then byte + (97 - 65) else byte)"

fun query_key :: "payload_index_value \<Rightarrow> u8 list" where
  "query_key (PBool b) = [BOOLEAN_KEY, if b then 1 else 0]"
| "query_key (PString s) = STRING_KEY # map fold_ascii (as_bytes s)"
| "query_key (PBinary bs) = BINARY_KEY # bs"

definition expression :: "string \<Rightarrow> string option" where
  "expression field =
     (if \<not> valid_field_path field \<or> under_header_path field then None
      else Some (FUNCTION @ ''(payload, '' @ [char_of (39 :: nat)] @ field @ [char_of (39 :: nat)] @ '')''))"

section \<open>The cursor\<close>

record cursor =
  cursor_bytes :: "u8 list"
  cursor_position :: nat

definition cursor_new :: "u8 list \<Rightarrow> cursor" where
  "cursor_new bytes = \<lparr>cursor_bytes = bytes, cursor_position = 0\<rparr>"

definition cursor_peek :: "cursor \<Rightarrow> u8 option" where
  "cursor_peek c =
     (if cursor_position c < length (cursor_bytes c)
      then Some (cursor_bytes c ! cursor_position c) else None)"

definition cursor_byte :: "cursor \<Rightarrow> (u8 \<times> cursor) option" where
  "cursor_byte c =
     Option.bind (cursor_peek c) (\<lambda>byte. Some (byte, c\<lparr>cursor_position := cursor_position c + 1\<rparr>))"

definition cursor_take :: "cursor \<Rightarrow> nat \<Rightarrow> (u8 list \<times> cursor) option" where
  "cursor_take c len =
     (let end_position = cursor_position c + len in
      if end_position \<le> length (cursor_bytes c)
      then Some (take len (drop (cursor_position c) (cursor_bytes c)), c\<lparr>cursor_position := end_position\<rparr>)
      else None)"

definition cursor_length :: "cursor \<Rightarrow> nat \<Rightarrow> (nat \<times> cursor) option" where
  "cursor_length c bytes =
     (if bytes = 1 then Option.bind (cursor_byte c) (\<lambda>(b, c). Some (unat b, c))
      else if bytes = 2 \<or> bytes = 4
      then Option.bind (cursor_take c bytes) (\<lambda>(bs, c). Some (be_value bs, c))
      else None)"

definition skip_bytes :: "cursor \<Rightarrow> nat \<Rightarrow> cursor option" where
  "skip_bytes c len = Option.bind (cursor_take c len) (\<lambda>(_, c). Some c)"

definition skip_sized :: "cursor \<Rightarrow> nat \<Rightarrow> cursor option" where
  "skip_sized c length_bytes =
     Option.bind (cursor_length c length_bytes) (\<lambda>(len, c). skip_bytes c len)"

definition skip_ext :: "cursor \<Rightarrow> nat \<Rightarrow> cursor option" where
  "skip_ext c length_bytes =
     Option.bind (cursor_length c length_bytes) (\<lambda>(len, c). skip_bytes c (len + 1))"

definition is_map_marker :: "u8 \<Rightarrow> bool" where
  "is_map_marker marker \<longleftrightarrow> (0x80 \<le> marker \<and> marker \<le> 0x8f) \<or> marker = 0xde \<or> marker = 0xdf"

text \<open>
  Skipping one value. The recursion ends because every container goes one level deeper and the depth
  is limited; within one container the item count goes down.
\<close>

function skip_value :: "cursor \<Rightarrow> nat \<Rightarrow> cursor option"
  and skip_after_marker :: "cursor \<Rightarrow> u8 \<Rightarrow> nat \<Rightarrow> cursor option"
  and skip_items :: "cursor \<Rightarrow> nat \<Rightarrow> nat \<Rightarrow> cursor option" where
  "skip_value c depth =
     (if MAX_DEPTH \<le> depth then None
      else Option.bind (cursor_byte c) (\<lambda>(marker, c). skip_after_marker c marker depth))"
| "skip_after_marker c marker depth =
     (if marker \<le> 0x7f \<or> marker = 0xc0 \<or> marker = 0xc2 \<or> marker = 0xc3 \<or> 0xe0 \<le> marker then Some c
      else if 0x80 \<le> marker \<and> marker \<le> 0x8f then skip_items c (unat (marker AND 0x0f) * 2) depth
      else if 0x90 \<le> marker \<and> marker \<le> 0x9f then skip_items c (unat (marker AND 0x0f)) depth
      else if 0xa0 \<le> marker \<and> marker \<le> 0xbf then skip_bytes c (unat (marker AND 0x1f))
      else if marker = 0xc4 \<or> marker = 0xd9 then skip_sized c 1
      else if marker = 0xc5 \<or> marker = 0xda then skip_sized c 2
      else if marker = 0xc6 \<or> marker = 0xdb then skip_sized c 4
      else if marker = 0xc7 then skip_ext c 1
      else if marker = 0xc8 then skip_ext c 2
      else if marker = 0xc9 then skip_ext c 4
      else if marker = 0xca then skip_bytes c 4
      else if marker = 0xcb then skip_bytes c 8
      else if marker = 0xcc \<or> marker = 0xd0 then skip_bytes c 1
      else if marker = 0xcd \<or> marker = 0xd1 then skip_bytes c 2
      else if marker = 0xce \<or> marker = 0xd2 then skip_bytes c 4
      else if marker = 0xcf \<or> marker = 0xd3 then skip_bytes c 8
      else if marker = 0xd4 then skip_bytes c 2
      else if marker = 0xd5 then skip_bytes c 3
      else if marker = 0xd6 then skip_bytes c 5
      else if marker = 0xd7 then skip_bytes c 9
      else if marker = 0xd8 then skip_bytes c 17
      else if marker = 0xdc then
        Option.bind (cursor_length c 2) (\<lambda>(count, c). skip_items c count depth)
      else if marker = 0xdd then
        Option.bind (cursor_length c 4) (\<lambda>(count, c). skip_items c count depth)
      else if marker = 0xde then
        Option.bind (cursor_length c 2) (\<lambda>(count, c). skip_items c (count * 2) depth)
      else if marker = 0xdf then
        Option.bind (cursor_length c 4) (\<lambda>(count, c). skip_items c (count * 2) depth)
      else None)"
| "skip_items c count depth =
     (if count = 0 then Some c
      else Option.bind (skip_value c (depth + 1)) (\<lambda>c. skip_items c (count - 1) depth))"
  by pat_completeness auto
termination
  by (relation "measures
      [\<lambda>x. case x of
          Inl (c, d) \<Rightarrow> if MAX_DEPTH \<le> d then 0 else 3 * (33 - d) + 3
        | Inr (Inl (c, m, d)) \<Rightarrow> 3 * (33 - d) + 2
        | Inr (Inr (c, n, d)) \<Rightarrow> 3 * (33 - d) + 1,
       \<lambda>x. case x of Inr (Inr (c, n, d)) \<Rightarrow> n | _ \<Rightarrow> 0]")
    (auto simp: MAX_DEPTH_def)

declare skip_value.simps [simp del] skip_after_marker.simps [simp del] skip_items.simps [simp del]

definition read_map_len :: "cursor \<Rightarrow> (nat \<times> cursor) option" where
  "read_map_len c =
     Option.bind (cursor_byte c) (\<lambda>(marker, c).
       if 0x80 \<le> marker \<and> marker \<le> 0x8f then Some (unat (marker AND 0x0f), c)
       else if marker = 0xde then cursor_length c 2
       else if marker = 0xdf then cursor_length c 4
       else None)"

text \<open>The bytes of a string whose length is known, if they are UTF-8.\<close>

definition take_str :: "cursor \<Rightarrow> nat \<Rightarrow> (string option \<times> cursor) option" where
  "take_str c len = Option.bind (cursor_take c len) (\<lambda>(bs, c). Some (from_utf8 bs, c))"

definition read_string :: "cursor \<Rightarrow> (string option \<times> cursor) option" where
  "read_string c =
     Option.bind (cursor_byte c) (\<lambda>(marker, c).
       if 0xa0 \<le> marker \<and> marker \<le> 0xbf then take_str c (unat (marker AND 0x1f))
       else if marker = 0xd9 then Option.bind (cursor_length c 1) (\<lambda>(len, c). take_str c len)
       else if marker = 0xda then Option.bind (cursor_length c 2) (\<lambda>(len, c). take_str c len)
       else if marker = 0xdb then Option.bind (cursor_length c 4) (\<lambda>(len, c). take_str c len)
       else Option.bind (skip_after_marker c marker 0) (\<lambda>c. Some (None, c)))"

definition string_key :: "(string option \<times> cursor) option \<Rightarrow> (u8 list option \<times> cursor) option" where
  "string_key r = Option.bind r (\<lambda>(s, c). Some (map_option (\<lambda>s. query_key (PString s)) s, c))"

definition binary_key :: "(u8 list \<times> cursor) option \<Rightarrow> (u8 list option \<times> cursor) option" where
  "binary_key r = Option.bind r (\<lambda>(bs, c). Some (Some (query_key (PBinary bs)), c))"

definition read_leaf_key :: "cursor \<Rightarrow> nat \<Rightarrow> (u8 list option \<times> cursor) option" where
  "read_leaf_key c depth =
     Option.bind (cursor_byte c) (\<lambda>(marker, c).
       if marker = 0xc0 then Some (None, c)
       else if marker = 0xc2 then Some (Some (query_key (PBool False)), c)
       else if marker = 0xc3 then Some (Some (query_key (PBool True)), c)
       else if 0xa0 \<le> marker \<and> marker \<le> 0xbf then string_key (take_str c (unat (marker AND 0x1f)))
       else if 0xd9 \<le> marker \<and> marker \<le> 0xdb then
         Option.bind (cursor_length c (if marker = 0xd9 then 1 else if marker = 0xda then 2 else 4))
           (\<lambda>(len, c). string_key (take_str c len))
       else if 0xc4 \<le> marker \<and> marker \<le> 0xc6 then
         Option.bind (cursor_length c (if marker = 0xc4 then 1 else if marker = 0xc5 then 2 else 4))
           (\<lambda>(len, c). binary_key (cursor_take c len))
       else if 0xc7 \<le> marker \<and> marker \<le> 0xc9 then
         Option.bind (cursor_length c (if marker = 0xc7 then 1 else if marker = 0xc8 then 2 else 4))
           (\<lambda>(len, c). Option.bind (cursor_byte c) (\<lambda>(_, c). binary_key (cursor_take c len)))
       else if 0xd4 \<le> marker \<and> marker \<le> 0xd8 then
         Option.bind (cursor_byte c) (\<lambda>(_, c). binary_key (cursor_take c (2 ^ unat (marker - 0xd4))))
       else Option.bind (skip_after_marker c marker depth) (\<lambda>c. Some (None, c)))"

section \<open>The walk to one field\<close>

datatype found = Found "u8 list option"

text \<open>
  The body of the map loop is \<open>scan_entries\<close>, with the number of entries still to read. Indexing the
  segments is safe: the segment index stays below their number.
\<close>

function scan_map :: "cursor \<Rightarrow> string list \<Rightarrow> nat \<Rightarrow> nat \<Rightarrow> (found option \<times> cursor) option"
  and scan_entries :: "nat \<Rightarrow> cursor \<Rightarrow> string list \<Rightarrow> nat \<Rightarrow> nat \<Rightarrow> (found option \<times> cursor) option" where
  "scan_map c segments segment depth =
     (if MAX_DEPTH \<le> depth then None
      else Option.bind (read_map_len c) (\<lambda>(count, c). scan_entries count c segments segment depth))"
| "scan_entries count c segments segment depth =
     (if count = 0 then Some (None, c)
      else
        Option.bind (read_string c) (\<lambda>(key, c).
          if key \<noteq> Some (segments ! segment) then
            Option.bind (skip_value c (depth + 1)) (\<lambda>c.
              scan_entries (count - 1) c segments segment depth)
          else
            let is_map = (case cursor_peek c of None \<Rightarrow> False | Some b \<Rightarrow> is_map_marker b) in
            if segment + 1 < length segments then
              if is_map then
                Option.bind (scan_map c segments (segment + 1) (depth + 1)) (\<lambda>(found, c).
                  case found of
                    Some f \<Rightarrow> Some (Some f, c)
                  | None \<Rightarrow> scan_entries (count - 1) c segments segment depth)
              else
                Option.bind (skip_value c (depth + 1)) (\<lambda>c.
                  scan_entries (count - 1) c segments segment depth)
            else if is_map then
              Option.bind (skip_value c (depth + 1)) (\<lambda>c.
                scan_entries (count - 1) c segments segment depth)
            else
              Option.bind (read_leaf_key c (depth + 1)) (\<lambda>(key, c). Some (Some (Found key), c))))"
  by pat_completeness auto
termination
  by (relation "measures
      [\<lambda>x. case x of
          Inl (c, ss, s, d) \<Rightarrow> if MAX_DEPTH \<le> d then 0 else 2 * (33 - d) + 2
        | Inr (n, c, ss, s, d) \<Rightarrow> 2 * (33 - d) + 1,
       \<lambda>x. case x of Inr (n, c, ss, s, d) \<Rightarrow> n | _ \<Rightarrow> 0]")
    (auto simp: MAX_DEPTH_def)

declare scan_map.simps [simp del] scan_entries.simps [simp del]

definition extract_key :: "u8 list \<Rightarrow> string \<Rightarrow> u8 list option" where
  "extract_key payload field =
     (let segments = split_on (CHR ''.'') field in
      if segments = [] \<or> \<not> valid_field_path field \<or> under_header_path field then None
      else
        case scan_map (cursor_new payload) segments 0 0 of
          Some (Some (Found key), c) \<Rightarrow>
            if length payload < cursor_position c then None else key
        | _ \<Rightarrow> None)"

end
