(* ===== verification/Msgpack_Grammar.thy ===== *)
theory Msgpack_Grammar
  imports Payload_Index
begin

unbundle bit_operations_syntax

text \<open>
  The MessagePack format as a grammar, independent of any reader: which byte strings encode which
  values, with every header width the format allows. It is the specification the payload extractor
  is measured against. The index of \<open>encodes\<close> bounds the nesting of the value.
\<close>

section \<open>Values and their encodings\<close>

datatype mp =
    MNil
  | MBool bool
  | MNumber "u8 list"
  | MStr "u8 list"
  | MBin "u8 list"
  | MExt u8 "u8 list"
  | MArr "mp list"
  | MMap "(mp \<times> mp) list"

text \<open>A number is kept as its encoding: a fixed marker, or a marker and its fixed number of bytes.\<close>

definition number_width :: "u8 \<Rightarrow> nat option" where
  "number_width marker =
     (if marker \<le> 0x7f \<or> 0xe0 \<le> marker then Some 0
      else if marker = 0xcc \<or> marker = 0xd0 then Some 1
      else if marker = 0xcd \<or> marker = 0xd1 then Some 2
      else if marker = 0xca \<or> marker = 0xce \<or> marker = 0xd2 then Some 4
      else if marker = 0xcb \<or> marker = 0xcf \<or> marker = 0xd3 then Some 8
      else None)"

definition number_form :: "u8 list \<Rightarrow> bool" where
  "number_form bs \<longleftrightarrow> (case bs of [] \<Rightarrow> False | m # rest \<Rightarrow> number_width m = Some (length rest))"

definition str_header :: "nat \<Rightarrow> u8 list \<Rightarrow> bool" where
  "str_header n h \<longleftrightarrow>
     (n < 32 \<and> h = [0xa0 + of_nat n]) \<or> (n < 256 \<and> h = 0xd9 # to_be_bytes 1 n) \<or>
     (n < 65536 \<and> h = 0xda # to_be_bytes 2 n) \<or> (n < 4294967296 \<and> h = 0xdb # to_be_bytes 4 n)"

definition bin_header :: "nat \<Rightarrow> u8 list \<Rightarrow> bool" where
  "bin_header n h \<longleftrightarrow>
     (n < 256 \<and> h = 0xc4 # to_be_bytes 1 n) \<or> (n < 65536 \<and> h = 0xc5 # to_be_bytes 2 n) \<or>
     (n < 4294967296 \<and> h = 0xc6 # to_be_bytes 4 n)"

definition ext_header :: "nat \<Rightarrow> u8 list \<Rightarrow> bool" where
  "ext_header n h \<longleftrightarrow>
     (n < 256 \<and> h = 0xc7 # to_be_bytes 1 n) \<or> (n < 65536 \<and> h = 0xc8 # to_be_bytes 2 n) \<or>
     (n < 4294967296 \<and> h = 0xc9 # to_be_bytes 4 n) \<or>
     (n = 1 \<and> h = [0xd4]) \<or> (n = 2 \<and> h = [0xd5]) \<or> (n = 4 \<and> h = [0xd6]) \<or> (n = 8 \<and> h = [0xd7]) \<or>
     (n = 16 \<and> h = [0xd8])"

definition array_header :: "nat \<Rightarrow> u8 list \<Rightarrow> bool" where
  "array_header n h \<longleftrightarrow>
     (n < 16 \<and> h = [0x90 + of_nat n]) \<or> (n < 65536 \<and> h = 0xdc # to_be_bytes 2 n) \<or>
     (n < 4294967296 \<and> h = 0xdd # to_be_bytes 4 n)"

definition map_header :: "nat \<Rightarrow> u8 list \<Rightarrow> bool" where
  "map_header n h \<longleftrightarrow>
     (n < 16 \<and> h = [0x80 + of_nat n]) \<or> (n < 65536 \<and> h = 0xde # to_be_bytes 2 n) \<or>
     (n < 4294967296 \<and> h = 0xdf # to_be_bytes 4 n)"

definition flat_entries :: "('a \<times> 'a) list \<Rightarrow> 'a list" where
  "flat_entries kvs = concat (map (\<lambda>(k, v). [k, v]) kvs)"

lemma flat_entries_simps [simp]:
  "flat_entries [] = []" "flat_entries ((k, v) # kvs) = k # v # flat_entries kvs"
  by (simp_all add: flat_entries_def)

lemma length_flat_entries [simp]: "length (flat_entries kvs) = 2 * length kvs"
  by (induction kvs) auto

inductive encodes :: "nat \<Rightarrow> mp \<Rightarrow> u8 list \<Rightarrow> bool"
  and encodes_all :: "nat \<Rightarrow> mp list \<Rightarrow> u8 list \<Rightarrow> bool" where
  enc_nil: "encodes n MNil [0xc0]"
| enc_bool: "encodes n (MBool b) [if b then 0xc3 else 0xc2]"
| enc_number: "number_form bs \<Longrightarrow> encodes n (MNumber bs) bs"
| enc_str: "str_header (length s) h \<Longrightarrow> encodes n (MStr s) (h @ s)"
| enc_bin: "bin_header (length b) h \<Longrightarrow> encodes n (MBin b) (h @ b)"
| enc_ext: "ext_header (length b) h \<Longrightarrow> encodes n (MExt ty b) (h @ ty # b)"
| enc_arr: "array_header (length vs) h \<Longrightarrow> encodes_all n vs bs \<Longrightarrow> encodes (Suc n) (MArr vs) (h @ bs)"
| enc_map: "map_header (length kvs) h \<Longrightarrow> encodes_all n (flat_entries kvs) bs \<Longrightarrow>
    encodes (Suc n) (MMap kvs) (h @ bs)"
| enc_all_nil: "encodes_all n [] []"
| enc_all_cons: "encodes n v bs \<Longrightarrow> encodes_all n vs cs \<Longrightarrow> encodes_all n (v # vs) (bs @ cs)"

inductive_cases encodes_all_ConsE: "encodes_all n (v # vs) bs"
inductive_cases encodes_MapE: "encodes n (MMap kvs) bs"
inductive_cases encodes_StrE: "encodes n (MStr s) bs"

section \<open>The cursor over a byte string\<close>

definition rest :: "cursor \<Rightarrow> u8 list" where
  "rest c = drop (cursor_position c) (cursor_bytes c)"

definition in_bounds :: "cursor \<Rightarrow> bool" where
  "in_bounds c \<longleftrightarrow> cursor_position c \<le> length (cursor_bytes c)"

definition adv :: "cursor \<Rightarrow> nat \<Rightarrow> cursor" where
  "adv c n = c\<lparr>cursor_position := cursor_position c + n\<rparr>"

lemma rest_adv [simp]: "rest (adv c n) = drop n (rest c)"
  by (simp add: rest_def adv_def add.commute)

lemma adv_adv [simp]: "adv (adv c m) n = adv c (m + n)"
  by (simp add: adv_def add.assoc)

lemma cursor_bytes_adv [simp]: "cursor_bytes (adv c n) = cursor_bytes c"
  by (simp add: adv_def)

lemma in_bounds_adv [simp]: "in_bounds c \<Longrightarrow> n \<le> length (rest c) \<Longrightarrow> in_bounds (adv c n)"
  by (simp add: in_bounds_def rest_def adv_def)

lemma cursor_peek_rest: "cursor_peek c = (case rest c of [] \<Rightarrow> None | b # bs \<Rightarrow> Some b)"
proof (cases "cursor_position c < length (cursor_bytes c)")
  case True
  then have "rest c = cursor_bytes c ! cursor_position c # drop (Suc (cursor_position c)) (cursor_bytes c)"
    by (simp add: rest_def Cons_nth_drop_Suc)
  with True show ?thesis by (simp add: cursor_peek_def)
qed (simp add: cursor_peek_def rest_def)

lemma cursor_byte_rest: "cursor_byte c = (case rest c of [] \<Rightarrow> None | b # bs \<Rightarrow> Some (b, adv c 1))"
  by (simp add: cursor_byte_def cursor_peek_rest adv_def split: list.splits)

lemma cursor_take_rest:
  "in_bounds c \<Longrightarrow> cursor_take c n = (if n \<le> length (rest c) then Some (take n (rest c), adv c n) else None)"
  by (auto simp: cursor_take_def rest_def in_bounds_def adv_def Let_def)

lemma skip_bytes_rest:
  "in_bounds c \<Longrightarrow> skip_bytes c n = (if n \<le> length (rest c) then Some (adv c n) else None)"
  by (simp add: skip_bytes_def cursor_take_rest)

text \<open>Reading a big-endian length that is there.\<close>

lemma cursor_length_read:
  assumes "in_bounds c" and "k \<in> {1, 2, 4}" and "n < 256 ^ k" and "rest c = to_be_bytes k n @ r"
  shows "cursor_length c k = Some (n, adv c k)"
proof -
  have l: "length (to_be_bytes k n) = k" by simp
  have v: "be_value (to_be_bytes k n) = n" by (rule be_value_to_be_bytes) (rule assms(3))
  show ?thesis
  proof (cases "k = 1")
    case True
    with assms(3,4) show ?thesis
      by (simp add: cursor_length_def cursor_byte_rest unat_of_nat)
  next
    case False
    with assms l v show ?thesis
      by (auto simp: cursor_length_def cursor_take_rest)
  qed
qed

section \<open>Skipping a value\<close>

lemma unat_and_15: "unat ((m :: u8) AND 0x0f) = unat m mod 16"
  using unat_and_low_bits [of m 4] by simp

lemma unat_and_31: "unat ((m :: u8) AND 0x1f) = unat m mod 32"
  using unat_and_low_bits [of m 5] by simp

lemmas marker_simps = word_order word_unat_eq_iff unat_and_15 unat_and_31

lemma unat_small_marker: "n < k \<Longrightarrow> unat b + k \<le> 256 \<Longrightarrow> unat (b + of_nat n :: u8) = unat b + n"
  by (simp add: unat_word_ariths unat_of_nat)

text \<open>The marker table by the groups the format gives the markers.\<close>

lemma skip_after_marker_table:
  "skip_after_marker c 0xc0 d = Some c"
  "skip_after_marker c 0xc2 d = Some c"
  "skip_after_marker c 0xc3 d = Some c"
  "skip_after_marker c 0xc4 d = skip_sized c 1"
  "skip_after_marker c 0xd9 d = skip_sized c 1"
  "skip_after_marker c 0xc5 d = skip_sized c 2"
  "skip_after_marker c 0xda d = skip_sized c 2"
  "skip_after_marker c 0xc6 d = skip_sized c 4"
  "skip_after_marker c 0xdb d = skip_sized c 4"
  "skip_after_marker c 0xc7 d = skip_ext c 1"
  "skip_after_marker c 0xc8 d = skip_ext c 2"
  "skip_after_marker c 0xc9 d = skip_ext c 4"
  "skip_after_marker c 0xcc d = skip_bytes c 1"
  "skip_after_marker c 0xd0 d = skip_bytes c 1"
  "skip_after_marker c 0xcd d = skip_bytes c 2"
  "skip_after_marker c 0xd1 d = skip_bytes c 2"
  "skip_after_marker c 0xd4 d = skip_bytes c 2"
  "skip_after_marker c 0xca d = skip_bytes c 4"
  "skip_after_marker c 0xce d = skip_bytes c 4"
  "skip_after_marker c 0xd2 d = skip_bytes c 4"
  "skip_after_marker c 0xcb d = skip_bytes c 8"
  "skip_after_marker c 0xcf d = skip_bytes c 8"
  "skip_after_marker c 0xd3 d = skip_bytes c 8"
  "skip_after_marker c 0xd5 d = skip_bytes c 3"
  "skip_after_marker c 0xd6 d = skip_bytes c 5"
  "skip_after_marker c 0xd7 d = skip_bytes c 9"
  "skip_after_marker c 0xd8 d = skip_bytes c 17"
  "skip_after_marker c 0xdc d = Option.bind (cursor_length c 2) (\<lambda>(count, c). skip_items c count d)"
  "skip_after_marker c 0xdd d = Option.bind (cursor_length c 4) (\<lambda>(count, c). skip_items c count d)"
  "skip_after_marker c 0xde d = Option.bind (cursor_length c 2) (\<lambda>(count, c). skip_items c (count * 2) d)"
  "skip_after_marker c 0xdf d = Option.bind (cursor_length c 4) (\<lambda>(count, c). skip_items c (count * 2) d)"
  by (simp_all add: skip_after_marker.simps word_order)

lemma skip_after_marker_fixnum: "m \<le> 0x7f \<or> 0xe0 \<le> m \<Longrightarrow> skip_after_marker c m d = Some c"
  by (subst skip_after_marker.simps, rule if_P) blast

lemma skip_after_marker_ranges:
  "0x80 \<le> m \<Longrightarrow> m \<le> 0x8f \<Longrightarrow> skip_after_marker c m d = skip_items c (unat m mod 16 * 2) d"
  "0x90 \<le> m \<Longrightarrow> m \<le> 0x9f \<Longrightarrow> skip_after_marker c m d = skip_items c (unat m mod 16) d"
  "0xa0 \<le> m \<Longrightarrow> m \<le> 0xbf \<Longrightarrow> skip_after_marker c m d = skip_bytes c (unat m mod 32)"
  by (simp_all add: skip_after_marker.simps marker_simps)

lemma skip_number:
  assumes "in_bounds c" and "number_width m = Some (length bs)" and "rest c = bs @ r"
  shows "skip_after_marker c m d = Some (adv c (length bs))"
proof -
  have s: "skip_bytes c (length bs) = Some (adv c (length bs))"
    using assms by (simp add: skip_bytes_rest)
  have z: "adv c 0 = c" by (simp add: adv_def)
  consider "m \<le> 0x7f \<or> 0xe0 \<le> m" "length bs = 0" | "m = 0xcc \<or> m = 0xd0" "length bs = 1"
    | "m = 0xcd \<or> m = 0xd1" "length bs = 2" | "m = 0xca \<or> m = 0xce \<or> m = 0xd2" "length bs = 4"
    | "m = 0xcb \<or> m = 0xcf \<or> m = 0xd3" "length bs = 8"
    using assms(2) unfolding number_width_def by (simp only: split: if_splits) simp_all
  then show ?thesis
  proof cases
    case 1
    then show ?thesis using z skip_after_marker_fixnum [of m c d] by simp
  qed (use s skip_after_marker_table [of c d] in auto)
qed

lemma skip_sized_read:
  assumes "in_bounds c" and "k \<in> {1, 2, 4}" and "length s < 256 ^ k" and "rest c = to_be_bytes k (length s) @ s @ r"
  shows "skip_sized c k = Some (adv c (k + length s))"
  using assms cursor_length_read [OF assms(1-3), of "s @ r"]
  by (simp add: skip_sized_def skip_bytes_rest)

lemma skip_ext_read:
  assumes "in_bounds c" and "k \<in> {1, 2, 4}" and "length s < 256 ^ k" and "rest c = to_be_bytes k (length s) @ ty # s @ r"
  shows "skip_ext c k = Some (adv c (k + 1 + length s))"
  using assms cursor_length_read [OF assms(1-3), of "ty # s @ r"]
  by (simp add: skip_ext_def skip_bytes_rest)

text \<open>A header of \<open>k\<close> length bytes after a fixed marker.\<close>

definition wide_header :: "u8 \<Rightarrow> u8 \<Rightarrow> nat \<Rightarrow> nat \<Rightarrow> u8 list \<Rightarrow> bool" where
  "wide_header marker m k n h \<longleftrightarrow> m = marker \<and> n < 256 ^ k \<and> h = to_be_bytes k n"

lemma str_header_cases:
  assumes "str_header n (m # h)"
  shows "(n < 32 \<and> m = 0xa0 + of_nat n \<and> h = []) \<or> wide_header 0xd9 m 1 n h \<or> wide_header 0xda m 2 n h \<or>
    wide_header 0xdb m 4 n h"
  using assms by (simp add: str_header_def wide_header_def) blast

lemma bin_header_cases:
  assumes "bin_header n (m # h)"
  shows "wide_header 0xc4 m 1 n h \<or> wide_header 0xc5 m 2 n h \<or> wide_header 0xc6 m 4 n h"
  using assms by (simp add: bin_header_def wide_header_def) blast

lemma ext_header_cases:
  assumes "ext_header n (m # h)"
  shows "wide_header 0xc7 m 1 n h \<or> wide_header 0xc8 m 2 n h \<or> wide_header 0xc9 m 4 n h \<or>
    (h = [] \<and> (m, n) \<in> {(0xd4, 1), (0xd5, 2), (0xd6, 4), (0xd7, 8), (0xd8, 16)})"
  using assms unfolding ext_header_def wide_header_def by simp blast

lemma array_header_cases:
  assumes "array_header n (m # h)"
  shows "(n < 16 \<and> m = 0x90 + of_nat n \<and> h = []) \<or> wide_header 0xdc m 2 n h \<or> wide_header 0xdd m 4 n h"
  using assms by (simp add: array_header_def wide_header_def) blast

lemma map_header_cases:
  assumes "map_header n (m # h)"
  shows "(n < 16 \<and> m = 0x80 + of_nat n \<and> h = []) \<or> wide_header 0xde m 2 n h \<or> wide_header 0xdf m 4 n h"
  using assms by (simp add: map_header_def wide_header_def) blast

lemma skip_sized_wide:
  assumes "in_bounds c" and "wide_header marker m k (length s) h" and "k \<in> {1, 2, 4}" and "rest c = h @ s @ r"
  shows "skip_sized c k = Some (adv c (length h + length s))"
  using skip_sized_read [OF assms(1,3), of s r] assms(2,4) by (simp add: wide_header_def)

lemma skip_ext_wide:
  assumes "in_bounds c" and "wide_header marker m k (length s) h" and "k \<in> {1, 2, 4}" and "rest c = h @ ty # s @ r"
  shows "skip_ext c k = Some (adv c (length h + 1 + length s))"
  using skip_ext_read [OF assms(1,3), of s ty r] assms(2,4) by (simp add: wide_header_def)

lemma cursor_length_wide:
  assumes "in_bounds c" and "wide_header marker m k n h" and "k \<in> {1, 2, 4}" and "rest c = h @ r"
  shows "cursor_length c k = Some (n, adv c (length h))"
  using cursor_length_read [OF assms(1,3), of n r] assms(2,4) by (simp add: wide_header_def)

lemma wide_header_marker: "wide_header marker m k n h \<Longrightarrow> m = marker"
  by (simp add: wide_header_def)

lemma skip_str:
  assumes c: "in_bounds c" and hd: "str_header (length s) (m # h)" and r: "rest c = h @ s @ r"
  shows "skip_after_marker c m d = Some (adv c (length h + length s))"
  using str_header_cases [OF hd]
proof (elim disjE)
  assume f: "length s < 32 \<and> m = 0xa0 + of_nat (length s) \<and> h = []"
  then have u: "unat m = 160 + length s" by (simp add: unat_small_marker [of _ 32])
  then have "skip_after_marker c m d = skip_bytes c (unat m mod 32)"
    using f by (intro skip_after_marker_ranges(3)) (simp_all add: word_order)
  moreover have "unat m mod 32 = length s" using u f by (simp add: mod_add_eq [symmetric])
  ultimately show ?thesis using c r f by (simp add: skip_bytes_rest)
qed (frule wide_header_marker, drule skip_sized_wide [OF c _ _ r], simp, simp add: skip_after_marker_table)+

lemma skip_bin:
  assumes c: "in_bounds c" and hd: "bin_header (length s) (m # h)" and r: "rest c = h @ s @ r"
  shows "skip_after_marker c m d = Some (adv c (length h + length s))"
  using bin_header_cases [OF hd]
  by (elim disjE)
    (frule wide_header_marker, drule skip_sized_wide [OF c _ _ r], simp, simp add: skip_after_marker_table)+

lemma skip_ext_value:
  assumes c: "in_bounds c" and hd: "ext_header (length s) (m # h)" and r: "rest c = h @ ty # s @ r"
  shows "skip_after_marker c m d = Some (adv c (length h + 1 + length s))"
  using ext_header_cases [OF hd]
proof (elim disjE)
  assume f: "h = [] \<and> (m, length s) \<in> {(0xd4, 1), (0xd5, 2), (0xd6, 4), (0xd7, 8), (0xd8, 16)}"
  then have "skip_after_marker c m d = skip_bytes c (length s + 1)"
    by (elim conjE insertE emptyE; simp add: skip_after_marker_table; simp add: eval_nat_numeral)
  then show ?thesis using c r f by (simp add: skip_bytes_rest)
qed (frule wide_header_marker, drule skip_ext_wide [OF c _ _ r], simp, simp add: skip_after_marker_table)+

lemma skip_array_header:
  assumes c: "in_bounds c" and hd: "array_header n (m # h)" and r: "rest c = h @ r"
  shows "skip_after_marker c m d = skip_items (adv c (length h)) n d"
  using array_header_cases [OF hd]
proof (elim disjE)
  assume f: "n < 16 \<and> m = 0x90 + of_nat n \<and> h = []"
  then have u: "unat m = 144 + n" by (simp add: unat_small_marker [of _ 16])
  then have "skip_after_marker c m d = skip_items c (unat m mod 16) d"
    using f by (intro skip_after_marker_ranges(2)) (simp_all add: word_order)
  moreover have "unat m mod 16 = n" using u f by (simp add: mod_add_eq [symmetric])
  ultimately show ?thesis using f by (simp add: adv_def)
qed (frule wide_header_marker, drule cursor_length_wide [OF c _ _ r], simp, simp add: skip_after_marker_table)+

lemma skip_map_header:
  assumes c: "in_bounds c" and hd: "map_header n (m # h)" and r: "rest c = h @ r"
  shows "skip_after_marker c m d = skip_items (adv c (length h)) (2 * n) d"
  using map_header_cases [OF hd]
proof (elim disjE)
  assume f: "n < 16 \<and> m = 0x80 + of_nat n \<and> h = []"
  then have u: "unat m = 128 + n" by (simp add: unat_small_marker [of _ 16])
  then have "skip_after_marker c m d = skip_items c (unat m mod 16 * 2) d"
    using f by (intro skip_after_marker_ranges(1)) (simp_all add: word_order)
  moreover have "unat m mod 16 = n" using u f by (simp add: mod_add_eq [symmetric])
  ultimately show ?thesis using f by (simp add: adv_def mult.commute)
qed (frule wide_header_marker, drule cursor_length_wide [OF c _ _ r], simp,
    simp add: skip_after_marker_table mult.commute)+

lemma header_Cons:
  "str_header n h \<Longrightarrow> \<exists>m t. h = m # t" "bin_header n h \<Longrightarrow> \<exists>m t. h = m # t"
  "ext_header n h \<Longrightarrow> \<exists>m t. h = m # t" "array_header n h \<Longrightarrow> \<exists>m t. h = m # t"
  "map_header n h \<Longrightarrow> \<exists>m t. h = m # t"
  by (auto simp: str_header_def bin_header_def ext_header_def array_header_def map_header_def)

text \<open>Any encoded value is skipped exactly, up to the depth limit.\<close>

lemma skip_encoded:
  "encodes n v bs \<Longrightarrow> in_bounds c \<Longrightarrow> rest c = bs @ r \<Longrightarrow> d + n < MAX_DEPTH \<Longrightarrow>
     skip_value c d = Some (adv c (length bs))"
  "encodes_all n vs cs \<Longrightarrow> in_bounds c' \<Longrightarrow> rest c' = cs @ r' \<Longrightarrow> d' + 1 + n < MAX_DEPTH \<Longrightarrow>
     skip_items c' (length vs) d' = Some (adv c' (length cs))"
proof (induction arbitrary: c r d and c' r' d' rule: encodes_encodes_all.inducts)
  case (enc_str s h n)
  then obtain m t where h: "h = m # t" using header_Cons by blast
  with enc_str skip_str [of "adv c 1" s m t r d] show ?case
    by (simp add: skip_value.simps [of c] cursor_byte_rest)
next
  case (enc_bin s h n)
  then obtain m t where h: "h = m # t" using header_Cons by blast
  with enc_bin skip_bin [of "adv c 1" s m t r d] show ?case
    by (simp add: skip_value.simps [of c] cursor_byte_rest)
next
  case (enc_ext s h n ty)
  then obtain m t where h: "h = m # t" using header_Cons by blast
  with enc_ext skip_ext_value [of "adv c 1" s m t ty r d] show ?case
    by (simp add: skip_value.simps [of c] cursor_byte_rest)
next
  case (enc_number bs n)
  then obtain m t where h: "bs = m # t" "number_width m = Some (length t)"
    by (auto simp: number_form_def split: list.splits)
  with enc_number skip_number [of "adv c 1" m t r d] show ?case
    by (simp add: skip_value.simps [of c] cursor_byte_rest)
next
  case (enc_arr vs h n bs)
  then obtain m t where h: "h = m # t" using header_Cons by blast
  with enc_arr skip_array_header [of "adv c 1" "length vs" m t "bs @ r" d]
    enc_arr.IH [of "adv c (1 + length t)" r d] show ?case
    by (simp add: skip_value.simps [of c] cursor_byte_rest)
next
  case (enc_map kvs h n bs)
  then obtain m t where h: "h = m # t" using header_Cons by blast
  with enc_map skip_map_header [of "adv c 1" "length kvs" m t "bs @ r" d]
    enc_map.IH [of "adv c (1 + length t)" r d] show ?case
    by (simp add: skip_value.simps [of c] cursor_byte_rest)
next
  case (enc_all_nil n)
  then show ?case by (simp add: skip_items.simps adv_def)
next
  case (enc_all_cons n v bs vs cs)
  then show ?case
    using enc_all_cons.IH(1) [of c' "cs @ r'" "d' + 1"] enc_all_cons.IH(2) [of "adv c' (length bs)" r' d']
    by (simp add: skip_items.simps [of c'])
qed (simp_all add: skip_value.simps cursor_byte_rest skip_after_marker_table)

section \<open>Reading keys and leaves\<close>

fun is_map :: "mp \<Rightarrow> bool" where
  "is_map (MMap kvs) = True"
| "is_map _ = False"

fun is_str :: "mp \<Rightarrow> bool" where
  "is_str (MStr s) = True"
| "is_str _ = False"

definition is_str_marker :: "u8 \<Rightarrow> bool" where
  "is_str_marker m \<longleftrightarrow> (0xa0 \<le> m \<and> m \<le> 0xbf) \<or> m = 0xd9 \<or> m = 0xda \<or> m = 0xdb"

lemma map_header_marker: "map_header n (m # h) \<Longrightarrow> is_map_marker m \<and> \<not> is_str_marker m"
  by (drule map_header_cases, elim disjE)
    (auto dest!: wide_header_marker simp: is_map_marker_def is_str_marker_def marker_simps
      unat_small_marker [of _ 16])

lemma array_header_marker: "array_header n (m # h) \<Longrightarrow> \<not> is_map_marker m \<and> \<not> is_str_marker m"
  by (drule array_header_cases, elim disjE)
    (auto dest!: wide_header_marker simp: is_map_marker_def is_str_marker_def marker_simps
      unat_small_marker [of _ 16])

lemma str_header_marker: "str_header n (m # h) \<Longrightarrow> \<not> is_map_marker m \<and> is_str_marker m"
  by (drule str_header_cases, elim disjE)
    (auto dest!: wide_header_marker simp: is_map_marker_def is_str_marker_def marker_simps
      unat_small_marker [of _ 32])

lemma bin_header_marker: "bin_header n (m # h) \<Longrightarrow> \<not> is_map_marker m \<and> \<not> is_str_marker m"
  by (drule bin_header_cases, elim disjE)
    (auto dest!: wide_header_marker simp: is_map_marker_def is_str_marker_def marker_simps)

lemma ext_header_marker: "ext_header n (m # h) \<Longrightarrow> \<not> is_map_marker m \<and> \<not> is_str_marker m"
  by (drule ext_header_cases, elim disjE)
    (auto dest!: wide_header_marker simp: is_map_marker_def is_str_marker_def marker_simps)

lemma number_marker: "number_form (m # h) \<Longrightarrow> \<not> is_map_marker m \<and> \<not> is_str_marker m"
  by (auto simp: number_form_def number_width_def is_map_marker_def is_str_marker_def marker_simps
      split: if_splits)

lemma encodes_marker:
  assumes "encodes n v bs"
  shows "\<exists>m t. bs = m # t \<and> (is_map_marker m \<longleftrightarrow> is_map v) \<and> (is_str_marker m \<longleftrightarrow> is_str v)"
  using assms
proof (cases rule: encodes.cases)
  case enc_number
  then show ?thesis using number_marker by (cases bs) (auto simp: number_form_def)
next
  case (enc_str s h)
  then obtain m t where "h = m # t" using header_Cons by blast
  with enc_str str_header_marker show ?thesis by auto
next
  case (enc_bin b h)
  then obtain m t where "h = m # t" using header_Cons by blast
  with enc_bin bin_header_marker show ?thesis by auto
next
  case (enc_ext b h ty)
  then obtain m t where "h = m # t" using header_Cons by blast
  with enc_ext ext_header_marker show ?thesis by auto
next
  case (enc_arr vs h n bs)
  then obtain m t where "h = m # t" using header_Cons by blast
  with enc_arr array_header_marker show ?thesis by auto
next
  case (enc_map kvs h n bs)
  then obtain m t where "h = m # t" using header_Cons by blast
  with enc_map map_header_marker show ?thesis by auto
qed (auto simp: is_map_marker_def is_str_marker_def word_order)

lemma skip_marker_encoded:
  assumes "encodes n v (m # t)" and "in_bounds c" and "rest c = m # t @ r" and "d + n < MAX_DEPTH"
  shows "skip_after_marker (adv c 1) m d = Some (adv c (Suc (length t)))"
  using skip_encoded(1) [OF assms(1,2), of r d] assms(3,4)
  by (simp add: skip_value.simps [of c] cursor_byte_rest)

lemma take_str_rest:
  assumes "in_bounds c" and "rest c = s @ r"
  shows "take_str c (length s) = Some (from_utf8 s, adv c (length s))"
  using assms by (simp add: take_str_def cursor_take_rest)

lemma read_str_header:
  assumes c: "in_bounds c" and hd: "str_header (length s) (m # h)" and r: "rest c = m # h @ s @ r"
  shows "read_string c = Some (from_utf8 s, adv c (length (m # h @ s)))"
    and "read_leaf_key c d =
      Some (map_option (\<lambda>s. query_key (PString s)) (from_utf8 s), adv c (length (m # h @ s)))"
proof -
  let ?c = "adv c 1"
  have b: "in_bounds ?c" "rest ?c = h @ s @ r" using c r by simp_all
  have byte: "cursor_byte c = Some (m, ?c)" using r by (simp add: cursor_byte_rest)
  have ts: "take_str (adv c (Suc (length h))) (length s) = Some (from_utf8 s, adv c (length (m # h @ s)))"
    using take_str_rest [of "adv c (Suc (length h))" s r] c r by simp
  from str_header_cases [OF hd]
  have "read_string c = Some (from_utf8 s, adv c (length (m # h @ s))) \<and> read_leaf_key c d =
      Some (map_option (\<lambda>s. query_key (PString s)) (from_utf8 s), adv c (length (m # h @ s)))"
  proof (elim disjE)
    assume f: "length s < 32 \<and> m = 0xa0 + of_nat (length s) \<and> h = []"
    then have u: "unat m = 160 + length s" by (simp add: unat_small_marker [of _ 32])
    moreover have "unat m mod 32 = length s" using u f by (simp add: mod_add_eq [symmetric])
    ultimately show ?thesis
      using f ts byte by (simp add: read_string_def read_leaf_key_def marker_simps string_key_def)
  next
    assume w: "wide_header 0xd9 m 1 (length s) h"
    from cursor_length_wide [OF b(1) w _ b(2)] wide_header_marker [OF w] ts byte show ?thesis
      by (simp add: read_string_def read_leaf_key_def string_key_def word_order)
  next
    assume w: "wide_header 0xda m 2 (length s) h"
    from cursor_length_wide [OF b(1) w _ b(2)] wide_header_marker [OF w] ts byte show ?thesis
      by (simp add: read_string_def read_leaf_key_def string_key_def word_order)
  next
    assume w: "wide_header 0xdb m 4 (length s) h"
    from cursor_length_wide [OF b(1) w _ b(2)] wide_header_marker [OF w] ts byte show ?thesis
      by (simp add: read_string_def read_leaf_key_def string_key_def word_order)
  qed
  then show "read_string c = Some (from_utf8 s, adv c (length (m # h @ s)))"
    and "read_leaf_key c d =
      Some (map_option (\<lambda>s. query_key (PString s)) (from_utf8 s), adv c (length (m # h @ s)))"
    by simp_all
qed

fun key_text :: "mp \<Rightarrow> string option" where
  "key_text (MStr s) = from_utf8 s"
| "key_text _ = None"

lemma read_string_encoded:
  assumes e: "encodes n k bs" and c: "in_bounds c" and r: "rest c = bs @ r" and n: "n < MAX_DEPTH"
  shows "read_string c = Some (key_text k, adv c (length bs))"
proof (cases "is_str k")
  case True
  then obtain s where k: "k = MStr s" by (cases k) auto
  with e obtain h where h: "str_header (length s) h" "bs = h @ s" by (auto elim: encodes_StrE)
  then obtain m t where "h = m # t" using header_Cons by blast
  with read_str_header(1) [OF c, of s m t r] h r k show ?thesis by simp
next
  case False
  obtain m t where m: "bs = m # t" "\<not> is_str_marker m" using encodes_marker [OF e] False by blast
  from skip_marker_encoded [of n k m t c r 0] e c r n m have
    "skip_after_marker (adv c 1) m 0 = Some (adv c (length bs))" by simp
  moreover have "key_text k = None" using False by (cases k) auto
  ultimately show ?thesis
    using m r by (auto simp: read_string_def cursor_byte_rest is_str_marker_def)
qed

fun leaf_key :: "mp \<Rightarrow> u8 list option" where
  "leaf_key (MBool b) = Some (query_key (PBool b))"
| "leaf_key (MStr s) = map_option (\<lambda>s. query_key (PString s)) (from_utf8 s)"
| "leaf_key (MBin b) = Some (query_key (PBinary b))"
| "leaf_key (MExt ty b) = Some (query_key (PBinary b))"
| "leaf_key _ = None"

definition leaf_marker :: "u8 \<Rightarrow> bool" where
  "leaf_marker m \<longleftrightarrow> m = 0xc0 \<or> m = 0xc2 \<or> m = 0xc3 \<or> (0xa0 \<le> m \<and> m \<le> 0xbf) \<or> (0xd9 \<le> m \<and> m \<le> 0xdb) \<or>
     (0xc4 \<le> m \<and> m \<le> 0xc6) \<or> (0xc7 \<le> m \<and> m \<le> 0xc9) \<or> (0xd4 \<le> m \<and> m \<le> 0xd8)"

lemma read_leaf_skipped:
  assumes "encodes n v (m # t)" and "in_bounds c" and "rest c = m # t @ r" and "d + n < MAX_DEPTH"
    and "\<not> leaf_marker m"
  shows "read_leaf_key c d = Some (None, adv c (length (m # t)))"
proof -
  have "read_leaf_key c d = Option.bind (skip_after_marker (adv c 1) m d) (\<lambda>c. Some (None, c))"
    using assms(3,5) unfolding read_leaf_key_def cursor_byte_rest leaf_marker_def de_Morgan_disj
    by (simp only: list.case bind.bind_lunit prod.case if_False simp_thms)
  then show ?thesis using skip_marker_encoded [OF assms(1-4)] by simp
qed

lemma number_not_leaf: "number_form (m # t) \<Longrightarrow> \<not> leaf_marker m"
  by (auto simp: number_form_def number_width_def leaf_marker_def marker_simps split: if_splits)

lemma array_not_leaf: "array_header n (m # h) \<Longrightarrow> \<not> leaf_marker m"
  by (drule array_header_cases, elim disjE)
    (auto dest!: wide_header_marker simp: leaf_marker_def marker_simps unat_small_marker [of _ 16])

lemma take_binary:
  assumes "in_bounds c" and "rest c = s @ r"
  shows "binary_key (cursor_take c (length s)) = Some (Some (query_key (PBinary s)), adv c (length s))"
  using assms by (simp add: binary_key_def cursor_take_rest)

lemma read_bin_leaf:
  assumes c: "in_bounds c" and hd: "bin_header (length s) (m # h)" and r: "rest c = m # h @ s @ r"
  shows "read_leaf_key c d = Some (Some (query_key (PBinary s)), adv c (length (m # h @ s)))"
proof -
  let ?c = "adv c 1"
  have b: "in_bounds ?c" "rest ?c = h @ s @ r" using c r by simp_all
  have byte: "cursor_byte c = Some (m, ?c)" using r by (simp add: cursor_byte_rest)
  have ts: "binary_key (cursor_take (adv c (Suc (length h))) (length s)) =
      Some (Some (query_key (PBinary s)), adv c (length (m # h @ s)))"
    using take_binary [of "adv c (Suc (length h))" s r] c r by simp
  from bin_header_cases [OF hd] show ?thesis
  proof (elim disjE)
    assume w: "wide_header 0xc4 m 1 (length s) h"
    from cursor_length_wide [OF b(1) w _ b(2)] wide_header_marker [OF w] ts byte show ?thesis
      by (simp add: read_leaf_key_def word_order)
  next
    assume w: "wide_header 0xc5 m 2 (length s) h"
    from cursor_length_wide [OF b(1) w _ b(2)] wide_header_marker [OF w] ts byte show ?thesis
      by (simp add: read_leaf_key_def word_order)
  next
    assume w: "wide_header 0xc6 m 4 (length s) h"
    from cursor_length_wide [OF b(1) w _ b(2)] wide_header_marker [OF w] ts byte show ?thesis
      by (simp add: read_leaf_key_def word_order)
  qed
qed

lemma read_ext_leaf:
  assumes c: "in_bounds c" and hd: "ext_header (length s) (m # h)" and r: "rest c = m # h @ ty # s @ r"
  shows "read_leaf_key c d = Some (Some (query_key (PBinary s)), adv c (length (m # h @ ty # s)))"
proof -
  let ?c = "adv c 1"
  have b: "in_bounds ?c" "rest ?c = h @ ty # s @ r" using c r by simp_all
  have byte: "cursor_byte c = Some (m, ?c)" using r by (simp add: cursor_byte_rest)
  have byte': "cursor_byte (adv c (Suc (length h))) = Some (ty, adv c (Suc (Suc (length h))))"
    using r by (simp add: cursor_byte_rest)
  have ts: "binary_key (cursor_take (adv c (Suc (Suc (length h)))) (length s)) =
      Some (Some (query_key (PBinary s)), adv c (length (m # h @ ty # s)))"
    using take_binary [of "adv c (Suc (Suc (length h)))" s r] c r by simp
  from ext_header_cases [OF hd] show ?thesis
  proof (elim disjE)
    assume w: "wide_header 0xc7 m 1 (length s) h"
    from cursor_length_wide [OF b(1) w _ b(2)] wide_header_marker [OF w] ts byte byte' show ?thesis
      by (simp add: read_leaf_key_def word_order)
  next
    assume w: "wide_header 0xc8 m 2 (length s) h"
    from cursor_length_wide [OF b(1) w _ b(2)] wide_header_marker [OF w] ts byte byte' show ?thesis
      by (simp add: read_leaf_key_def word_order)
  next
    assume w: "wide_header 0xc9 m 4 (length s) h"
    from cursor_length_wide [OF b(1) w _ b(2)] wide_header_marker [OF w] ts byte byte' show ?thesis
      by (simp add: read_leaf_key_def word_order)
  next
    assume f: "h = [] \<and> (m, length s) \<in> {(0xd4, 1), (0xd5, 2), (0xd6, 4), (0xd7, 8), (0xd8, 16)}"
    then have "2 ^ unat (m - 0xd4) = length s" by auto
    with f ts byte byte' show ?thesis
      by (elim conjE insertE emptyE) (simp_all add: read_leaf_key_def word_order)
  qed
qed

lemma read_leaf_encoded:
  assumes e: "encodes n v bs" and c: "in_bounds c" and r: "rest c = bs @ r" and d: "d + n < MAX_DEPTH"
    and leaf: "\<not> is_map v"
  shows "read_leaf_key c d = Some (leaf_key v, adv c (length bs))"
  using e
proof (cases rule: encodes.cases)
  case enc_nil
  then show ?thesis using r by (simp add: read_leaf_key_def cursor_byte_rest)
next
  case (enc_bool b)
  then show ?thesis using r by (simp add: read_leaf_key_def cursor_byte_rest)
next
  case enc_number
  then obtain m t where m: "bs = m # t" by (cases bs) (auto simp: number_form_def)
  with enc_number read_leaf_skipped [of n v m t c r d] e c r d number_not_leaf show ?thesis by simp
next
  case (enc_str s h)
  then obtain m t where "h = m # t" using header_Cons by blast
  with enc_str read_str_header(2) [OF c, of s m t r d] r show ?thesis by simp
next
  case (enc_bin b h)
  then obtain m t where "h = m # t" using header_Cons by blast
  with enc_bin read_bin_leaf [OF c, of b m t r d] r show ?thesis by simp
next
  case (enc_ext b h ty)
  then obtain m t where "h = m # t" using header_Cons by blast
  with enc_ext read_ext_leaf [OF c, of b m t ty r d] r show ?thesis by simp
next
  case (enc_arr vs h n' bs')
  then obtain m t where h: "h = m # t" using header_Cons by blast
  with enc_arr array_not_leaf have "\<not> leaf_marker m" by blast
  with h enc_arr read_leaf_skipped [of n v m "t @ bs'" c r d] e c r d show ?thesis by simp
next
  case (enc_map kvs h n' bs')
  then show ?thesis using leaf by simp
qed

lemma read_map_len_encoded:
  assumes c: "in_bounds c" and hd: "map_header n h" and r: "rest c = h @ r"
  shows "read_map_len c = Some (n, adv c (length h))"
proof -
  obtain m t where h: "h = m # t" using header_Cons(5) [OF hd] by blast
  let ?c = "adv c 1"
  have b: "in_bounds ?c" "rest ?c = t @ r" using c r h by simp_all
  have byte: "cursor_byte c = Some (m, ?c)" using r h by (simp add: cursor_byte_rest)
  from map_header_cases [OF hd [unfolded h]] show ?thesis
  proof (elim disjE)
    assume f: "n < 16 \<and> m = 0x80 + of_nat n \<and> t = []"
    then have u: "unat m = 128 + n" by (simp add: unat_small_marker [of _ 16])
    moreover have "unat m mod 16 = n" using u f by (simp add: mod_add_eq [symmetric])
    ultimately show ?thesis using f byte h by (simp add: read_map_len_def marker_simps)
  next
    assume w: "wide_header 0xde m 2 n t"
    from cursor_length_wide [OF b(1) w _ b(2)] wide_header_marker [OF w] byte h show ?thesis
      by (simp add: read_map_len_def word_order)
  next
    assume w: "wide_header 0xdf m 4 n t"
    from cursor_length_wide [OF b(1) w _ b(2)] wide_header_marker [OF w] byte h show ?thesis
      by (simp add: read_map_len_def word_order)
  qed
qed

section \<open>The first leaf at a path\<close>

text \<open>What the extractor looks for: the first value at the path, in document order, that is no map.\<close>

function find_leaf :: "string list \<Rightarrow> (mp \<times> mp) list \<Rightarrow> mp option" where
  "find_leaf ss [] = None"
| "find_leaf ss ((k, v) # es) =
     (if ss = [] \<or> key_text k \<noteq> Some (hd ss) then find_leaf ss es
      else if tl ss = [] then (if is_map v then find_leaf ss es else Some v)
      else
        case v of
          MMap kvs \<Rightarrow> (case find_leaf (tl ss) kvs of Some x \<Rightarrow> Some x | None \<Rightarrow> find_leaf ss es)
        | _ \<Rightarrow> find_leaf ss es)"
  by pat_completeness auto
termination
  by (relation "measure (\<lambda>(ss, es). size_list (size_prod size size) es)") auto

abbreviation found_leaf :: "mp option \<Rightarrow> found option" where
  "found_leaf \<equiv> map_option (\<lambda>v. Found (leaf_key v))"

lemma scan_entries_encoded:
  assumes "encodes_all n (flat_entries kvs) bs" and "in_bounds c" and "rest c = bs @ r"
    and "d + 1 + n < MAX_DEPTH" and "ss = drop segment segments" and "segment < length segments"
  shows "\<exists>c'. scan_entries (length kvs) c segments segment d = Some (found_leaf (find_leaf ss kvs), c') \<and>
    in_bounds c' \<and> cursor_bytes c' = cursor_bytes c \<and> (find_leaf ss kvs = None \<longrightarrow> c' = adv c (length bs))"
  using assms
proof (induction ss kvs arbitrary: n bs c r d segment rule: find_leaf.induct)
  case (1 ss)
  then have "bs = []" by (auto elim: encodes_all.cases)
  with 1 show ?case by (simp add: scan_entries.simps adv_def)
next
  case (2 ss k v es)
  from "2.prems"(1) obtain kb vb eb where
    kb: "encodes n k kb" and vb: "encodes n v vb" and eb: "encodes_all n (flat_entries es) eb"
    and bs: "bs = kb @ vb @ eb"
    by (auto elim!: encodes_all_ConsE)
  let ?ck = "adv c (length kb)" and ?cv = "adv c (length kb + length vb)"
  have ss: "ss \<noteq> []" "hd ss = segments ! segment" "tl ss = drop (Suc segment) segments"
    using "2.prems"(5,6) by (simp_all add: hd_drop_conv_nth drop_Suc tl_drop)
  have key: "read_string c = Some (key_text k, ?ck)"
    using read_string_encoded [OF kb "2.prems"(2), of "vb @ eb @ r"] "2.prems"(3,4) bs by simp
  have ck: "in_bounds ?ck" "rest ?ck = vb @ eb @ r" and cv: "in_bounds ?cv" "rest ?cv = eb @ r"
    using "2.prems"(2,3) bs by simp_all
  have skip: "skip_value ?ck (d + 1) = Some ?cv"
    using skip_encoded(1) [OF vb ck, of "d + 1"] "2.prems"(4) by simp
  have len: "length bs = length kb + length vb + length eb" using bs by simp
  have peek: "(case cursor_peek ?ck of None \<Rightarrow> False | Some b \<Rightarrow> is_map_marker b) = is_map v"
    using encodes_marker [OF vb] ck(2) by (auto simp: cursor_peek_rest)
  have unfold: "scan_entries (length ((k, v) # es)) c segments segment d =
     (if key_text k \<noteq> Some (hd ss) then scan_entries (length es) ?cv segments segment d
      else if tl ss \<noteq> [] then
        if is_map v then
          Option.bind (scan_map ?ck segments (segment + 1) (d + 1)) (\<lambda>(found, c).
            case found of Some f \<Rightarrow> Some (Some f, c)
            | None \<Rightarrow> scan_entries (length es) c segments segment d)
        else scan_entries (length es) ?cv segments segment d
      else if is_map v then scan_entries (length es) ?cv segments segment d
      else Option.bind (read_leaf_key ?ck (d + 1)) (\<lambda>(key, c). Some (Some (Found key), c)))"
    using key skip peek ss by (simp add: scan_entries.simps [of "Suc (length es)"] Let_def cong: option.case_cong)
  show ?case
  proof (cases "key_text k = Some (hd ss)")
    case False
    then have "ss = [] \<or> key_text k \<noteq> Some (hd ss)" by simp
    from "2.IH"(1) [OF this eb cv "2.prems"(4-6)] False ss unfold len show ?thesis by (simp add: add.assoc)
  next
    case k: True
    then have nk: "\<not> (ss = [] \<or> key_text k \<noteq> Some (hd ss))" using ss by simp
    show ?thesis
    proof (cases "tl ss = []")
      case last: True
      show ?thesis
      proof (cases "is_map v")
        case True
        from "2.IH"(2) [OF nk last True eb cv "2.prems"(4-6)] True k last ss unfold len show ?thesis
          by (simp add: add.assoc)
      next
        case False
        from read_leaf_encoded [OF vb ck, of "d + 1"] False "2.prems"(4) have
          "read_leaf_key ?ck (d + 1) = Some (leaf_key v, ?cv)" by simp
        with False k last ss unfold cv(1) show ?thesis by simp
      qed
    next
      case more: False
      show ?thesis
      proof (cases v)
        case (MMap kvs)
        with vb obtain h mb m where mb: "n = Suc m" "map_header (length kvs) h"
            "encodes_all m (flat_entries kvs) mb" "vb = h @ mb"
          by (auto elim!: encodes_MapE)
        have seg: "Suc segment < length segments" using more ss(3) by simp
        let ?ch = "adv c (length kb + length h)"
        have ch: "in_bounds ?ch" "rest ?ch = mb @ eb @ r"
          using "2.prems"(2,3) bs mb(4) by simp_all
        have "read_map_len ?ck = Some (length kvs, ?ch)"
          using read_map_len_encoded [OF ck(1) mb(2), of "mb @ eb @ r"] ck(2) mb(4) by simp
        then have map: "scan_map ?ck segments (segment + 1) (d + 1) =
            scan_entries (length kvs) ?ch segments (segment + 1) (d + 1)"
          using "2.prems"(4) by (simp add: scan_map.simps [of ?ck])
        from "2.IH"(10) [OF nk more MMap mb(3) ch, of "d + 1" "segment + 1"] ss seg mb(1) "2.prems"(4)
        obtain c1 where c1: "scan_entries (length kvs) ?ch segments (segment + 1) (d + 1) =
            Some (found_leaf (find_leaf (tl ss) kvs), c1)" "in_bounds c1" "cursor_bytes c1 = cursor_bytes c"
            "find_leaf (tl ss) kvs = None \<longrightarrow> c1 = adv ?ch (length mb)" by auto
        show ?thesis
        proof (cases "find_leaf (tl ss) kvs")
          case None
          with c1 mb(4) have "c1 = ?cv" by (simp add: add.assoc)
          with "2.IH"(11) [OF nk more MMap None eb cv "2.prems"(4-6)] None k ss more MMap map c1 unfold len
          show ?thesis by (simp add: add.assoc)
        next
          case (Some x)
          with k ss more MMap map c1 unfold show ?thesis by simp
        qed
      qed (use "2.IH"(3-9) [OF nk more _ eb cv "2.prems"(4-6)] k ss more unfold len in \<open>simp_all add: add.assoc\<close>)
    qed
  qed
qed

lemma scan_map_encoded:
  assumes "encodes n (MMap kvs) bs" and "in_bounds c" and "rest c = bs @ r" and "d + n < MAX_DEPTH"
    and "segment < length segments"
  shows "\<exists>c'. scan_map c segments segment d = Some (found_leaf (find_leaf (drop segment segments) kvs), c') \<and>
    in_bounds c' \<and> cursor_bytes c' = cursor_bytes c"
proof -
  from assms(1) obtain h mb m where mb: "n = Suc m" "map_header (length kvs) h"
      "encodes_all m (flat_entries kvs) mb" "bs = h @ mb"
    by (auto elim!: encodes_MapE)
  let ?ch = "adv c (length h)"
  have ch: "in_bounds ?ch" "rest ?ch = mb @ r" using assms(2,3) mb(4) by simp_all
  have "read_map_len c = Some (length kvs, ?ch)"
    using read_map_len_encoded [OF assms(2) mb(2), of "mb @ r"] assms(3) mb(4) by simp
  then have "scan_map c segments segment d = scan_entries (length kvs) ?ch segments segment d"
    using assms(4) by (simp add: scan_map.simps [of c])
  with scan_entries_encoded [OF mb(3) ch _ refl assms(5), of d] assms(4) mb(1) show ?thesis by auto
qed

lemma extract_key_find:
  assumes "encodes n (MMap kvs) bs" and "n < MAX_DEPTH"
    and "valid_field_path field" and "\<not> under_header_path field"
  shows "extract_key (bs @ trailing) field = Option.bind (find_leaf (segments_of field) kvs) leaf_key"
proof -
  let ?c = "cursor_new (bs @ trailing)"
  have "in_bounds ?c" "rest ?c = bs @ trailing" by (simp_all add: in_bounds_def rest_def cursor_new_def)
  from scan_map_encoded [OF assms(1) this, of 0 0 "segments_of field"] assms(2)
  obtain c' where c': "scan_map ?c (segments_of field) 0 0 =
      Some (found_leaf (find_leaf (segments_of field) kvs), c')" "in_bounds c'" "cursor_bytes c' = cursor_bytes ?c"
    by auto
  have "cursor_bytes c' = bs @ trailing" using c'(3) by (simp add: cursor_new_def)
  with c' assms(3,4) show ?thesis
    by (cases "find_leaf (segments_of field) kvs") (auto simp: extract_key_def Let_def in_bounds_def)
qed

section \<open>Properties\<close>

text \<open>
  C18. The extractor reads MessagePack right. On every payload that encodes a map within the depth
  limit, with any header widths, any values and any bytes after it, the index key of a valid field
  that the header does not reserve is the key of the first value at that path, in document order,
  that is not itself a map, and nothing if there is no such value or it has no key.
\<close>

theorem extract_key_exact:
  assumes "encodes n (MMap kvs) bs" and "n < MAX_DEPTH"
    and "valid_field_path field" and "\<not> under_header_path field"
  shows "extract_key (bs @ trailing) field = Option.bind (find_leaf (segments_of field) kvs) leaf_key"
  using assms by (rule extract_key_find)

theorem extract_key_exact_witness:
  "encodes 1 (MMap [(MStr (as_bytes ''n''), MStr (as_bytes ''X''))]) [0x81, 0xa1, 0x6e, 0xa1, 0x58] \<and>
   extract_key ([0x81, 0xa1, 0x6e, 0xa1, 0x58] @ []) ''n'' = Some (query_key (PString ''X''))"
proof -
  have n: "encodes 0 (MStr [0x6e]) ([0xa1] @ [0x6e])" and x: "encodes 0 (MStr [0x58]) ([0xa1] @ [0x58])"
    by (rule enc_str, simp add: str_header_def)+
  have "encodes_all 0 (flat_entries [(MStr [0x6e], MStr [0x58])])
      (([0xa1] @ [0x6e]) @ ([0xa1] @ [0x58]) @ [])"
    unfolding flat_entries_simps by (intro enc_all_cons enc_all_nil n x)
  then have "encodes (Suc 0) (MMap [(MStr [0x6e], MStr [0x58])])
      ([0x81] @ (([0xa1] @ [0x6e]) @ ([0xa1] @ [0x58]) @ []))"
    by (intro enc_map) (simp_all add: map_header_def)
  then have e: "encodes 1 (MMap [(MStr (as_bytes ''n''), MStr (as_bytes ''X''))]) [0x81, 0xa1, 0x6e, 0xa1, 0x58]"
    by (simp add: byte_of_def)
  have v: "valid_field_path ''n''" and h: "\<not> under_header_path ''n''"
    by (simp_all add: valid_field_path_def valid_segment_def is_ascii_alphabetic_def is_ascii_lowercase_def
        under_header_path_def HEADER_FIELDS_def strip_prefix_def)
  have u: "from_utf8 [0x6e] = Some ''n''" "from_utf8 [0x58] = Some ''X''"
    by (simp_all add: from_utf8_Some byte_of_def word_order)
  from extract_key_exact [OF e _ v h, of "[]"] e u show ?thesis
    by (simp add: MAX_DEPTH_def byte_of_def)
qed

end
