(* ===== verification/Comparison.thy ===== *)
theory Comparison
  imports Prelude
begin

text \<open>
  Three-way comparison as the sources use it: \<^verbatim>\<open>core::cmp::Ordering\<close> with \<^verbatim>\<open>reverse\<close> and \<^verbatim>\<open>then\<close>,
  the comparison of a linear order, and lexicographic comparison. The locale states what a
  comparison function promises to a sort (a total preorder), and derives from it that the
  lexicographic extension, the pull-back along a key and the refinement by a second comparison keep
  the promise.
\<close>

datatype ordering = Less | Equal | Greater

fun reverse :: "ordering \<Rightarrow> ordering" where
  "reverse Less = Greater"
| "reverse Equal = Equal"
| "reverse Greater = Less"

fun then_with :: "ordering \<Rightarrow> ordering \<Rightarrow> ordering" where
  "then_with Equal b = b"
| "then_with a b = a"

lemma reverse_reverse [simp]: "reverse (reverse a) = a"
  by (cases a) simp_all

lemma reverse_eq_iff [simp]:
  "reverse a = Less \<longleftrightarrow> a = Greater" "reverse a = Equal \<longleftrightarrow> a = Equal" "reverse a = Greater \<longleftrightarrow> a = Less"
  by (cases a; simp)+

lemma reverse_then_with [simp]: "reverse (then_with a b) = then_with (reverse a) (reverse b)"
  by (cases a) simp_all

lemma then_with_eq_Equal [simp]: "then_with a b = Equal \<longleftrightarrow> a = Equal \<and> b = Equal"
  by (cases a) simp_all

definition cmp_ord :: "'a::linorder \<Rightarrow> 'a \<Rightarrow> ordering" where
  "cmp_ord x y = (if x < y then Less else if x = y then Equal else Greater)"

fun lex_cmp :: "('a \<Rightarrow> 'a \<Rightarrow> ordering) \<Rightarrow> 'a list \<Rightarrow> 'a list \<Rightarrow> ordering" where
  "lex_cmp cmp [] [] = Equal"
| "lex_cmp cmp [] (y # ys) = Less"
| "lex_cmp cmp (x # xs) [] = Greater"
| "lex_cmp cmp (x # xs) (y # ys) = then_with (cmp x y) (lex_cmp cmp xs ys)"

text \<open>
  What \<^verbatim>\<open>sort_by\<close> needs of the comparison on the elements of a set: swapping the arguments reverses
  the answer, and ``not greater'' is transitive.
\<close>

locale comparison =
  fixes cmp :: "'a \<Rightarrow> 'a \<Rightarrow> ordering" and ok :: "'a \<Rightarrow> bool"
  assumes swap: "ok x \<Longrightarrow> ok y \<Longrightarrow> cmp y x = reverse (cmp x y)"
    and trans: "ok x \<Longrightarrow> ok y \<Longrightarrow> ok z \<Longrightarrow> cmp x y \<noteq> Greater \<Longrightarrow> cmp y z \<noteq> Greater \<Longrightarrow> cmp x z \<noteq> Greater"
begin

lemma refl: "ok x \<Longrightarrow> cmp x x = Equal"
  using swap [of x x] by (cases "cmp x x") simp_all

lemma trans_Less_le:
  assumes "ok x" "ok y" "ok z" and "cmp x y = Less" and "cmp y z \<noteq> Greater"
  shows "cmp x z = Less"
proof (rule ccontr)
  assume n: "cmp x z \<noteq> Less"
  have "cmp x z \<noteq> Greater" using trans [OF assms(1-3)] assms(4,5) by simp
  with n have "cmp z x = Equal" using swap [OF assms(1,3)] by (cases "cmp x z") simp_all
  then have "cmp y x \<noteq> Greater" using trans [OF assms(2,3,1)] assms(5) by simp
  with swap [OF assms(1,2)] assms(4) show False by simp
qed

lemma trans_le_Less:
  assumes "ok x" "ok y" "ok z" and "cmp x y \<noteq> Greater" and "cmp y z = Less"
  shows "cmp x z = Less"
proof (rule ccontr)
  assume n: "cmp x z \<noteq> Less"
  have "cmp x z \<noteq> Greater" using trans [OF assms(1-3)] assms(4,5) by simp
  with n have "cmp z x = Equal" using swap [OF assms(1,3)] by (cases "cmp x z") simp_all
  then have "cmp z y \<noteq> Greater" using trans [OF assms(3,1,2)] assms(4) by simp
  with swap [OF assms(2,3)] assms(5) show False by simp
qed

lemma trans_Equal:
  assumes "ok x" "ok y" "ok z" and "cmp x y = Equal" and "cmp y z = Equal"
  shows "cmp x z = Equal"
proof -
  have "cmp x z \<noteq> Greater" using trans [OF assms(1-3)] assms(4,5) by simp
  moreover have "cmp z x \<noteq> Greater"
    using trans [OF assms(3,2,1)] assms(4,5) swap [OF assms(1,2)] swap [OF assms(2,3)] by simp
  ultimately show ?thesis using swap [OF assms(1,3)] by (cases "cmp x z") simp_all
qed

lemma lex_swap:
  "list_all ok xs \<Longrightarrow> list_all ok ys \<Longrightarrow> lex_cmp cmp ys xs = reverse (lex_cmp cmp xs ys)"
proof (induction xs arbitrary: ys)
  case Nil
  then show ?case by (cases ys) simp_all
next
  case (Cons x xs)
  then show ?case by (cases ys) (simp_all add: swap [of x])
qed

lemma Equal_between:
  assumes "ok x" "ok y" "ok z" and "cmp x y \<noteq> Greater" and "cmp y z \<noteq> Greater" and "cmp x z = Equal"
  shows "cmp x y = Equal \<and> cmp y z = Equal"
proof -
  have "cmp x y \<noteq> Less" using trans_Less_le [OF assms(1-3) _ assms(5)] assms(6) by auto
  moreover have "cmp y z \<noteq> Less" using trans_le_Less [OF assms(1-4)] assms(6) by auto
  ultimately show ?thesis using assms(4,5) by (metis ordering.exhaust)
qed

lemma lex_trans:
  "list_all ok xs \<Longrightarrow> list_all ok ys \<Longrightarrow> list_all ok zs \<Longrightarrow>
     lex_cmp cmp xs ys \<noteq> Greater \<Longrightarrow> lex_cmp cmp ys zs \<noteq> Greater \<Longrightarrow> lex_cmp cmp xs zs \<noteq> Greater"
proof (induction xs arbitrary: ys zs)
  case Nil
  then show ?case by (cases zs) simp_all
next
  case (Cons x xs)
  then obtain y ys' where ys: "ys = y # ys'" by (cases ys) simp_all
  with Cons.prems obtain z zs' where zs: "zs = z # zs'" by (cases zs) simp_all
  have d: "ok x" "ok y" "ok z" using Cons.prems ys zs by simp_all
  have le: "cmp x y \<noteq> Greater" "cmp y z \<noteq> Greater"
    using Cons.prems(4,5) ys zs by (cases "cmp x y"; cases "cmp y z"; simp)+
  show ?case
  proof (cases "cmp x z = Equal")
    case False
    with trans [OF d le] show ?thesis using zs by (cases "cmp x z") simp_all
  next
    case True
    with Equal_between [OF d le] have "cmp x y = Equal" "cmp y z = Equal" by simp_all
    with Cons.IH [of ys' zs'] Cons.prems ys zs True show ?thesis by simp
  qed
qed

end

interpretation linear: comparison cmp_ord "\<lambda>_ :: 'a::linorder. True"
  by unfold_locales (auto simp: cmp_ord_def split: if_splits)

lemma cmp_ord_Equal [simp]: "cmp_ord x y = Equal \<longleftrightarrow> x = y"
  by (auto simp: cmp_ord_def)

lemma lex_cmp_Equal:
  "(\<And>x y. x \<in> set xs \<Longrightarrow> y \<in> set ys \<Longrightarrow> cmp x y = Equal \<longleftrightarrow> x = y) \<Longrightarrow> lex_cmp cmp xs ys = Equal \<longleftrightarrow> xs = ys"
  by (induction cmp xs ys rule: lex_cmp.induct) simp_all

text \<open>The lexicographic extension of a comparison is one; so are key pull-backs and refinements.\<close>

lemma comparison_lex:
  assumes "comparison cmp ok"
  shows "comparison (lex_cmp cmp) (list_all ok)"
  by unfold_locales (blast intro: comparison.lex_swap [OF assms] dest: comparison.lex_trans [OF assms])+

lemma comparison_key:
  assumes "comparison cmp ok"
  shows "comparison (\<lambda>x y. cmp (key x) (key y)) (\<lambda>x. ok (key x))"
  using assms unfolding comparison_def by blast

lemma comparison_then:
  assumes c1: "comparison c1 ok" and c2: "comparison c2 ok"
  shows "comparison (\<lambda>x y. then_with (c1 x y) (c2 x y)) ok"
proof
  fix x y
  assume "ok x" "ok y"
  then show "then_with (c1 y x) (c2 y x) = reverse (then_with (c1 x y) (c2 x y))"
    using comparison.swap [OF c1, of x y] comparison.swap [OF c2, of x y] by simp
next
  fix x y z
  assume d: "ok x" "ok y" "ok z"
    and le: "then_with (c1 x y) (c2 x y) \<noteq> Greater" "then_with (c1 y z) (c2 y z) \<noteq> Greater"
  have le1: "c1 x y \<noteq> Greater" "c1 y z \<noteq> Greater" using le by (cases "c1 x y"; cases "c1 y z"; simp)+
  show "then_with (c1 x z) (c2 x z) \<noteq> Greater"
  proof (cases "c1 x z = Equal")
    case True
    from comparison.Equal_between [OF c1 d le1 True] le comparison.trans [OF c2 d] True
    show ?thesis by simp
  next
    case False
    with comparison.trans [OF c1 d le1] show ?thesis by (cases "c1 x z") simp_all
  qed
qed

end
