(* ===== verification/Query_Value.thy ===== *)
theory Query_Value
  imports Comparison Field "HOL-Library.Log_Nat"
begin

unbundle bit_operations_syntax

text \<open>
  Query-language values (\<^verbatim>\<open>eventd/src/query/value.rs\<close>): equality and ordering across numeric types,
  ASCII-folded text, and the flattening of an event payload into fields. An \<^verbatim>\<open>f64\<close> is its 64-bit
  pattern, read by \<open>fval\<close> as an exact rational; the conversion \<^verbatim>\<open>as f64\<close> of an integer rounds to
  nearest, ties to even. Decoding and encoding MessagePack belongs to another crate: the decoder is
  an argument. The text that derived \<^verbatim>\<open>Debug\<close> formatting gives a map, used only to order two maps,
  is an argument of the comparison too.
\<close>

section \<open>Floating-point numbers\<close>

type_synonym f64 = "64 word"
type_synonym i64 = "64 word"

definition f64_negative :: "f64 \<Rightarrow> bool" where
  "f64_negative w \<longleftrightarrow> bit w 63"

definition f64_exponent :: "f64 \<Rightarrow> nat" where
  "f64_exponent w = unat (drop_bit 52 w) mod 2048"

definition f64_mantissa :: "f64 \<Rightarrow> nat" where
  "f64_mantissa w = unat w mod 2 ^ 52"

definition f64_is_nan :: "f64 \<Rightarrow> bool" where
  "f64_is_nan w \<longleftrightarrow> f64_exponent w = 2047 \<and> f64_mantissa w \<noteq> 0"

definition f64_is_infinite :: "f64 \<Rightarrow> bool" where
  "f64_is_infinite w \<longleftrightarrow> f64_exponent w = 2047 \<and> f64_mantissa w = 0"

definition magnitude :: "f64 \<Rightarrow> rat" where
  "magnitude w =
     (if f64_exponent w = 0 then of_nat (f64_mantissa w) / 2 ^ 1074
      else of_nat (2 ^ 52 + f64_mantissa w) * 2 ^ f64_exponent w / 2 ^ 1075)"

definition fval :: "f64 \<Rightarrow> rat" where
  "fval w = (if f64_negative w then - magnitude w else magnitude w)"

text \<open>An extended number: minus infinity, a rational, plus infinity.\<close>

datatype ext = MInf | Fin rat | PInf

definition ext_of_f64 :: "f64 \<Rightarrow> ext" where
  "ext_of_f64 w =
     (if f64_is_infinite w then (if f64_negative w then MInf else PInf) else Fin (fval w))"

fun ext_cmp :: "ext \<Rightarrow> ext \<Rightarrow> ordering" where
  "ext_cmp (Fin a) (Fin b) = cmp_ord a b"
| "ext_cmp MInf MInf = Equal"
| "ext_cmp PInf PInf = Equal"
| "ext_cmp MInf _ = Less"
| "ext_cmp _ MInf = Greater"
| "ext_cmp PInf _ = Greater"
| "ext_cmp _ PInf = Less"

definition f64_partial_cmp :: "f64 \<Rightarrow> f64 \<Rightarrow> ordering option" where
  "f64_partial_cmp a b =
     (if f64_is_nan a \<or> f64_is_nan b then None else Some (ext_cmp (ext_of_f64 a) (ext_of_f64 b)))"

text \<open>\<^verbatim>\<open>trunc\<close>, towards zero, and the conversion of an integer, to nearest with ties to even.\<close>

definition rat_trunc :: "rat \<Rightarrow> int" where
  "rat_trunc r = (if 0 \<le> r then \<lfloor>r\<rfloor> else \<lceil>r\<rceil>)"

definition round_nat_f64 :: "nat \<Rightarrow> nat" where
  "round_nat_f64 n =
     (let k = floorlog 2 n - 53; q = n div 2 ^ k; r = n mod 2 ^ k in
      if 2 ^ k < 2 * r \<or> (2 ^ k = 2 * r \<and> odd q) then (q + 1) * 2 ^ k else q * 2 ^ k)"

definition int_as_f64 :: "int \<Rightarrow> rat" where
  "int_as_f64 i = (if 0 \<le> i then of_nat (round_nat_f64 (nat i)) else - of_nat (round_nat_f64 (nat (- i))))"

section \<open>Values\<close>

datatype qvalue =
    Null
  | Bool bool
  | Signed i64
  | Unsigned u64
  | Float f64
  | String string
  | Binary "u8 list"
  | Array "qvalue list"
  | Map "(qvalue \<times> qvalue) list"

fun kind :: "qvalue \<Rightarrow> nat" where
  "kind Null = 0"
| "kind (Bool _) = 1"
| "kind (Signed _) = 2"
| "kind (Unsigned _) = 2"
| "kind (Float _) = 2"
| "kind (String _) = 3"
| "kind (Binary _) = 4"
| "kind (Array _) = 5"
| "kind (Map _) = 6"

fun is_nan :: "qvalue \<Rightarrow> bool" where
  "is_nan (Float number) = f64_is_nan number"
| "is_nan _ = False"

fun is_number :: "qvalue \<Rightarrow> bool" where
  "is_number (Signed _) = True"
| "is_number (Unsigned _) = True"
| "is_number (Float _) = True"
| "is_number _ = False"

definition compare_i64_u64 :: "i64 \<Rightarrow> u64 \<Rightarrow> ordering" where
  "compare_i64_u64 s u = (if sint s < 0 then Less else cmp_ord (uint s) (uint u))"

text \<open>The comparison with \<^verbatim>\<open>i64::MIN as f64\<close> and with \<open>2 ^ 63\<close>, and the truncation in between.\<close>

definition ext_less :: "ext \<Rightarrow> rat \<Rightarrow> bool" where
  "ext_less a r \<longleftrightarrow> ext_cmp a (Fin r) = Less"

definition compare_i64_float :: "i64 \<Rightarrow> f64 \<Rightarrow> ordering" where
  "compare_i64_float integer float =
     (if ext_less (ext_of_f64 float) (- (2 ^ 63)) then Greater
      else if \<not> ext_less (ext_of_f64 float) (2 ^ 63) then Less
      else
        let truncated = rat_trunc (fval float) in
        case cmp_ord (sint integer) truncated of
          Equal \<Rightarrow> ext_cmp (Fin (int_as_f64 (sint integer))) (ext_of_f64 float)
        | res \<Rightarrow> res)"

definition compare_u64_float :: "u64 \<Rightarrow> f64 \<Rightarrow> ordering" where
  "compare_u64_float integer float =
     (if ext_less (ext_of_f64 float) 0 then Greater
      else if \<not> ext_less (ext_of_f64 float) (2 ^ 64) then Less
      else
        let truncated = rat_trunc (fval float) in
        case cmp_ord (uint integer) truncated of
          Equal \<Rightarrow> ext_cmp (Fin (int_as_f64 (uint integer))) (ext_of_f64 float)
        | res \<Rightarrow> res)"

fun numeric_match :: "qvalue \<Rightarrow> qvalue \<Rightarrow> ordering option" where
  "numeric_match (Signed a) (Signed b) = Some (cmp_ord (sint a) (sint b))"
| "numeric_match (Unsigned a) (Unsigned b) = Some (cmp_ord (uint a) (uint b))"
| "numeric_match (Signed a) (Unsigned b) = Some (compare_i64_u64 a b)"
| "numeric_match (Unsigned a) (Signed b) = Some (reverse (compare_i64_u64 b a))"
| "numeric_match (Float a) (Float b) = f64_partial_cmp a b"
| "numeric_match (Signed a) (Float b) = Some (compare_i64_float a b)"
| "numeric_match (Float a) (Signed b) = Some (reverse (compare_i64_float b a))"
| "numeric_match (Unsigned a) (Float b) = Some (compare_u64_float a b)"
| "numeric_match (Float a) (Unsigned b) = Some (reverse (compare_u64_float b a))"
| "numeric_match _ _ = None"

definition numeric_cmp :: "qvalue \<Rightarrow> qvalue \<Rightarrow> ordering option" where
  "numeric_cmp left right =
     (if is_nan left \<or> is_nan right
      then if is_number left \<and> is_number right
           then Some (cmp_ord (is_nan left) (is_nan right)) else None
      else numeric_match left right)"

text \<open>Text is compared folded first and then byte by byte.\<close>

definition fold_char :: "char \<Rightarrow> char" where
  "fold_char c = to_ascii_lowercase c"

definition ascii_cmp :: "string \<Rightarrow> string \<Rightarrow> ordering" where
  "ascii_cmp left right =
     then_with
       (lex_cmp cmp_ord (map (\<lambda>c. code (fold_char c)) left) (map (\<lambda>c. code (fold_char c)) right))
       (lex_cmp cmp_ord (map (\<lambda>c. code c) left) (map (\<lambda>c. code c) right))"

definition ascii_equal :: "string \<Rightarrow> string \<Rightarrow> bool" where
  "ascii_equal left right \<longleftrightarrow>
     length left = length right \<and> list_all (\<lambda>(l, r). fold_char l = fold_char r) (zip left right)"

text \<open>
  Equality. The element loops over \<^verbatim>\<open>zip\<close> are functions of their own; they stop at the shorter list.
\<close>

function language_equal :: "qvalue \<Rightarrow> qvalue \<Rightarrow> bool"
  and all_equal :: "qvalue list \<Rightarrow> qvalue list \<Rightarrow> bool"
  and entries_equal :: "(qvalue \<times> qvalue) list \<Rightarrow> (qvalue \<times> qvalue) list \<Rightarrow> bool" where
  "language_equal left right =
     (case numeric_cmp left right of
        Some res \<Rightarrow> res = Equal
      | None \<Rightarrow>
          (case (left, right) of
             (Null, Null) \<Rightarrow> True
           | (Bool l, Bool r) \<Rightarrow> l = r
           | (String l, String r) \<Rightarrow> ascii_equal l r
           | (Binary l, Binary r) \<Rightarrow> l = r
           | (Array l, Array r) \<Rightarrow> length l = length r \<and> all_equal l r
           | (Map l, Map r) \<Rightarrow> length l = length r \<and> entries_equal l r
           | _ \<Rightarrow> False))"
| "all_equal [] ys = True"
| "all_equal (x # xs) ys = (case ys of [] \<Rightarrow> True | y # ys' \<Rightarrow> language_equal x y \<and> all_equal xs ys')"
| "entries_equal [] ys = True"
| "entries_equal ((k, v) # xs) ys =
     (case ys of
        [] \<Rightarrow> True
      | (k', v') # ys' \<Rightarrow> (language_equal k k' \<and> language_equal v v') \<and> entries_equal xs ys')"
  by pat_completeness auto
termination
  by (relation "measure (\<lambda>x. case x of
        Inl (l, r) \<Rightarrow> size l
      | Inr (Inl (l, r)) \<Rightarrow> size_list size l
      | Inr (Inr (l, r)) \<Rightarrow> size_list (size_prod size size) l)") auto

declare language_equal.simps [simp del]

text \<open>
  Ordering. \<open>debug\<close> is the text derived \<^verbatim>\<open>Debug\<close> gives the entries of a map.
\<close>

function language_cmp :: "((qvalue \<times> qvalue) list \<Rightarrow> string) \<Rightarrow> qvalue \<Rightarrow> qvalue \<Rightarrow> ordering"
  and compare_arrays :: "((qvalue \<times> qvalue) list \<Rightarrow> string) \<Rightarrow> qvalue list \<Rightarrow> qvalue list \<Rightarrow> ordering" where
  "language_cmp debug left right =
     (case numeric_cmp left right of
        Some res \<Rightarrow> res
      | None \<Rightarrow>
          if kind left \<noteq> kind right then cmp_ord (kind left) (kind right)
          else
            (case (left, right) of
               (Bool l, Bool r) \<Rightarrow> cmp_ord l r
             | (String l, String r) \<Rightarrow> ascii_cmp l r
             | (Binary l, Binary r) \<Rightarrow> lex_cmp cmp_ord l r
             | (Array l, Array r) \<Rightarrow> compare_arrays debug l r
             | (Map l, Map r) \<Rightarrow> lex_cmp cmp_ord (map (\<lambda>c. code c) (debug l)) (map (\<lambda>c. code c) (debug r))
             | _ \<Rightarrow> Equal))"
| "compare_arrays debug [] ys = cmp_ord 0 (length ys)"
| "compare_arrays debug (x # xs) ys =
     (case ys of
        [] \<Rightarrow> cmp_ord (length (x # xs)) 0
      | y # ys' \<Rightarrow>
          let res = language_cmp debug x y in
          if res \<noteq> Equal then res else compare_arrays debug xs ys')"
  by pat_completeness auto
termination
  by (relation "measure (\<lambda>x. case x of Inl (d, l, r) \<Rightarrow> size l | Inr (d, l, r) \<Rightarrow> size_list size l)") auto

declare language_cmp.simps [simp del]

section \<open>Flattening\<close>

text \<open>A record is a map from field to value; only membership and lookup matter to flattening.\<close>

type_synonym fields = "string \<Rightarrow> qvalue option"

function flatten_entries :: "(qvalue \<times> qvalue) list \<Rightarrow> string \<Rightarrow> fields \<Rightarrow> fields" where
  "flatten_entries [] pre record = record"
| "flatten_entries ((key, val) # entries) pre record =
     flatten_entries entries pre
       (case key of
          String segment \<Rightarrow>
            if \<not> valid_segment segment then record
            else
              let path = (if pre = [] then segment else pre @ CHR ''.'' # segment) in
              if header_column path \<noteq> None \<or> record path \<noteq> None then record
              else
                (case val of
                   Map children \<Rightarrow> flatten_entries children path record
                 | _ \<Rightarrow> record(path \<mapsto> val))
        | _ \<Rightarrow> record)"
  by pat_completeness auto
termination
  by (relation "measure (\<lambda>(es, p, r). size_list (size_prod size size) es)") auto

definition flatten_event_payload :: "(u8 list \<Rightarrow> 'e + qvalue) \<Rightarrow> u8 list \<Rightarrow> fields \<Rightarrow> fields" where
  "flatten_event_payload decode payload record =
     (case decode payload of
        Ok (Map entries) \<Rightarrow> flatten_entries entries [] record
      | _ \<Rightarrow> record)"

definition guid_string :: "u8 list \<Rightarrow> string option" where
  "guid_string bytes =
     (if length bytes \<noteq> 16 then None
      else
        let g = swap_fields bytes in
        Some (''{'' @ hex2 (g ! 0) @ hex2 (g ! 1) @ hex2 (g ! 2) @ hex2 (g ! 3) @ ''-'' @
          hex2 (g ! 4) @ hex2 (g ! 5) @ ''-'' @ hex2 (g ! 6) @ hex2 (g ! 7) @ ''-'' @
          hex2 (g ! 8) @ hex2 (g ! 9) @ ''-'' @ hex2 (g ! 10) @ hex2 (g ! 11) @ hex2 (g ! 12) @
          hex2 (g ! 13) @ hex2 (g ! 14) @ hex2 (g ! 15) @ ''}''))"

text \<open>It is the text a boot identifier prints as.\<close>

lemma guid_string_canonical: "length g = 16 \<Longrightarrow> guid_string g = Some (canonical g)"
  by (simp add: guid_string_def canonical_def unbraced_def Let_def)

section \<open>Numbers are compared exactly\<close>

lemma floorlog_bound: "0 < n \<Longrightarrow> 2 ^ (floorlog 2 n - 1) \<le> n \<and> n < 2 ^ floorlog 2 n"
  using floorlog_bounds [of n 2] by simp

lemma round_nat_f64_exact:
  assumes "n = m * 2 ^ e" and "m < 2 ^ 53"
  shows "round_nat_f64 n = n"
proof (cases "n = 0")
  case True
  then show ?thesis by (simp add: round_nat_f64_def Let_def)
next
  case False
  have "n < 2 ^ (53 + e)" using assms by (simp add: power_add)
  moreover have "2 ^ (floorlog 2 n - 1) \<le> n" using floorlog_bound False by simp
  ultimately have "floorlog 2 n - 1 < 53 + e"
    by (meson le_less_trans power_strict_increasing_iff one_less_numeral_iff semiring_norm(76))
  then have "floorlog 2 n - 53 \<le> e" by simp
  then have "2 ^ (floorlog 2 n - 53) dvd n"
    unfolding assms(1) by (meson dvd_mult le_imp_power_dvd)
  then show ?thesis by (auto simp: round_nat_f64_def Let_def)
qed

lemma round_nat_f64_small: "n < 2 ^ 53 \<Longrightarrow> round_nat_f64 n = n"
  using round_nat_f64_exact [of n n 0] by simp

text \<open>A finite float of at least \<open>2 ^ 53\<close> is an integer with a 53-bit significand.\<close>

lemma magnitude_large:
  assumes "2 ^ 53 \<le> magnitude w"
  shows "\<exists>m e. m < 2 ^ 53 \<and> magnitude w = of_nat (m * 2 ^ e)"
proof -
  have mant: "f64_mantissa w < 2 ^ 52" by (simp add: f64_mantissa_def)
  have e0: "f64_exponent w \<noteq> 0"
  proof
    assume "f64_exponent w = 0"
    then have "magnitude w = of_nat (f64_mantissa w) / 2 ^ 1074" by (simp add: magnitude_def)
    also have "\<dots> \<le> of_nat (f64_mantissa w)" by (simp add: divide_le_eq)
    also have "\<dots> < (2 :: rat) ^ 53" using mant by simp
    finally show False using assms by simp
  qed
  define m where "m = 2 ^ 52 + f64_mantissa w"
  have m: "m < 2 ^ 53" using mant by (simp add: m_def)
  have v: "magnitude w = of_nat m * 2 ^ f64_exponent w / 2 ^ 1075" using e0 by (simp add: magnitude_def m_def)
  have "1075 \<le> f64_exponent w"
  proof (rule ccontr)
    assume "\<not> 1075 \<le> f64_exponent w"
    then have "(2 :: rat) ^ f64_exponent w \<le> 2 ^ 1075" by (intro power_increasing) simp_all
    then have "magnitude w \<le> of_nat m" unfolding v by (simp add: divide_le_eq mult_left_mono)
    also have "\<dots> < 2 ^ 53" using m by (metis of_nat_less_iff of_nat_numeral of_nat_power)
    finally show False using assms by simp
  qed
  moreover have "(2 :: rat) ^ k = 2 ^ (k - c) * 2 ^ c" if "c \<le> k" for k c :: nat
    using that by (simp flip: power_add)
  ultimately have "(2 :: rat) ^ f64_exponent w = 2 ^ (f64_exponent w - 1075) * 2 ^ 1075" by blast
  then have "magnitude w = of_nat (m * 2 ^ (f64_exponent w - 1075))" unfolding v by simp
  with m show ?thesis by blast
qed

lemma magnitude_nonneg: "0 \<le> magnitude w"
  by (simp add: magnitude_def)

lemma int_as_f64_trunc:
  assumes "i = rat_trunc (fval w)"
  shows "int_as_f64 i = of_int i"
proof -
  have exact: "round_nat_f64 n = n" if "int n = \<lfloor>magnitude w\<rfloor>" for n
  proof (cases "n < 2 ^ 53")
    case False
    have "(2 :: rat) ^ 53 \<le> of_nat n" using False by (metis not_less of_nat_le_iff of_nat_numeral of_nat_power)
    also have "of_nat n \<le> magnitude w" using that by (metis floor_le_iff le_floor_iff of_int_of_nat_eq order_refl)
    finally obtain m e where "m < 2 ^ 53" "magnitude w = of_nat (m * 2 ^ e)"
      using magnitude_large by blast
    then show ?thesis using that round_nat_f64_exact [of n m e] by (metis floor_of_nat of_nat_eq_iff)
  qed (simp add: round_nat_f64_small)
  have "int (nat \<bar>i\<bar>) = \<lfloor>magnitude w\<rfloor>"
    using assms magnitude_nonneg [of w]
    by (auto simp: rat_trunc_def fval_def ceiling_def split: if_splits)
  from exact [OF this] show ?thesis by (cases "0 \<le> i") (simp_all add: int_as_f64_def)
qed

lemma trunc_cmp:
  "cmp_ord i (rat_trunc r) = Less \<Longrightarrow> of_int i < r"
  "cmp_ord i (rat_trunc r) = Greater \<Longrightarrow> r < of_int i"
proof -
  assume "cmp_ord i (rat_trunc r) = Less"
  then have "i < rat_trunc r" by (simp add: cmp_ord_def split: if_splits)
  then show "of_int i < r"
    by (cases "0 \<le> r") (simp_all add: rat_trunc_def less_floor_iff less_ceiling_iff)
next
  assume "cmp_ord i (rat_trunc r) = Greater"
  then have "rat_trunc r < i" by (simp add: cmp_ord_def split: if_splits)
  then show "r < of_int i"
    by (cases "0 \<le> r") (simp_all add: rat_trunc_def floor_less_iff ceiling_less_iff)
qed

lemma truncated_comparison_exact:
  "(case cmp_ord i (rat_trunc (fval w)) of
      Equal \<Rightarrow> ext_cmp (Fin (int_as_f64 i)) (Fin (fval w)) | res \<Rightarrow> res) =
   ext_cmp (Fin (of_int i)) (Fin (fval w))"
proof (cases "cmp_ord i (rat_trunc (fval w))")
  case Less
  with trunc_cmp(1) [OF Less] show ?thesis by (simp add: cmp_ord_def)
next
  case Equal
  then have "i = rat_trunc (fval w)" by simp
  from int_as_f64_trunc [OF this] show ?thesis unfolding Equal ordering.case by (simp only:)
next
  case Greater
  with trunc_cmp(2) [OF Greater] show ?thesis by (auto simp: cmp_ord_def)
qed

text \<open>The range checks before the truncation do not change the answer.\<close>

lemma range_checked_cmp:
  assumes "lo \<le> x" and "x < (hi :: rat)"
  shows "(if ext_less e lo then Greater else if \<not> ext_less e hi then Less
      else case e of Fin r \<Rightarrow> cmp_ord x r | _ \<Rightarrow> anything) = ext_cmp (Fin x) e"
  using assms by (cases e) (auto simp: ext_less_def cmp_ord_def)

lemma truncated_ext:
  assumes "\<not> f64_is_infinite w"
  shows "(case cmp_ord i (rat_trunc (fval w)) of
      Equal \<Rightarrow> ext_cmp (Fin (int_as_f64 i)) (ext_of_f64 w) | res \<Rightarrow> res) =
   (case ext_of_f64 w of Fin r \<Rightarrow> cmp_ord (of_int i) r | _ \<Rightarrow> Equal)"
proof -
  have e: "ext_of_f64 w = Fin (fval w)" using assms by (simp add: ext_of_f64_def)
  show ?thesis
    using truncated_comparison_exact [of i w] unfolding e ext.case ext_cmp.simps .
qed

lemma ext_less_infinite: "f64_is_infinite w \<Longrightarrow> ext_less (ext_of_f64 w) a \<longleftrightarrow> ext_less (ext_of_f64 w) b"
  by (simp add: ext_of_f64_def ext_less_def)

lemma compare_checked:
  assumes "lo \<le> of_int i" and "of_int i < (hi :: rat)"
  shows "(if ext_less (ext_of_f64 w) lo then Greater else if \<not> ext_less (ext_of_f64 w) hi then Less
      else case cmp_ord i (rat_trunc (fval w)) of
        Equal \<Rightarrow> ext_cmp (Fin (int_as_f64 i)) (ext_of_f64 w) | res \<Rightarrow> res) =
    ext_cmp (Fin (of_int i)) (ext_of_f64 w)"
proof (cases "f64_is_infinite w")
  case True
  then show ?thesis by (simp add: ext_of_f64_def ext_less_def)
next
  case False
  show ?thesis unfolding truncated_ext [OF False] by (rule range_checked_cmp [OF assms])
qed

lemma sint_bounds: "- (2 ^ 63) \<le> (of_int (sint (i :: i64)) :: rat)" "(of_int (sint (i :: i64)) :: rat) < 2 ^ 63"
proof -
  have "- (2 ^ 63) \<le> sint i" "sint i < 2 ^ 63" using sint_ge [of i] sint_lt [of i] by simp_all
  then have "(of_int (- (2 ^ 63)) :: rat) \<le> of_int (sint i)" "(of_int (sint i) :: rat) < of_int (2 ^ 63)"
    by (simp_all only: of_int_le_iff of_int_less_iff)
  then show "- (2 ^ 63) \<le> (of_int (sint i) :: rat)" "(of_int (sint i) :: rat) < 2 ^ 63"
    by (simp_all only: of_int_minus of_int_power of_int_numeral)
qed

lemma uint_bounds: "0 \<le> (of_int (uint (u :: u64)) :: rat)" "(of_int (uint (u :: u64)) :: rat) < 2 ^ 64"
proof -
  have "0 \<le> uint u" "uint u < 2 ^ 64" using uint_lt2p [of u] by simp_all
  then have "(of_int 0 :: rat) \<le> of_int (uint u)" "(of_int (uint u) :: rat) < of_int (2 ^ 64)"
    by (simp_all only: of_int_le_iff of_int_less_iff)
  then show "0 \<le> (of_int (uint u) :: rat)" "(of_int (uint u) :: rat) < 2 ^ 64"
    by (simp_all only: of_int_0 of_int_power of_int_numeral)
qed

lemma compare_i64_float_exact:
  "compare_i64_float i w = ext_cmp (Fin (of_int (sint i))) (ext_of_f64 w)"
  unfolding compare_i64_float_def Let_def by (rule compare_checked [OF sint_bounds])

lemma compare_u64_float_exact:
  "compare_u64_float u w = ext_cmp (Fin (of_int (uint u))) (ext_of_f64 w)"
  unfolding compare_u64_float_def Let_def by (rule compare_checked [OF uint_bounds])

text \<open>The exact value of a number; \<open>None\<close> is NaN, above everything.\<close>

definition rat_int :: "int \<Rightarrow> rat" where
  "rat_int i = of_int i"

lemma cmp_rat_int [simp]: "cmp_ord (rat_int i) (rat_int j) = cmp_ord i j"
  by (simp add: rat_int_def cmp_ord_def)

fun number_key :: "qvalue \<Rightarrow> ext option" where
  "number_key (Signed i) = Some (Fin (rat_int (sint i)))"
| "number_key (Unsigned u) = Some (Fin (rat_int (uint u)))"
| "number_key (Float w) = (if f64_is_nan w then None else Some (ext_of_f64 w))"
| "number_key _ = None"

fun key_cmp :: "ext option \<Rightarrow> ext option \<Rightarrow> ordering" where
  "key_cmp None None = Equal"
| "key_cmp None (Some b) = Greater"
| "key_cmp (Some a) None = Less"
| "key_cmp (Some a) (Some b) = ext_cmp a b"

lemma ext_cmp_swap: "ext_cmp b a = reverse (ext_cmp a b)"
  by (cases a; cases b) (auto simp: cmp_ord_def)

lemma cmp_ord_swap: "cmp_ord b a = reverse (cmp_ord a b)"
  by (auto simp: cmp_ord_def)

lemma compare_i64_u64_exact: "compare_i64_u64 i u = cmp_ord (sint i) (uint u)"
proof (cases "sint i < 0")
  case True
  then have "sint i < uint u" using uint_ge_0 [of u] by linarith
  with True show ?thesis by (simp add: compare_i64_u64_def cmp_ord_def)
next
  case False
  have s: "sint i = signed_take_bit 63 (uint i)" by (simp add: sint_uint)
  then have nb: "\<not> bit (uint i) 63" using False by (simp add: signed_take_bit_negative_iff)
  have "uint i = take_bit (Suc 63) (uint i)" using uint_lt2p [of i] by (simp add: take_bit_int_eq_self)
  also have "\<dots> = take_bit 63 (uint i)" unfolding take_bit_Suc_from_most using nb by simp
  also have "\<dots> = sint i" using s signed_take_bit_eq_if_positive [OF nb] by simp
  finally have "uint i = sint i" .
  with False show ?thesis by (simp add: compare_i64_u64_def)
qed

lemma numeric_cmp_exact:
  "numeric_cmp a b =
     (if is_number a \<and> is_number b then Some (key_cmp (number_key a) (number_key b)) else None)"
  by (cases a; cases b)
    (simp_all add: numeric_cmp_def f64_partial_cmp_def compare_i64_float_exact compare_u64_float_exact
      compare_i64_u64_exact ext_cmp_swap [symmetric] cmp_ord_swap [symmetric] rat_int_def [symmetric] cmp_ord_def [of False]
      cmp_ord_def [of True])

section \<open>The ordering is total\<close>

lemma comparison_cong:
  assumes "comparison c ok'" and "\<And>x. ok x \<Longrightarrow> ok' x" and "\<And>x y. ok x \<Longrightarrow> ok y \<Longrightarrow> c' x y = c x y"
  shows "comparison c' ok"
  using assms unfolding comparison_def by metis

text \<open>Values of different kinds are ordered by kind; within a kind by \<open>same\<close>.\<close>

lemma comparison_graded:
  assumes same: "\<And>k. comparison same (\<lambda>v. ok v \<and> kind v = k)"
  shows "comparison (\<lambda>a b. if kind a \<noteq> kind b then cmp_ord (kind a) (kind b) else same a b) ok"
proof
  fix x y
  assume "ok x" "ok y"
  then show "(if kind y \<noteq> kind x then cmp_ord (kind y) (kind x) else same y x) =
      reverse (if kind x \<noteq> kind y then cmp_ord (kind x) (kind y) else same x y)"
    using comparison.swap [OF same, of x "kind x" y] by (auto simp: cmp_ord_swap [of "kind y"])
next
  fix x y z
  assume d: "ok x" "ok y" "ok z"
    and le: "(if kind x \<noteq> kind y then cmp_ord (kind x) (kind y) else same x y) \<noteq> Greater"
      "(if kind y \<noteq> kind z then cmp_ord (kind y) (kind z) else same y z) \<noteq> Greater"
  then have k: "kind x \<le> kind y" "kind y \<le> kind z" by (auto simp: cmp_ord_def split: if_splits)
  show "(if kind x \<noteq> kind z then cmp_ord (kind x) (kind z) else same x z) \<noteq> Greater"
  proof (cases "kind x = kind z")
    case True
    with k have "kind y = kind x" "kind z = kind x" by simp_all
    with comparison.trans [OF same, of x "kind x" y z] d le show ?thesis by simp
  next
    case False
    with k show ?thesis by (simp add: cmp_ord_def)
  qed
qed

definition same_kind_cmp :: "((qvalue \<times> qvalue) list \<Rightarrow> string) \<Rightarrow> qvalue \<Rightarrow> qvalue \<Rightarrow> ordering" where
  "same_kind_cmp d l r =
     (if is_number l then key_cmp (number_key l) (number_key r)
      else
        case l of
          Bool a \<Rightarrow> (case r of Bool b \<Rightarrow> cmp_ord a b | _ \<Rightarrow> Equal)
        | String a \<Rightarrow> (case r of String b \<Rightarrow> ascii_cmp a b | _ \<Rightarrow> Equal)
        | Binary a \<Rightarrow> (case r of Binary b \<Rightarrow> lex_cmp cmp_ord a b | _ \<Rightarrow> Equal)
        | Array a \<Rightarrow> (case r of Array b \<Rightarrow> lex_cmp (language_cmp d) a b | _ \<Rightarrow> Equal)
        | Map a \<Rightarrow>
            (case r of
               Map b \<Rightarrow> lex_cmp cmp_ord (map (\<lambda>c. code c) (d a)) (map (\<lambda>c. code c) (d b)) | _ \<Rightarrow> Equal)
        | _ \<Rightarrow> Equal)"

lemma compare_arrays_lex: "compare_arrays d xs ys = lex_cmp (language_cmp d) xs ys"
proof (induction xs arbitrary: ys)
  case Nil
  then show ?case by (cases ys) (simp_all add: cmp_ord_def)
next
  case (Cons x xs)
  then show ?case by (cases ys; cases "language_cmp d x (hd ys)") (simp_all add: cmp_ord_def Let_def)
qed

lemma language_cmp_graded:
  "language_cmp d a b = (if kind a \<noteq> kind b then cmp_ord (kind a) (kind b) else same_kind_cmp d a b)"
  by (cases a; cases b) (simp_all add: language_cmp.simps numeric_cmp_exact compare_arrays_lex same_kind_cmp_def)

lemma comparison_ext: "comparison ext_cmp (\<lambda>_. True)"
proof
  fix x y z
  assume "ext_cmp x y \<noteq> Greater" "ext_cmp y z \<noteq> Greater"
  then show "ext_cmp x z \<noteq> Greater"
    by (cases x; cases y; cases z) (auto simp: cmp_ord_def split: if_splits)
qed (rule ext_cmp_swap)

lemma comparison_number_keys: "comparison key_cmp (\<lambda>_. True)"
proof
  fix x y
  show "key_cmp y x = reverse (key_cmp x y)"
    by (cases x; cases y) (simp_all, rule ext_cmp_swap)
next
  fix x y z
  assume le: "key_cmp x y \<noteq> Greater" "key_cmp y z \<noteq> Greater"
  show "key_cmp x z \<noteq> Greater"
  proof (cases "x = None \<or> y = None \<or> z = None")
    case True
    with le show ?thesis by (cases x; cases y; cases z) simp_all
  next
    case False
    then obtain a b c where "x = Some a" "y = Some b" "z = Some c" by auto
    with le comparison.trans [OF comparison_ext, of a b c] show ?thesis by simp
  qed
qed

lemma comparison_linear: "comparison cmp_ord (\<lambda>_ :: 'a::linorder. True)"
  by (rule linear.comparison_axioms)

lemma comparison_linear_lists: "comparison (lex_cmp cmp_ord) (\<lambda>_ :: 'a::linorder list. True)"
  using comparison_lex [OF comparison_linear] by (rule comparison_cong) (simp_all add: list_all_iff)

lemma comparison_ascii: "comparison ascii_cmp (\<lambda>_. True)"
  unfolding ascii_cmp_def
  by (rule comparison_then; rule comparison_key [OF comparison_linear_lists])

lemma comparison_same_kind:
  assumes el: "comparison (language_cmp d) (\<lambda>v. size v < n)"
  shows "comparison (same_kind_cmp d) (\<lambda>v. size v < Suc n \<and> kind v = k)"
proof -
  consider "k = 0" | "k = 1" | "k = 2" | "k = 3" | "k = 4" | "k = 5" | "k = 6" | "6 < k" by linarith
  then show ?thesis
  proof cases
    case 1
    show ?thesis
      by (rule comparison_cong [OF comparison_key [OF comparison_linear, of "\<lambda>_. 0 :: nat"]])
        (use 1 in \<open>auto simp: same_kind_cmp_def cmp_ord_def [of 0] split: qvalue.splits\<close>)
  next
    case 2
    show ?thesis
      by (rule comparison_cong [OF comparison_key [OF comparison_linear, of "\<lambda>v. v = Bool True"]])
        (use 2 in \<open>auto simp: same_kind_cmp_def split: qvalue.splits\<close>)
  next
    case 3
    show ?thesis
      by (rule comparison_cong [OF comparison_key [OF comparison_number_keys, of number_key]])
        (use 3 in \<open>auto simp: same_kind_cmp_def split: qvalue.splits\<close>)
  next
    case 4
    show ?thesis
      by (rule comparison_cong [OF comparison_key [OF comparison_ascii,
            of "\<lambda>v. case v of String s \<Rightarrow> s | _ \<Rightarrow> []"]])
        (use 4 in \<open>auto simp: same_kind_cmp_def split: qvalue.splits\<close>)
  next
    case 5
    show ?thesis
      by (rule comparison_cong [OF comparison_key [OF comparison_linear_lists,
            of "\<lambda>v. case v of Binary s \<Rightarrow> s | _ \<Rightarrow> []"]])
        (use 5 in \<open>auto simp: same_kind_cmp_def split: qvalue.splits\<close>)
  next
    case 6
    have "list_all (\<lambda>v. size v < n) vs" if "size (Array vs) < Suc n" for vs
      using that size_list_estimation' [of _ vs _ size] by (fastforce simp: list_all_iff)
    then show ?thesis
      by (intro comparison_cong [OF comparison_key [OF comparison_lex [OF el],
            of "\<lambda>v. case v of Array s \<Rightarrow> s | _ \<Rightarrow> []"]])
        (use 6 in \<open>auto simp: same_kind_cmp_def split: qvalue.splits\<close>)
  next
    case 7
    show ?thesis
      by (rule comparison_cong [OF comparison_key [OF comparison_linear_lists,
            of "\<lambda>v. case v of Map m \<Rightarrow> map (\<lambda>c. code c) (d m) | _ \<Rightarrow> []"]])
        (use 7 in \<open>auto simp: same_kind_cmp_def split: qvalue.splits\<close>)
  next
    case 8
    have "kind v \<noteq> k" for v using 8 by (cases v) simp_all
    then show ?thesis by unfold_locales simp_all
  qed
qed

lemma comparison_language: "comparison (language_cmp d) (\<lambda>_. True)"
proof -
  have "comparison (language_cmp d) (\<lambda>v. size v < n)" for n
  proof (induction n)
    case 0
    show ?case by unfold_locales simp_all
  next
    case (Suc n)
    from comparison_graded [OF comparison_same_kind [OF Suc]] show ?case
      by (rule comparison_cong) (simp_all add: language_cmp_graded)
  qed
  note all = this
  show ?thesis
  proof
    fix x y :: qvalue
    show "language_cmp d y x = reverse (language_cmp d x y)"
      by (rule comparison.swap [OF all [of "Suc (size x + size y)"]]) simp_all
  next
    fix x y z :: qvalue
    assume "language_cmp d x y \<noteq> Greater" "language_cmp d y z \<noteq> Greater"
    with comparison.trans [OF all [of "Suc (size x + size y + size z)"], of x y z]
    show "language_cmp d x z \<noteq> Greater" by simp
  qed
qed

interpretation language: comparison "language_cmp d" "\<lambda>_. True" for d
  by (rule comparison_language)

section \<open>Equality is equality of a canonical form\<close>

text \<open>Numbers by exact value, all NaNs one, text folded, containers element by element.\<close>

datatype canon =
    CNull
  | CBool bool
  | CNumber "ext option"
  | CString string
  | CBinary "u8 list"
  | CArray "canon list"
  | CMap "(canon \<times> canon) list"

primrec canonical_value :: "qvalue \<Rightarrow> canon" where
  "canonical_value Null = CNull"
| "canonical_value (Bool b) = CBool b"
| "canonical_value (Signed i) = CNumber (number_key (Signed i))"
| "canonical_value (Unsigned u) = CNumber (number_key (Unsigned u))"
| "canonical_value (Float w) = CNumber (number_key (Float w))"
| "canonical_value (String s) = CString (lowercase s)"
| "canonical_value (Binary b) = CBinary b"
| "canonical_value (Array vs) = CArray (map canonical_value vs)"
| "canonical_value (Map kvs) = CMap (map (map_prod canonical_value canonical_value) kvs)"

lemma ascii_equal_iff: "ascii_equal a b \<longleftrightarrow> lowercase a = lowercase b"
proof -
  have "length a = length b \<Longrightarrow> list_all (\<lambda>(l, r). fold_char l = fold_char r) (zip a b) \<longleftrightarrow> lowercase a = lowercase b"
    by (induction a b rule: list_induct2) (simp_all add: fold_char_def)
  moreover have "lowercase a = lowercase b \<Longrightarrow> length a = length b" by (metis length_map)
  ultimately show ?thesis by (auto simp: ascii_equal_def)
qed

lemma ext_cmp_Equal [simp]: "ext_cmp a b = Equal \<longleftrightarrow> a = b"
  by (cases a; cases b) simp_all

lemma key_cmp_Equal [simp]: "key_cmp a b = Equal \<longleftrightarrow> a = b"
  by (cases a; cases b) simp_all

lemma canonical_number: "is_number a \<Longrightarrow> canonical_value a = CNumber (number_key a)"
  by (cases a) simp_all

lemma canonical_not_number: "\<not> is_number a \<Longrightarrow> canonical_value a \<noteq> CNumber k"
  by (cases a) simp_all

lemma language_equal_canonical_all:
  "language_equal a b \<longleftrightarrow> canonical_value a = canonical_value b"
  "length xs = length ys \<Longrightarrow> all_equal xs ys \<longleftrightarrow> map canonical_value xs = map canonical_value ys"
  "length es = length fs \<Longrightarrow> entries_equal es fs \<longleftrightarrow>
     map (map_prod canonical_value canonical_value) es = map (map_prod canonical_value canonical_value) fs"
proof (induction a b and xs ys and es fs rule: language_equal_all_equal_entries_equal.induct)
  case (1 left right)
  show ?case
  proof (cases "is_number left \<and> is_number right")
    case True
    then show ?thesis
      using canonical_number [of left] canonical_number [of right]
      by (simp add: language_equal.simps [of left] numeric_cmp_exact)
  next
    case False
    then have n: "numeric_cmp left right = None" by (simp add: numeric_cmp_exact)
    have len: "map canonical_value l = map canonical_value r \<Longrightarrow> length l = length r" for l r
      by (metis length_map)
    have len': "map (map_prod canonical_value canonical_value) l = map (map_prod canonical_value canonical_value) r \<Longrightarrow>
        length l = length r" for l r
      by (metis length_map)
    show ?thesis
    proof (cases left)
      case (Array l)
      show ?thesis
      proof (cases right)
        case r: (Array r)
        with 1(1) [OF n] Array have "length l = length r \<longrightarrow> all_equal l r = (map canonical_value l = map canonical_value r)"
          by simp
        with len [of l r] show ?thesis unfolding language_equal.simps [of left] n by (auto simp: Array r)
      qed (simp_all add: Array language_equal.simps numeric_cmp_exact)
    next
      case (Map l)
      show ?thesis
      proof (cases right)
        case r: (Map r)
        with 1(2) [OF n] Map have "length l = length r \<longrightarrow> entries_equal l r =
            (map (map_prod canonical_value canonical_value) l = map (map_prod canonical_value canonical_value) r)"
          by simp
        with len' [of l r] show ?thesis unfolding language_equal.simps [of left] n by (auto simp: Map r)
      qed (simp_all add: Map language_equal.simps numeric_cmp_exact)
    qed (cases right; insert False; simp add: language_equal.simps numeric_cmp_exact ascii_equal_iff)+
  qed
qed (auto split: list.splits)

section \<open>Properties\<close>

text \<open>
  Numbers of all three representations are compared by their exact mathematical value: the
  integers as integers, the floats as the rationals their bits denote with the infinities at the
  ends, and every NaN as one value above all others. No comparison is rounded, although the code
  converts integers to floating point on the way.
\<close>

theorem numbers_compared_exactly:
  "numeric_cmp a b =
     (if is_number a \<and> is_number b then Some (key_cmp (number_key a) (number_key b)) else None)"
  by (rule numeric_cmp_exact)

text \<open>
  C19. The query order is a total preorder over all values, nested arrays and maps included: swapping
  the operands reverses the answer, and being at most is transitive. So sorting by it is well
  defined whatever the rows contain.
\<close>

theorem language_cmp_total_preorder:
  "language_cmp d b a = reverse (language_cmp d a b) \<and>
   (language_cmp d a b \<noteq> Greater \<longrightarrow> language_cmp d b c \<noteq> Greater \<longrightarrow> language_cmp d a c \<noteq> Greater)"
  using language.swap [where x = a and y = b] language.trans [where x = a and y = b and z = c] by simp

theorem language_cmp_total_preorder_witness:
  "language_cmp (\<lambda>_. []) (Unsigned 1) Null = Greater \<and> language_cmp (\<lambda>_. []) Null (String ''a'') \<noteq> Greater"
proof -
  have a: "language_cmp (\<lambda>_. []) Null (Unsigned 1) = Less"
    and b: "language_cmp (\<lambda>_. []) (Unsigned 1) (String ''a'') = Less"
    by (simp_all add: language_cmp.simps numeric_cmp_def cmp_ord_def)
  with language_cmp_total_preorder [of "\<lambda>_. []" "Unsigned 1" Null "String ''a''"] show ?thesis by simp
qed

text \<open>
  The query's equality is an equivalence: two values are equal exactly when they have the same
  canonical form, in which numbers stand for their exact value, NaN is one value, text is folded to
  lower case, and arrays and maps are taken element by element in order.
\<close>

theorem language_equal_canonical:
  "language_equal a b \<longleftrightarrow> canonical_value a = canonical_value b"
  by (rule language_equal_canonical_all)

end
