(* ===== verification/Index_Narrowing.thy ===== *)
theory Index_Narrowing
  imports Query_Value Msgpack_Grammar
begin

text \<open>
  Where the writer and the reader of a payload meet. The adaptive index stores, for each event, the
  key the extractor computes from the raw payload (\<^verbatim>\<open>payload_index.rs\<close>); a query evaluates its
  predicates on the fields the flattener makes of the decoded payload (\<^verbatim>\<open>value.rs\<close>). Searching the
  index for the key of a literal may only narrow the rows: no row whose field equals the literal may
  be missed.
\<close>

section \<open>A decoded payload\<close>

text \<open>What the platform's reader makes of a MessagePack value, as its documentation states it.\<close>

inductive represents :: "mp \<Rightarrow> qvalue \<Rightarrow> bool" where
  rep_nil: "represents MNil Null"
| rep_bool: "represents (MBool b) (Bool b)"
| rep_number: "is_number v \<Longrightarrow> represents (MNumber bs) v"
| rep_str: "from_utf8 s = Some t \<Longrightarrow> represents (MStr s) (String t)"
| rep_bin: "represents (MBin b) (Binary b)"
| rep_ext: "represents (MExt ty b) (Binary b)"
| rep_arr: "list_all2 represents ms vs \<Longrightarrow> represents (MArr ms) (Array vs)"
| rep_map: "list_all2 (rel_prod represents represents) ms vs \<Longrightarrow> represents (MMap ms) (Map vs)"

inductive_cases represents_MapE: "represents m (Map vs)"

lemma represents_key: "represents k key \<Longrightarrow> key_text k = (case key of String s \<Rightarrow> Some s | _ \<Rightarrow> None)"
  by (induction rule: represents.induct) (auto split: qvalue.splits)

lemma represents_is_map: "represents m v \<Longrightarrow> is_map m \<longleftrightarrow> (\<exists>vs. v = Map vs)"
  by (induction rule: represents.induct) auto

section \<open>Paths\<close>

abbreviation path_of :: "string list \<Rightarrow> string" where
  "path_of \<equiv> join_with (CHR ''.'')"

lemma valid_segment_no_dot: "valid_segment s \<Longrightarrow> CHR ''.'' \<notin> set s"
  using valid_segment_chars by (fastforce simp: list_all_iff path_char_def
      is_ascii_alphanumeric_def is_ascii_alphabetic_def is_ascii_uppercase_def is_ascii_lowercase_def
      is_ascii_digit_def)

lemma segments_path_of:
  "ss \<noteq> [] \<Longrightarrow> list_all valid_segment ss \<Longrightarrow> segments_of (path_of ss) = ss"
  by (rule split_join) (auto simp: list_all_iff dest: valid_segment_no_dot)

lemma path_of_inject:
  "list_all valid_segment xs \<Longrightarrow> list_all valid_segment ys \<Longrightarrow> xs \<noteq> [] \<Longrightarrow> ys \<noteq> [] \<Longrightarrow>
     path_of xs = path_of ys \<longleftrightarrow> xs = ys"
  by (metis segments_path_of)

lemma path_of_Nil_iff: "list_all valid_segment ss \<Longrightarrow> path_of ss = [] \<longleftrightarrow> ss = []"
  by (cases "(CHR ''.'', ss)" rule: join_with.cases) (auto simp: valid_segment_def)

lemma path_of_snoc:
  "list_all valid_segment ps \<Longrightarrow>
     (if path_of ps = [] then s else path_of ps @ CHR ''.'' # s) = path_of (ps @ [s])"
proof (cases "ps = []")
  case False
  have "path_of (ps @ [s]) = path_of ps @ CHR ''.'' # s" if "ps \<noteq> []"
    using that by (induction "CHR ''.''" ps rule: join_with.induct) simp_all
  with False show "list_all valid_segment ps \<Longrightarrow> ?thesis" by (simp add: path_of_Nil_iff)
qed simp

lemma header_path_reserved:
  assumes "header_column (path_of qs) \<noteq> None" and "list_all valid_segment (qs @ rs)" and "qs \<noteq> []"
  shows "under_header_path (path_of (qs @ rs))"
proof -
  obtain c where c: "(path_of qs, c) \<in> set HEADER_FIELDS"
    using assms(1) by (auto simp: header_column_def find_Some_iff in_set_conv_nth split: prod.splits)
      (metis (no_types, lifting) case_prodD find_Some_iff nth_mem prod.collapse)
  have "segments_of (path_of qs) = qs" "segments_of (path_of (qs @ rs)) = qs @ rs"
    using assms(2,3) by (auto intro: segments_path_of)
  then have "prefix (segments_of (path_of qs)) (segments_of (path_of (qs @ rs)))" by simp
  with c show ?thesis unfolding under_header_path_iff by force
qed

section \<open>Flattening\<close>

text \<open>What one entry adds, and the induction over entries and their children that follows it.\<close>

definition flatten_entry :: "qvalue \<Rightarrow> qvalue \<Rightarrow> string \<Rightarrow> fields \<Rightarrow> fields" where
  "flatten_entry key val pre record = flatten_entries [(key, val)] pre record"

lemma flatten_Cons:
  "flatten_entries ((key, val) # entries) pre record = flatten_entries entries pre (flatten_entry key val pre record)"
  by (simp add: flatten_entry_def)

declare flatten_entries.simps(2) [simp del]

lemma flatten_entry_cases [case_names same leaf children]:
  assumes ps: "list_all valid_segment ps"
  obtains "flatten_entry key val (path_of ps) r = r"
      "\<And>s. key = String s \<Longrightarrow> valid_segment s \<Longrightarrow>
         header_column (path_of (ps @ [s])) \<noteq> None \<or> r (path_of (ps @ [s])) \<noteq> None"
  | s where "key = String s" "valid_segment s" "header_column (path_of (ps @ [s])) = None"
      "r (path_of (ps @ [s])) = None" "\<nexists>vs. val = Map vs"
      "flatten_entry key val (path_of ps) r = r(path_of (ps @ [s]) \<mapsto> val)"
  | s children where "key = String s" "valid_segment s" "header_column (path_of (ps @ [s])) = None"
      "r (path_of (ps @ [s])) = None" "val = Map children"
      "flatten_entry key val (path_of ps) r = flatten_entries children (path_of (ps @ [s])) r"
proof (cases "\<exists>s. key = String s \<and> valid_segment s \<and> header_column (path_of (ps @ [s])) = None \<and>
    r (path_of (ps @ [s])) = None")
  case False
  then have "flatten_entry key val (path_of ps) r = r"
    by (cases key) (auto simp: flatten_entry_def flatten_entries.simps Let_def path_of_snoc [OF ps])
  then show ?thesis
    by (rule that(1)) (use False in \<open>simp del: not_None_eq not_Some_eq\<close>)
next
  case True
  then obtain s where s: "key = String s" "valid_segment s" "header_column (path_of (ps @ [s])) = None"
    "r (path_of (ps @ [s])) = None" by blast
  then have "flatten_entry key val (path_of ps) r =
      (case val of Map children \<Rightarrow> flatten_entries children (path_of (ps @ [s])) r | _ \<Rightarrow> r(path_of (ps @ [s]) \<mapsto> val))"
    by (simp add: flatten_entry_def flatten_entries.simps Let_def path_of_snoc [OF ps])
  with s that(2,3) show ?thesis by (cases val) auto
qed

lemma flatten_induct [consumes 1, case_names Nil Cons]:
  assumes "list_all valid_segment ps"
    and nil: "\<And>ps r. list_all valid_segment ps \<Longrightarrow> P [] ps r"
    and cons: "\<And>key val entries ps r. list_all valid_segment ps \<Longrightarrow>
      (\<And>s children. key = String s \<Longrightarrow> valid_segment s \<Longrightarrow> val = Map children \<Longrightarrow> P children (ps @ [s]) r) \<Longrightarrow>
      (\<And>r. P entries ps r) \<Longrightarrow> P ((key, val) # entries) ps r"
  shows "P entries ps r"
  using assms(1)
proof (induction "size_list (size_prod size size) entries" arbitrary: entries ps r rule: less_induct)
  case (less entries ps r)
  show ?case
  proof (cases entries)
    case Nil
    with nil less.prems show ?thesis by simp
  next
    case (Cons e es)
    obtain key val where e: "e = (key, val)" by (cases e)
    have "P children (ps @ [s]) r" if "valid_segment s" "val = Map children" for s children
      using less.hyps [of children "ps @ [s]" r] less.prems Cons e that by simp
    moreover have "P es ps r'" for r'
      using less.hyps [of es ps r'] less.prems Cons e by simp
    ultimately show ?thesis unfolding Cons e by (rule cons [OF less.prems])
  qed
qed

lemma flatten_mono: "list_all valid_segment ps \<Longrightarrow> r p = Some v \<Longrightarrow> flatten_entries es (path_of ps) r p = Some v"
proof (induction es ps r rule: flatten_induct)
  case (Cons key val entries ps r)
  have "flatten_entry key val (path_of ps) r p = Some v"
    by (rule flatten_entry_cases [OF Cons.hyps, of key val r]) (use Cons in auto)
  with Cons.IH(2) show ?case unfolding flatten_Cons by blast
qed simp

text \<open>Every field it adds lies below the path it was given.\<close>

lemma flatten_below:
  "list_all valid_segment ps \<Longrightarrow> flatten_entries es (path_of ps) r p \<noteq> r p \<Longrightarrow>
     \<exists>ss. ss \<noteq> [] \<and> list_all valid_segment ss \<and> p = path_of (ps @ ss)"
proof (induction es ps r rule: flatten_induct)
  case (Cons key val entries ps r)
  show ?case
  proof (cases "flatten_entry key val (path_of ps) r p = r p")
    case True
    with Cons.prems have "flatten_entries entries (path_of ps) (flatten_entry key val (path_of ps) r) p
        \<noteq> flatten_entry key val (path_of ps) r p" by (simp add: flatten_Cons)
    then show ?thesis by (rule Cons.IH(2))
  next
    case False
    show ?thesis
    proof (rule flatten_entry_cases [OF Cons.hyps, of key val r])
      fix s assume "valid_segment s" "flatten_entry key val (path_of ps) r = r(path_of (ps @ [s]) \<mapsto> val)"
      with False show ?thesis by (intro exI [of _ "[s]"]) (auto split: if_splits)
    next
      fix s children assume s: "key = String s" "valid_segment s" "val = Map children"
        "flatten_entry key val (path_of ps) r = flatten_entries children (path_of (ps @ [s])) r"
      with Cons.IH(1) [OF s(1-3)] False obtain ss where "ss \<noteq> []" "list_all valid_segment ss"
        "p = path_of ((ps @ [s]) @ ss)" by auto
      with s(2) show ?thesis by (intro exI [of _ "s # ss"]) simp
    qed (use False in simp)
  qed
qed simp

text \<open>
  A record blocks a field when it already has the field or one of its ancestors below the path being
  flattened; nothing is then added there.
\<close>

definition blocks :: "fields \<Rightarrow> string list \<Rightarrow> string list \<Rightarrow> bool" where
  "blocks r ps ss \<longleftrightarrow> (\<exists>n. 0 < n \<and> n \<le> length ss \<and> r (path_of (ps @ take n ss)) \<noteq> None)"

lemma blocks_flatten:
  "list_all valid_segment ps \<Longrightarrow> blocks r ps' ss \<Longrightarrow> blocks (flatten_entries es (path_of ps) r) ps' ss"
  by (auto simp: blocks_def dest: flatten_mono)

lemma blocks_flatten_entry:
  "list_all valid_segment ps \<Longrightarrow> blocks r ps' ss \<Longrightarrow> blocks (flatten_entry key val (path_of ps) r) ps' ss"
  unfolding flatten_entry_def by (rule blocks_flatten)

lemma blocks_child: "blocks r (ps @ [s]) ss \<Longrightarrow> blocks r ps (s # ss)"
  unfolding blocks_def by (metis append.assoc append_Cons append_Nil length_Cons Suc_le_mono take_Suc_Cons zero_less_Suc)

lemma blocks_ConsD: "blocks r ps (s # ss) \<Longrightarrow> r (path_of (ps @ [s])) = None \<Longrightarrow> blocks r (ps @ [s]) ss"
  unfolding blocks_def
proof (elim exE conjE)
  fix n assume "0 < n" "n \<le> length (s # ss)" "r (path_of (ps @ take n (s # ss))) \<noteq> None" "r (path_of (ps @ [s])) = None"
  then show "\<exists>n>0. n \<le> length ss \<and> r (path_of ((ps @ [s]) @ take n ss)) \<noteq> None"
    by (intro exI [of _ "n - 1"]) (cases n; cases "n - 1"; simp)
qed

lemma flatten_blocked:
  "list_all valid_segment ps \<Longrightarrow> list_all valid_segment ss \<Longrightarrow> ss \<noteq> [] \<Longrightarrow> blocks r ps ss \<Longrightarrow>
     flatten_entries es (path_of ps) r (path_of (ps @ ss)) = r (path_of (ps @ ss))"
proof (induction es ps r arbitrary: ss rule: flatten_induct)
  case (Cons key val entries ps r)
  have "flatten_entry key val (path_of ps) r (path_of (ps @ ss)) = r (path_of (ps @ ss))"
  proof (rule flatten_entry_cases [OF Cons.hyps, of key val r])
    fix s assume s: "valid_segment s" "r (path_of (ps @ [s])) = None"
      "flatten_entry key val (path_of ps) r = r(path_of (ps @ [s]) \<mapsto> val)"
    have "ss \<noteq> [s]" using s(2) Cons.prems(3) by (auto simp: blocks_def)
    then show ?thesis using s Cons.prems(1,2) Cons.hyps by (simp add: path_of_inject)
  next
    fix s children assume s: "key = String s" "valid_segment s" "r (path_of (ps @ [s])) = None" "val = Map children"
      "flatten_entry key val (path_of ps) r = flatten_entries children (path_of (ps @ [s])) r"
    show ?thesis
    proof (rule ccontr)
      assume "\<not> ?thesis"
      with s Cons.hyps flatten_below [of "ps @ [s]" children r "path_of (ps @ ss)"] obtain ss' where
        ss': "ss' \<noteq> []" "list_all valid_segment ss'" "path_of (ps @ ss) = path_of (ps @ s # ss')" by auto
      with Cons.hyps Cons.prems(1,2) s(2) have ss: "ss = s # ss'" by (simp add: path_of_inject)
      from Cons.IH(1) [OF s(1,2,4) ss'(2,1)] blocks_ConsD [of r ps s ss'] Cons.prems(3) s(3,5) \<open>\<not> ?thesis\<close> ss
      show False by simp
    qed
  qed simp
  with Cons.IH(2) [OF Cons.prems(1,2) blocks_flatten_entry [OF Cons.hyps Cons.prems(3)]]
  show ?case by (simp add: flatten_Cons)
qed simp

abbreviation represents_entries :: "(mp \<times> mp) list \<Rightarrow> (qvalue \<times> qvalue) list \<Rightarrow> bool" where
  "represents_entries \<equiv> list_all2 (rel_prod represents represents)"

lemma represents_entries_Cons:
  "represents_entries ms ((key, val) # entries) \<Longrightarrow>
     \<exists>k m ms'. ms = (k, m) # ms' \<and> represents k key \<and> represents m val \<and> represents_entries ms' entries"
  by (auto simp: list_all2_Cons2 rel_prod_sel)

lemma flatten_or_blocked:
  "list_all valid_segment ps \<Longrightarrow> represents_entries ms es \<Longrightarrow> list_all valid_segment ss \<Longrightarrow> ss \<noteq> [] \<Longrightarrow>
     \<not> under_header_path (path_of (ps @ ss)) \<Longrightarrow> find_leaf ss ms \<noteq> None \<Longrightarrow>
     blocks (flatten_entries es (path_of ps) r) ps ss"
proof (induction es ps r arbitrary: ss ms rule: flatten_induct)
  case (Cons key val entries ps r)
  obtain k m ms' where ms: "ms = (k, m) # ms'" and k: "represents k key" and m: "represents m val"
    and ms': "represents_entries ms' entries" using represents_entries_Cons [OF Cons.prems(1)] by blast
  obtain s ss' where ss: "ss = s # ss'" "valid_segment s" "list_all valid_segment ss'"
    using Cons.prems(2,3) by (cases ss) auto
  let ?r = "flatten_entry key val (path_of ps) r"
  show ?case
  proof (rule ccontr)
    assume "\<not> ?case"
    then have nr: "\<not> blocks ?r ps ss"
      using blocks_flatten [OF Cons.hyps] by (auto simp: flatten_Cons)
    have no: "find_leaf ss ms' = None"
      using Cons.IH(2) [OF ms' Cons.prems(2-4)] \<open>\<not> ?case\<close> unfolding flatten_Cons by blast
    have first: "r' (path_of (ps @ [s])) \<noteq> None \<Longrightarrow> blocks r' ps ss" for r'
      unfolding blocks_def ss(1) by (intro exI [of _ 1]) simp
    have key: "key = String s" using Cons.prems(5) no represents_key [OF k] ss(1)
      by (auto simp: ms split: if_splits qvalue.splits)
    then have kt: "key_text k = Some s" using represents_key [OF k] by simp
    show False
    proof (rule flatten_entry_cases [OF Cons.hyps, of key val r])
      assume same: "?r = r" and "\<And>s. key = String s \<Longrightarrow> valid_segment s \<Longrightarrow>
         header_column (path_of (ps @ [s])) \<noteq> None \<or> r (path_of (ps @ [s])) \<noteq> None"
      with key ss(2) have "header_column (path_of (ps @ [s])) \<noteq> None \<or> r (path_of (ps @ [s])) \<noteq> None" by blast
      then show False
      proof
        assume "header_column (path_of (ps @ [s])) \<noteq> None"
        then have "under_header_path (path_of ((ps @ [s]) @ ss'))"
          by (rule header_path_reserved) (use Cons.hyps ss in auto)
        with Cons.prems(4) ss(1) show False by simp
      next
        assume "r (path_of (ps @ [s])) \<noteq> None"
        with first nr same show False by metis
      qed
    next
      fix s' assume "key = String s'" "?r = r(path_of (ps @ [s']) \<mapsto> val)"
      with key nr first [of ?r] show False by simp
    next
      fix s' children assume c: "key = String s'" "val = Map children"
        "?r = flatten_entries children (path_of (ps @ [s'])) r"
      with key have s': "s' = s" by simp
      obtain kvs where kvs: "m = MMap kvs" "represents_entries kvs children"
        using m c(2) by (auto elim: represents_MapE)
      with Cons.prems(5) no kt ss(1) have "ss' \<noteq> []" "find_leaf ss' kvs \<noteq> None"
        by (auto simp: ms split: if_splits option.splits)
      with Cons.IH(1) [OF key ss(2) c(2) kvs(2) ss(3)] Cons.prems(4) ss(1) c(3) s'
      have "blocks ?r (ps @ [s]) ss'" by simp
      with blocks_child nr ss(1) show False by blast
    qed
  qed
qed simp

lemma find_leaf_Cons:
  "find_leaf ss ((k, v) # es) = (case find_leaf ss [(k, v)] of Some x \<Rightarrow> Some x | None \<Rightarrow> find_leaf ss es)"
  by (auto split: mp.split option.split)

text \<open>What the flattener stores for a field is the value the extractor finds there.\<close>

lemma flatten_find:
  "list_all valid_segment ps \<Longrightarrow> represents_entries ms es \<Longrightarrow> list_all valid_segment ss \<Longrightarrow> ss \<noteq> [] \<Longrightarrow>
     \<not> under_header_path (path_of (ps @ ss)) \<Longrightarrow> r (path_of (ps @ ss)) = None \<Longrightarrow>
     flatten_entries es (path_of ps) r (path_of (ps @ ss)) = Some v \<Longrightarrow>
     \<exists>x. find_leaf ss ms = Some x \<and> represents x v"
proof (induction es ps r arbitrary: ss ms rule: flatten_induct)
  case (Cons key val entries ps r)
  obtain k m ms' where ms: "ms = (k, m) # ms'" and k: "represents k key" and m: "represents m val"
    and ms': "represents_entries ms' entries" using represents_entries_Cons [OF Cons.prems(1)] by blast
  let ?r = "flatten_entry key val (path_of ps) r" and ?f = "path_of (ps @ ss)"
  show ?case
  proof (cases "?r ?f")
    case None
    have "\<not> blocks ?r ps ss"
      using flatten_blocked [OF Cons.hyps Cons.prems(2,3)] Cons.prems(6) None by (auto simp: flatten_Cons)
    moreover have "represents_entries [(k, m)] [(key, val)]" using k m by simp
    ultimately have "find_leaf ss [(k, m)] = None"
      using flatten_or_blocked [OF Cons.hyps _ Cons.prems(2-4)] unfolding flatten_entry_def by blast
    moreover obtain x where "find_leaf ss ms' = Some x" "represents x v"
      using Cons.IH(2) [where r = ?r, OF ms' Cons.prems(2-4)] Cons.prems(6) None unfolding flatten_Cons by blast
    ultimately show ?thesis unfolding ms find_leaf_Cons [of ss k m ms'] by simp
  next
    case (Some w)
    with flatten_mono [OF Cons.hyps, where r = ?r and p = ?f] Cons.prems(6) have w: "w = v" by (simp add: flatten_Cons)
    show ?thesis
    proof (rule flatten_entry_cases [OF Cons.hyps, of key val r])
      fix s assume s: "key = String s" "valid_segment s" "\<nexists>vs. val = Map vs"
        "?r = r(path_of (ps @ [s]) \<mapsto> val)"
      with Some Cons.prems(5) have "?f = path_of (ps @ [s])" and val: "val = v"
        using w by (auto split: if_splits)
      then have "ss = [s]" using Cons.hyps Cons.prems(2,3) s(2) by (simp add: path_of_inject)
      with s m val represents_key [OF k] represents_is_map [OF m] show ?thesis by (simp add: ms)
    next
      fix s children assume c: "key = String s" "valid_segment s" "val = Map children"
        "?r = flatten_entries children (path_of (ps @ [s])) r"
      with Cons.hyps Some Cons.prems(5) flatten_below [of "ps @ [s]" children r ?f] obtain ss' where
        ss': "ss' \<noteq> []" "list_all valid_segment ss'" "?f = path_of (ps @ s # ss')" by auto
      then have ss: "ss = s # ss'" using Cons.hyps Cons.prems(2,3) c(2) by (simp add: path_of_inject)
      obtain kvs where kvs: "m = MMap kvs" "represents_entries kvs children"
        using m c(3) by (auto elim: represents_MapE)
      with Cons.IH(1) [OF c(1-3) kvs(2) ss'(2,1)] Cons.prems(4,5) Some c(4) ss w obtain x where
        "find_leaf ss' kvs = Some x" "represents x v" by auto
      with represents_key [OF k] c(1) ss ss'(1) kvs(1) show ?thesis by (simp add: ms)
    qed (use Some Cons.prems(5) in simp)
  qed
qed simp

end
