(* ===== verification/Query_Ast.thy ===== *)
theory Query_Ast
  imports Query_Value
begin

text \<open>
  The semantic model of the observability query language
  (\<^verbatim>\<open>eventd/src/query_language.rs\<close>): the types a parsed query is made of. Constructors whose source
  name is already taken carry a letter of their type: \<open>L\<close> for a literal, \<open>Op\<close> for an operator.
\<close>

datatype operator =
  OpEqual | OpNotEqual | OpGreater | OpGreaterEqual | OpLess | OpLessEqual
  | OpStartsWith | OpEndsWith | OpContains | OpHas

datatype literal =
  LSigned i64
  | LUnsigned u64
  | LFloat f64
  | LString string
  | LBinary "u8 list"
  | LBool bool

datatype expr =
  Compare string operator literal
  | In string bool "literal list"
  | IsNull string bool
  | And expr expr
  | Or expr expr

datatype cross_filter =
  CrossMetric string "expr list option" operator literal
  | EventExists string
  | LogExists string "string option"

datatype source =
  Events "string option"
  | Logs "string list" bool "string option"
  | Metric string "expr list option"

datatype time_expr =
  Relative u64 bool
  | Today
  | Yesterday
  | Absolute string

record sort_key =
  sk_field :: string
  sk_descending :: bool

datatype group_function = GCount | GSum string | GAvg string | GMin string | GMax string

datatype record_aggregate =
  CountBy string
  | TopBy u64 string
  | Distinct string
  | Group "string list" group_function

datatype transform = Rate | Delta | Percentile u8

datatype aggregate_function = AAvg | AMin | AMax | ASum

datatype metric_aggregate = Scalar aggregate_function | Window aggregate_function u64

record query =
  q_source :: source
  q_since :: "time_expr option"
  q_until :: "time_expr option"
  q_predicates :: "expr list"
  q_cross_filters :: "cross_filter list"
  q_sort :: "sort_key list"
  q_take :: "u64 option"
  q_skip :: u64
  q_select :: "string list"
  q_aggregate :: "record_aggregate option"
  q_transform :: "transform option"
  q_metric_aggregate :: "metric_aggregate option"
  q_stream :: bool
  q_index :: "string option"

text \<open>\<^verbatim>\<open>Expr::fields\<close> appends the fields an expression names, each once.\<close>

definition push_field :: "string \<Rightarrow> string list \<Rightarrow> string list" where
  "push_field field out = (if field \<in> set out then out else out @ [field])"

fun expr_fields :: "expr \<Rightarrow> string list \<Rightarrow> string list" where
  "expr_fields (Compare field _ _) out = push_field field out"
| "expr_fields (In field _ _) out = push_field field out"
| "expr_fields (IsNull field _) out = push_field field out"
| "expr_fields (And left right) out = expr_fields right (expr_fields left out)"
| "expr_fields (Or left right) out = expr_fields right (expr_fields left out)"

fun fields_in :: "expr \<Rightarrow> string set" where
  "fields_in (Compare field _ _) = {field}"
| "fields_in (In field _ _) = {field}"
| "fields_in (IsNull field _) = {field}"
| "fields_in (And left right) = fields_in left \<union> fields_in right"
| "fields_in (Or left right) = fields_in left \<union> fields_in right"

lemma set_expr_fields [simp]: "set (expr_fields e out) = set out \<union> fields_in e"
  by (induction e arbitrary: out) (auto simp: push_field_def)

lemma distinct_expr_fields: "distinct out \<Longrightarrow> distinct (expr_fields e out)"
  by (induction e arbitrary: out) (auto simp: push_field_def)

fun expr_depth :: "expr \<Rightarrow> nat" where
  "expr_depth (And left right) = max (expr_depth left) (expr_depth right) + 1"
| "expr_depth (Or left right) = max (expr_depth left) (expr_depth right) + 1"
| "expr_depth _ = 1"

end
