(* ===== verification/Query_Lexer.thy ===== *)
theory Query_Lexer
  imports Text_Bytes
begin

text \<open>
  The tokenizer of the query language (\<^verbatim>\<open>eventd/src/query_language.rs\<close>). It walks the bytes of
  the text with a cursor and slices words and string segments out of it; a slice that does not fall
  on character boundaries panics in Rust, so every slice is checked here and shown never to fail on
  the UTF-8 text the tokenizer is given.
\<close>

section \<open>Text\<close>

datatype parse_error = ParseError string

abbreviation parse_fail :: "string \<Rightarrow> parse_error abort + 'a" where
  "parse_fail m \<equiv> Err (Raised (ParseError m))"

definition is_char_boundary :: "string \<Rightarrow> nat \<Rightarrow> bool" where
  "is_char_boundary s i \<longleftrightarrow> i = 0 \<or> i = length s \<or> (i < length s \<and> \<not> continuation (byte_of (s ! i)))"

definition str_slice :: "string \<Rightarrow> nat \<Rightarrow> nat \<Rightarrow> parse_error abort + string" where
  "str_slice s a b =
     (if a \<le> b \<and> b \<le> length s \<and> is_char_boundary s a \<and> is_char_boundary s b
      then Ok (take (b - a) (drop a s)) else Err Panicked)"

definition checked_mul :: "'a::len word \<Rightarrow> 'a word \<Rightarrow> 'a word option" where
  "checked_mul x y = (if unat x * unat y < 2 ^ LENGTH('a) then Some (x * y) else None)"

fun position :: "('a \<Rightarrow> bool) \<Rightarrow> 'a list \<Rightarrow> nat option" where
  "position P [] = None"
| "position P (x # xs) = (if P x then Some 0 else map_option Suc (position P xs))"

abbreviation (input) quote_char :: char where
  "quote_char \<equiv> CHR 0x22"

abbreviation (input) backslash :: char where
  "backslash \<equiv> CHR 0x5C"

text \<open>The UTF-8 bytes of a Unicode scalar value, as \<^verbatim>\<open>String::push\<close> writes them.\<close>

definition encode_utf8 :: "nat \<Rightarrow> string" where
  "encode_utf8 n = map char_of
     (if n < 0x80 then [n]
      else if n < 0x800 then [0xc0 + n div 64, 0x80 + n mod 64]
      else if n < 0x10000 then [0xe0 + n div 4096, 0x80 + n div 64 mod 64, 0x80 + n mod 64]
      else [0xf0 + n div 262144, 0x80 + n div 4096 mod 64, 0x80 + n div 64 mod 64, 0x80 + n mod 64 :: nat])"

definition char_from_u32 :: "u32 \<Rightarrow> nat option" where
  "char_from_u32 w =
     (if (0xd800 \<le> unat w \<and> unat w \<le> 0xdfff) \<or> 0x10ffff < unat w then None else Some (unat w))"

section \<open>Tokens\<close>

datatype symbol =
  LeftBracket | RightBracket | LeftParen | RightParen | Comma | EqualSign | EqualEqual
  | NotEqual | GreaterSign | GreaterEqual | LessSign | LessEqual

datatype token =
  TWord string
  | TString string
  | TBinary "u8 list"
  | TSymbol symbol

section \<open>Literals\<close>

definition hex_nibble_u32 :: "char \<Rightarrow> u32 option" where
  "hex_nibble_u32 c =
     (if 48 \<le> code c \<and> code c \<le> 57 then Some (of_nat (code c - 48))
      else if 97 \<le> code c \<and> code c \<le> 102 then Some (of_nat (code c - 97 + 10))
      else if 65 \<le> code c \<and> code c \<le> 70 then Some (of_nat (code c - 65 + 10))
      else None)"

fun parse_hex_loop :: "u32 \<Rightarrow> string \<Rightarrow> parse_error abort + u32" where
  "parse_hex_loop acc [] = Ok acc"
| "parse_hex_loop acc (byte # bytes) =
     (case hex_nibble_u32 byte of
        None \<Rightarrow> parse_fail ''invalid hexadecimal digit''
      | Some n \<Rightarrow>
          (case Option.bind (checked_mul acc 16) (\<lambda>item. checked_add item n) of
             None \<Rightarrow> parse_fail ''hexadecimal value is too large''
           | Some v \<Rightarrow> parse_hex_loop v bytes))"

definition parse_hex :: "string \<Rightarrow> parse_error abort + u32" where
  "parse_hex bytes = parse_hex_loop 0 bytes"

text \<open>The escape at the cursor: the text it stands for and where the literal goes on.\<close>

definition string_escape :: "string \<Rightarrow> nat \<Rightarrow> parse_error abort + (string \<times> nat)" where
  "string_escape str cursor =
     (if length str \<le> cursor then parse_fail ''unterminated string escape''
      else
        let escaped = str ! cursor in
        if escaped = quote_char then Ok ([quote_char], cursor + 1)
        else if escaped = backslash then Ok ([backslash], cursor + 1)
        else if escaped = CHR ''n'' then Ok ([CHR 0x0A], cursor + 1)
        else if escaped = CHR ''r'' then Ok ([CHR 0x0D], cursor + 1)
        else if escaped = CHR ''t'' then Ok ([CHR 0x09], cursor + 1)
        else if escaped = CHR ''u'' then
          (if length str < cursor + 5 then parse_fail ''short Unicode escape''
           else
             rbind (parse_hex (take 4 (drop (cursor + 1) str))) (\<lambda>scalar.
               if 0xd800 \<le> scalar \<and> scalar \<le> 0xdfff then parse_fail ''surrogate Unicode escape''
               else
                 (case char_from_u32 scalar of
                    None \<Rightarrow> parse_fail ''invalid Unicode escape''
                  | Some c \<Rightarrow> Ok (encode_utf8 c, cursor + 5))))
        else parse_fail ''unknown string escape'')"

lemma string_escape_advances: "string_escape str cursor = Ok (s, next) \<Longrightarrow> cursor < next \<and> next \<le> length str"
  by (auto simp: string_escape_def Let_def rbind_Ok_iff split: if_splits option.splits)

function string_loop :: "string \<Rightarrow> string \<Rightarrow> nat \<Rightarrow> nat \<Rightarrow> parse_error abort + (string \<times> nat)" where
  "string_loop str out cursor segment =
     (if length str \<le> cursor then parse_fail ''unterminated string''
      else if str ! cursor = quote_char then
        rbind (str_slice str segment cursor) (\<lambda>s. Ok (out @ s, cursor + 1))
      else if str ! cursor = backslash then
        rbind (str_slice str segment cursor) (\<lambda>s.
        rbind (string_escape str (cursor + 1)) (\<lambda>(c, next). string_loop str (out @ s @ c) next next))
      else string_loop str out (cursor + 1) segment)"
  by pat_completeness auto
termination
  by (relation "measure (\<lambda>(str, out, cursor, segment). length str - cursor)")
    (auto dest: string_escape_advances)

declare string_loop.simps [simp del]

definition string_literal :: "string \<Rightarrow> nat \<Rightarrow> parse_error abort + (string \<times> nat)" where
  "string_literal str start = string_loop str [] (start + 1) (start + 1)"

fun as_chunks2 :: "'a list \<Rightarrow> 'a list list" where
  "as_chunks2 (a # b # xs) = [a, b] # as_chunks2 xs"
| "as_chunks2 _ = []"

fun binary_loop :: "u8 list \<Rightarrow> string list \<Rightarrow> parse_error abort + u8 list" where
  "binary_loop out [] = Ok out"
| "binary_loop out (pair # pairs) =
     rbind (parse_hex pair) (\<lambda>v. if unat v < 256 then binary_loop (out @ [ucast v]) pairs else Err Panicked)"

definition binary_literal :: "string \<Rightarrow> nat \<Rightarrow> parse_error abort + (u8 list \<times> nat)" where
  "binary_literal bytes start =
     (let content_start = start + 2 in
      if length bytes < content_start then Err Panicked
      else
        case position (\<lambda>byte. byte = quote_char) (drop content_start bytes) of
          None \<Rightarrow> parse_fail ''unterminated binary literal''
        | Some relative_end \<Rightarrow>
            let end_at = content_start + relative_end;
                digits = take relative_end (drop content_start bytes) in
            if odd (length digits) then parse_fail ''binary literal has an odd digit count''
            else rbind (binary_loop [] (as_chunks2 digits)) (\<lambda>out. Ok (out, end_at + 1)))"

section \<open>The tokenizer\<close>

fun symbol_at :: "string \<Rightarrow> (symbol \<times> nat) option" where
  "symbol_at [] = None"
| "symbol_at (c # cs) =
     (let second = (case cs of d # _ \<Rightarrow> d = CHR ''='' | [] \<Rightarrow> False) in
      if c = CHR ''='' \<and> second then Some (EqualEqual, 2)
      else if c = CHR ''!'' \<and> second then Some (NotEqual, 2)
      else if c = CHR ''>'' \<and> second then Some (GreaterEqual, 2)
      else if c = CHR ''<'' \<and> second then Some (LessEqual, 2)
      else if c = CHR ''['' then Some (LeftBracket, 1)
      else if c = CHR '']'' then Some (RightBracket, 1)
      else if c = CHR ''('' then Some (LeftParen, 1)
      else if c = CHR '')'' then Some (RightParen, 1)
      else if c = CHR '','' then Some (Comma, 1)
      else if c = CHR ''='' then Some (EqualSign, 1)
      else if c = CHR ''>'' then Some (GreaterSign, 1)
      else if c = CHR ''<'' then Some (LessSign, 1)
      else None)"

definition word_stop :: "char \<Rightarrow> bool" where
  "word_stop c \<longleftrightarrow> is_ascii_whitespace c \<or> c \<in> set (''[](),=!<>'' @ [quote_char])"

function word_end :: "string \<Rightarrow> nat \<Rightarrow> nat" where
  "word_end str cursor =
     (if cursor < length str \<and> \<not> word_stop (str ! cursor) then word_end str (cursor + 1) else cursor)"
  by pat_completeness auto
termination
  by (relation "measure (\<lambda>(str, cursor). length str - cursor)") auto

declare word_end.simps [simp del]

lemma string_loop_advances: "string_loop str out cursor segment = Ok (s, next) \<Longrightarrow> cursor < next \<and> next \<le> length str"
proof (induction str out cursor segment rule: string_loop.induct)
  case (1 str out cursor segment)
  have lt: "\<not> length str \<le> cursor" using "1.prems" by (subst (asm) string_loop.simps) (simp split: if_splits)
  consider "str ! cursor = quote_char" | "str ! cursor \<noteq> quote_char" "str ! cursor = backslash"
    | "str ! cursor \<noteq> quote_char" "str ! cursor \<noteq> backslash" by blast
  then show ?case
  proof cases
    case 1
    with "1.prems" lt show ?thesis by (subst (asm) string_loop.simps) (auto simp: rbind_Ok_iff)
  next
    case 2
    with "1.prems" lt obtain a c at where "str_slice str segment cursor = Ok a"
      "string_escape str (cursor + 1) = Ok (c, at)" "string_loop str (out @ a @ c) at at = Ok (s, next)"
      unfolding string_loop.simps [of str out cursor] by (auto simp: rbind_Ok_iff)
    with "1.IH"(1) [OF lt 2] string_escape_advances show ?thesis by fastforce
  next
    case 3
    with "1.prems" lt have "string_loop str out (cursor + 1) segment = Ok (s, next)"
      by (subst (asm) string_loop.simps) simp
    from "1.IH"(2) [OF lt 3 this] show ?thesis by simp
  qed
qed

lemma position_SomeD: "position P xs = Some n \<Longrightarrow> n < length xs \<and> P (xs ! n) \<and> (\<forall>k<n. \<not> P (xs ! k))"
  by (induction xs arbitrary: n) (auto split: if_splits simp: less_Suc_eq_0_disj)

lemma binary_literal_advances: "binary_literal bytes start = Ok (b, next) \<Longrightarrow> start < next \<and> next \<le> length bytes"
  by (auto simp: binary_literal_def Let_def rbind_Ok_iff split: if_splits option.splits dest!: position_SomeD)

lemma word_end_ge: "cursor \<le> word_end str cursor"
proof (induction str cursor rule: word_end.induct)
  case (1 str cursor)
  then show ?case by (subst word_end.simps) (auto dest: Suc_leD)
qed

lemma symbol_at_length: "symbol_at s = Some (sb, n) \<Longrightarrow> 0 < n \<and> n \<le> length s"
  by (cases s) (auto simp: Let_def split: if_splits list.splits)

function tokenize_loop :: "string \<Rightarrow> nat \<Rightarrow> token list \<Rightarrow> parse_error abort + token list" where
  "tokenize_loop str cursor tokens =
     (if length str \<le> cursor then Ok tokens
      else if is_ascii_whitespace (str ! cursor) then tokenize_loop str (cursor + 1) tokens
      else if str ! cursor = CHR ''x'' \<and> cursor + 1 < length str \<and> str ! (cursor + 1) = quote_char then
        rbind (binary_literal str cursor) (\<lambda>(binary, next). tokenize_loop str next (tokens @ [TBinary binary]))
      else if str ! cursor = quote_char then
        rbind (string_literal str cursor) (\<lambda>(s, next). tokenize_loop str next (tokens @ [TString s]))
      else
        case symbol_at (drop cursor str) of
          Some (sb, len) \<Rightarrow> tokenize_loop str (cursor + len) (tokens @ [TSymbol sb])
        | None \<Rightarrow>
            let end_at = word_end str cursor in
            if end_at = cursor then parse_fail ''invalid character in query''
            else rbind (str_slice str cursor end_at) (\<lambda>w. tokenize_loop str end_at (tokens @ [TWord w])))"
  by pat_completeness auto
termination
  by (relation "measure (\<lambda>(str, cursor, tokens). length str - cursor)")
    (auto simp: string_literal_def dest: string_loop_advances binary_literal_advances symbol_at_length
      intro: diff_less_mono2 simp: le_neq_implies_less word_end_ge)

declare tokenize_loop.simps [simp del]

definition tokenize :: "string \<Rightarrow> parse_error abort + token list" where
  "tokenize str = tokenize_loop str 0 []"

end
