(* ===== verification/Decimal.thy ===== *)
theory Decimal
  imports Query_Value
begin

text \<open>
  Numbers from text, as \<^verbatim>\<open>str::parse\<close> and \<^verbatim>\<open>from_str_radix\<close> of the standard library read them:
  an integer may carry a sign its type allows and must fit the type; a float is a decimal that is
  rounded to the nearest double, ties to even.
\<close>

section \<open>Integers\<close>

definition digit_value :: "char \<Rightarrow> nat" where
  "digit_value c = code c - 48"

definition decimal_nat :: "string \<Rightarrow> nat" where
  "decimal_nat s = foldl (\<lambda>a c. 10 * a + digit_value c) 0 s"

definition strip_plus :: "string \<Rightarrow> string" where
  "strip_plus s = (case s of c # cs \<Rightarrow> if c = CHR ''+'' then cs else s | [] \<Rightarrow> [])"

definition parse_u64 :: "string \<Rightarrow> u64 option" where
  "parse_u64 s =
     (let ds = strip_plus s in
      if ds \<noteq> [] \<and> list_all is_ascii_digit ds \<and> decimal_nat ds < 2 ^ 64
      then Some (of_nat (decimal_nat ds)) else None)"

definition parse_i64 :: "string \<Rightarrow> i64 option" where
  "parse_i64 s =
     (let negative = (case s of c # _ \<Rightarrow> c = CHR ''-'' | [] \<Rightarrow> False);
          ds = (if negative then tl s else strip_plus s);
          v = (if negative then - int (decimal_nat ds) else int (decimal_nat ds)) in
      if ds \<noteq> [] \<and> list_all is_ascii_digit ds \<and> - (2 ^ 63) \<le> v \<and> v < 2 ^ 63
      then Some (of_int v) else None)"

definition hex_digit_value :: "char \<Rightarrow> nat" where
  "hex_digit_value c =
     (if is_ascii_digit c then code c - 48 else if 97 \<le> code c then code c - 87 else code c - 55)"

definition hex_nat :: "string \<Rightarrow> nat" where
  "hex_nat s = foldl (\<lambda>a c. 16 * a + hex_digit_value c) 0 s"

definition parse_u64_hex :: "string \<Rightarrow> u64 option" where
  "parse_u64_hex s =
     (let ds = strip_plus s in
      if ds \<noteq> [] \<and> list_all is_ascii_hexdigit ds \<and> hex_nat ds < 2 ^ 64
      then Some (of_nat (hex_nat ds)) else None)"

section \<open>Floats\<close>

text \<open>The exponent of the power of two at or below a positive rational.\<close>

definition binade :: "rat \<Rightarrow> int" where
  "binade r =
     (let (p, q) = quotient_of r; k = int (floorlog 2 (nat p)) - int (floorlog 2 (nat q)) in
      if (2 :: rat) powi k \<le> r then k else k - 1)"

definition round_half_even :: "rat \<Rightarrow> nat" where
  "round_half_even r =
     (let n = nat \<lfloor>r\<rfloor>; rest = r - of_nat n in
      if rest < 1 / 2 then n else if 1 / 2 < rest then n + 1 else if even n then n else n + 1)"

text \<open>
  The bits of the double nearest to a non-negative rational. The significand is rounded at the
  binade of the value, or at the smallest normal one; adding it to the exponent field carries into
  the next binade when the rounding does.
\<close>

definition f64_of_rat :: "rat \<Rightarrow> f64" where
  "f64_of_rat r =
     (if r = 0 then 0
      else
        let e = max (binade r) (- 1022);
            bits = nat ((e + 1022) * 2 ^ 52 + int (round_half_even (r * 2 powi (52 - e)))) in
        of_nat (min bits (0x7ff0000000000000)))"

definition f64_sign :: "bool \<Rightarrow> f64 \<Rightarrow> f64" where
  "f64_sign negative w = (if negative then w OR 0x8000000000000000 else w)"

definition span_digits :: "string \<Rightarrow> string \<times> string" where
  "span_digits s = (takeWhile is_ascii_digit s, dropWhile is_ascii_digit s)"

definition decimal_exponent :: "string \<Rightarrow> int option" where
  "decimal_exponent s =
     (case s of
        [] \<Rightarrow> Some 0
      | c # cs \<Rightarrow>
          if c = CHR ''e'' \<or> c = CHR ''E'' then
            (let negative = (case cs of d # _ \<Rightarrow> d = CHR ''-'' | [] \<Rightarrow> False);
                 ds = (if negative then tl cs else strip_plus cs) in
             if ds \<noteq> [] \<and> list_all is_ascii_digit ds
             then Some (if negative then - int (decimal_nat ds) else int (decimal_nat ds)) else None)
          else None)"

definition decimal_rat :: "string \<Rightarrow> rat option" where
  "decimal_rat s =
     (let (whole, r1) = span_digits s;
          (frac, r2) = (case r1 of c # cs \<Rightarrow> if c = CHR ''.'' then span_digits cs else ([], r1) | [] \<Rightarrow> ([], [])) in
      if whole = [] \<and> frac = [] then None
      else map_option (\<lambda>e. of_nat (decimal_nat (whole @ frac)) * (10 :: rat) powi (e - int (length frac)))
        (decimal_exponent r2))"

definition parse_f64 :: "string \<Rightarrow> f64 option" where
  "parse_f64 s =
     (let negative = (case s of c # _ \<Rightarrow> c = CHR ''-'' | [] \<Rightarrow> False);
          body = (if negative then tl s else strip_plus s) in
      case decimal_rat body of
        Some r \<Rightarrow> Some (f64_sign negative (f64_of_rat r))
      | None \<Rightarrow>
          if eq_ignore_ascii_case body ''inf'' \<or> eq_ignore_ascii_case body ''infinity''
          then Some (f64_sign negative 0x7ff0000000000000)
          else if eq_ignore_ascii_case body ''nan'' then Some (f64_sign negative 0x7ff8000000000000)
          else None)"

end
