(* ===== verification/Query_Parser.thy ===== *)
theory Query_Parser
  imports Query_Ast Query_Lexer Decimal
begin

text \<open>
  The parser of the query language (\<^verbatim>\<open>eventd/src/query_language.rs\<close>): recursive descent over the
  tokens, with the cursor and the parenthesis depth as its state. A parsing function returns its
  value with the parser it leaves behind, an error, or \<open>Panicked\<close> where the Rust code would panic.
\<close>

section \<open>The parser's state\<close>

record parser =
  p_tokens :: "token list"
  p_cursor :: nat
  parenthesis_depth :: nat

type_synonym 'a parsed = "parse_error abort + 'a \<times> parser"

definition MAX_EXPRESSION_DEPTH :: nat where
  "MAX_EXPRESSION_DEPTH = 128"

definition parser_new :: "token list \<Rightarrow> parser" where
  "parser_new tokens = \<lparr>p_tokens = tokens, p_cursor = 0, parenthesis_depth = 0\<rparr>"

definition current :: "parser \<Rightarrow> token option" where
  "current p = (if p_cursor p < length (p_tokens p) then Some (p_tokens p ! p_cursor p) else None)"

definition advance :: "parser \<Rightarrow> parser" where
  "advance p = p\<lparr>p_cursor := p_cursor p + 1\<rparr>"

definition parser_next :: "parser \<Rightarrow> token option \<times> parser" where
  "parser_next p = (case current p of None \<Rightarrow> (None, p) | Some t \<Rightarrow> (Some t, advance p))"

definition peek_keyword :: "parser \<Rightarrow> string \<Rightarrow> bool" where
  "peek_keyword p expected =
     (case current p of Some (TWord w) \<Rightarrow> eq_ignore_ascii_case w expected | _ \<Rightarrow> False)"

definition consume_keyword :: "parser \<Rightarrow> string \<Rightarrow> bool \<times> parser" where
  "consume_keyword p expected = (if peek_keyword p expected then (True, advance p) else (False, p))"

definition expect_keyword :: "parser \<Rightarrow> string \<Rightarrow> unit parsed" where
  "expect_keyword p expected =
     (case consume_keyword p expected of
        (True, p) \<Rightarrow> Ok ((), p)
      | (False, _) \<Rightarrow> parse_fail (''expected '' @ expected))"

definition consume_symbol :: "parser \<Rightarrow> symbol \<Rightarrow> bool \<times> parser" where
  "consume_symbol p expected = (if current p = Some (TSymbol expected) then (True, advance p) else (False, p))"

definition expect_symbol :: "parser \<Rightarrow> symbol \<Rightarrow> unit parsed" where
  "expect_symbol p expected =
     (case consume_symbol p expected of
        (True, p) \<Rightarrow> Ok ((), p)
      | (False, _) \<Rightarrow> parse_fail ''expected punctuation'')"

definition to_ascii_uppercase :: "char \<Rightarrow> char" where
  "to_ascii_uppercase c = (if is_ascii_lowercase c then char_of (code c - 32) else c)"

abbreviation uppercase :: "string \<Rightarrow> string" where
  "uppercase \<equiv> map to_ascii_uppercase"

definition is_clause :: "string \<Rightarrow> bool" where
  "is_clause w \<longleftrightarrow> uppercase w \<in> set [''SINCE'', ''UNTIL'', ''WHERE'', ''SORT'', ''TAKE'', ''SKIP'', ''SELECT'',
     ''COUNT'', ''TOP'', ''DISTINCT'', ''GROUP'', ''STREAM'', ''INDEX'']"

definition parser_word :: "parser \<Rightarrow> string parsed" where
  "parser_word p =
     (case parser_next p of (Some (TWord v), p) \<Rightarrow> Ok (v, p) | _ \<Rightarrow> parse_fail ''expected keyword'')"

definition parser_identifier :: "parser \<Rightarrow> string parsed" where
  "parser_identifier p =
     (case parser_next p of
        (Some (TWord v), p) \<Rightarrow> Ok (v, p)
      | (Some (TString v), p) \<Rightarrow> Ok (v, p)
      | _ \<Rightarrow> parse_fail ''expected identifier or string'')"

definition pattern_identifier :: "parser \<Rightarrow> string parsed" where
  "pattern_identifier p =
     (case parser_next p of
        (Some (TWord v), p) \<Rightarrow> if is_clause v then parse_fail ''expected identifier pattern'' else Ok (v, p)
      | (Some (TString v), p) \<Rightarrow> Ok (v, p)
      | _ \<Rightarrow> parse_fail ''expected identifier pattern'')"

definition take_primary_identifier :: "parser \<Rightarrow> string option \<times> parser" where
  "take_primary_identifier p =
     (case current p of
        Some (TWord v) \<Rightarrow> if is_clause v then (None, p) else (Some v, advance p)
      | Some (TString v) \<Rightarrow> (Some v, advance p)
      | _ \<Rightarrow> (None, p))"

definition valid_identifier_segment :: "string \<Rightarrow> bool" where
  "valid_identifier_segment s =
     (case s of
        [] \<Rightarrow> False
      | c # cs \<Rightarrow>
          (is_ascii_alphabetic c \<or> c = CHR ''_'') \<and>
          list_all (\<lambda>c. is_ascii_alphanumeric c \<or> c = CHR ''_'' \<or> c = CHR ''-'') cs)"

definition valid_identifier :: "string \<Rightarrow> bool" where
  "valid_identifier s \<longleftrightarrow> s \<noteq> [] \<and> list_all valid_identifier_segment (split_on (CHR ''.'') s)"

definition parser_field :: "parser \<Rightarrow> string parsed" where
  "parser_field p =
     rbind (parser_identifier p) (\<lambda>(v, p).
       if valid_identifier v then Ok (v, p) else parse_fail ''invalid field identifier'')"

definition starts_with :: "string \<Rightarrow> string \<Rightarrow> bool" where
  "starts_with s pre \<longleftrightarrow> take (length pre) s = pre"

definition parser_count :: "parser \<Rightarrow> u64 parsed" where
  "parser_count p =
     rbind (parser_word p) (\<lambda>(w, p).
       if starts_with w ''-'' \<or> starts_with w ''0x'' \<or> list_ex (\<lambda>c. \<not> is_ascii_digit c) w
       then parse_fail ''count must be an unsigned decimal integer''
       else
         (case parse_u64 w of None \<Rightarrow> parse_fail ''count exceeds u64'' | Some n \<Rightarrow> Ok (n, p)))"

section \<open>Literals and times\<close>

definition f64_is_finite :: "f64 \<Rightarrow> bool" where
  "f64_is_finite w \<longleftrightarrow> f64_exponent w \<noteq> 2047"

definition parse_number :: "string \<Rightarrow> parse_error + literal" where
  "parse_number v =
     (if starts_with v ''0x'' then
        let hex = drop 2 v in
        if hex = [] then Err (ParseError ''empty hexadecimal integer'')
        else
          (case parse_u64_hex hex of
             Some n \<Rightarrow> Ok (LUnsigned n)
           | None \<Rightarrow> Err (ParseError ''invalid hexadecimal integer''))
      else if CHR ''.'' \<in> set v \<or> CHR ''e'' \<in> set v \<or> CHR ''E'' \<in> set v then
        (case parse_f64 v of
           None \<Rightarrow> Err (ParseError ''invalid floating-point literal'')
         | Some number \<Rightarrow>
             if \<not> f64_is_finite number then Err (ParseError ''floating-point literal is not finite'')
             else Ok (LFloat number))
      else if starts_with v ''-'' then
        (case parse_i64 v of
           Some n \<Rightarrow> Ok (LSigned n)
         | None \<Rightarrow> Err (ParseError ''signed integer exceeds i64''))
      else
        (case parse_u64 v of
           Some n \<Rightarrow> Ok (LUnsigned n)
         | None \<Rightarrow> Err (ParseError ''not a numeric literal'')))"

definition parser_literal :: "parser \<Rightarrow> literal parsed" where
  "parser_literal p =
     (case parser_next p of
        (None, _) \<Rightarrow> parse_fail ''missing literal''
      | (Some (TString v), p) \<Rightarrow> Ok (LString v, p)
      | (Some (TBinary v), p) \<Rightarrow> Ok (LBinary v, p)
      | (Some (TWord v), p) \<Rightarrow>
          if eq_ignore_ascii_case v ''true'' then Ok (LBool True, p)
          else if eq_ignore_ascii_case v ''false'' then Ok (LBool False, p)
          else if eq_ignore_ascii_case v ''NULL'' then parse_fail ''NULL is valid only with IS''
          else (case parse_number v of Ok l \<Rightarrow> Ok (l, p) | Err _ \<Rightarrow> Ok (LString v, p))
      | (Some (TSymbol _), _) \<Rightarrow> parse_fail ''expected literal'')"

text \<open>\<^verbatim>\<open>split_at\<close> panics when the place to split is inside a character.\<close>

definition duration_unit :: "string \<Rightarrow> parse_error abort + u64" where
  "duration_unit unit =
     (if unit = ''s'' then Ok 1
      else if unit = ''m'' then Ok 60
      else if unit = ''h'' then Ok 3600
      else if unit = ''d'' then Ok 86400
      else parse_fail ''invalid duration unit'')"

definition parse_duration :: "string \<Rightarrow> parse_error abort + u64" where
  "parse_duration v =
     (let k = length v - 1 in
      if \<not> is_char_boundary v k then Err Panicked
      else
        let digits = take k v; unit = drop k v in
        if digits = [] \<or> list_ex (\<lambda>c. \<not> is_ascii_digit c) digits then parse_fail ''invalid duration''
        else
          case parse_u64 digits of
            None \<Rightarrow> parse_fail ''duration is too large''
          | Some count \<Rightarrow>
              if count = 0 then parse_fail ''duration must be non-zero''
              else
                rbind (duration_unit unit) (\<lambda>seconds.
                case Option.bind (checked_mul count seconds) (\<lambda>item. checked_mul item 1000000000) of
                  None \<Rightarrow> parse_fail ''duration is too large''
                | Some n \<Rightarrow> Ok n))"

definition byte_at :: "string \<Rightarrow> nat \<Rightarrow> char \<Rightarrow> bool" where
  "byte_at s i c \<longleftrightarrow> i < length s \<and> s ! i = c"

definition valid_time_shape :: "string \<Rightarrow> bool" where
  "valid_time_shape v \<longleftrightarrow>
     (length v = 10 \<and> byte_at v 4 (CHR ''-'') \<and> byte_at v 7 (CHR ''-'')) \<or>
     (length v = 19 \<and> byte_at v 4 (CHR ''-'') \<and> byte_at v 7 (CHR ''-'') \<and> byte_at v 10 (CHR ''T'') \<and>
      byte_at v 13 (CHR '':'') \<and> byte_at v 16 (CHR '':''))"

definition validate_absolute_time :: "string \<Rightarrow> parse_error abort + unit" where
  "validate_absolute_time v = (if valid_time_shape v then Ok () else parse_fail ''invalid absolute time'')"

definition parser_time :: "parser \<Rightarrow> time_expr parsed" where
  "parser_time p =
     rbind (parser_word p) (\<lambda>(v, p).
       if eq_ignore_ascii_case v ''today'' then Ok (Today, p)
       else if eq_ignore_ascii_case v ''yesterday'' then Ok (Yesterday, p)
       else
         case parse_duration v of
           Err Panicked \<Rightarrow> Err Panicked
         | Ok nanoseconds \<Rightarrow>
             rbind (parser_word p) (\<lambda>(direction, p).
               if lowercase direction = ''ago'' then Ok (Relative nanoseconds False, p)
               else if lowercase direction = ''hence'' then Ok (Relative nanoseconds True, p)
               else parse_fail ''duration time needs ago or hence'')
         | Err (Raised _) \<Rightarrow>
             rbind (validate_absolute_time v) (\<lambda>_. Ok (Absolute v, p)))"

definition parser_duration :: "parser \<Rightarrow> u64 parsed" where
  "parser_duration p = rbind (parser_word p) (\<lambda>(v, p). rbind (parse_duration v) (\<lambda>n. Ok (n, p)))"

section \<open>Progress\<close>

text \<open>
  Every parsing function leaves the tokens and the parenthesis depth alone and, when it takes a
  token, leaves fewer of them. This is what makes the loops below end.
\<close>

definition remaining :: "parser \<Rightarrow> nat" where
  "remaining p = length (p_tokens p) - p_cursor p"

definition same_input :: "parser \<Rightarrow> parser \<Rightarrow> bool" where
  "same_input p p' \<longleftrightarrow> p_tokens p' = p_tokens p \<and> parenthesis_depth p' = parenthesis_depth p"

definition stays :: "parser \<Rightarrow> parser \<Rightarrow> bool" where
  "stays p p' \<longleftrightarrow> same_input p p' \<and> remaining p' \<le> remaining p"

definition progress :: "parser \<Rightarrow> parser \<Rightarrow> bool" where
  "progress p p' \<longleftrightarrow> same_input p p' \<and> remaining p' < remaining p"

named_theorems parser_progress
  \<comment> \<open>what a parsing function does to the parser when it succeeds\<close>

lemma stays_refl [simp]: "stays p p"
  by (simp add: stays_def same_input_def)

lemma progress_stays: "progress p p' \<Longrightarrow> stays p p'"
  by (simp add: stays_def progress_def)

lemma stays_trans: "stays p q \<Longrightarrow> stays q r \<Longrightarrow> stays p r"
  by (auto simp: stays_def same_input_def)

lemma progress_trans [trans]:
  "progress p q \<Longrightarrow> stays q r \<Longrightarrow> progress p r"
  "stays p q \<Longrightarrow> progress q r \<Longrightarrow> progress p r"
  "progress p q \<Longrightarrow> progress q r \<Longrightarrow> progress p r"
  by (auto simp: stays_def progress_def same_input_def)

lemmas progress_simps = stays_def progress_def same_input_def

lemma progress_advance: "current p = Some t \<Longrightarrow> progress p (advance p)"
  by (auto simp: progress_def same_input_def remaining_def current_def advance_def split: if_splits)

lemma parser_next_progress [parser_progress]: "parser_next p = (Some t, p') \<Longrightarrow> progress p p'"
  by (auto simp: parser_next_def progress_advance split: option.splits)

lemma consume_keyword_progress [parser_progress]:
  "consume_keyword p k = (True, p') \<Longrightarrow> progress p p'"
  "consume_keyword p k = (False, p') \<Longrightarrow> p' = p"
  by (auto simp: consume_keyword_def peek_keyword_def progress_advance split: if_splits option.splits)

lemma consume_symbol_progress [parser_progress]:
  "consume_symbol p s = (True, p') \<Longrightarrow> progress p p'"
  "consume_symbol p s = (False, p') \<Longrightarrow> p' = p"
  by (auto simp: consume_symbol_def progress_advance split: if_splits)

lemma consume_sym [parser_progress]:
  "(True, p') = consume_keyword p k \<Longrightarrow> progress p p'" "(False, p') = consume_keyword p k \<Longrightarrow> p' = p"
  "(True, p') = consume_symbol p s \<Longrightarrow> progress p p'" "(False, p') = consume_symbol p s \<Longrightarrow> p' = p"
  by (metis consume_keyword_progress consume_symbol_progress)+

lemma consume_if:
  "(case consume_keyword p k of (True, p') \<Rightarrow> f p' | (False, p') \<Rightarrow> g p') =
     (if peek_keyword p k then f (advance p) else g p)"
  "(case consume_symbol p s of (True, p') \<Rightarrow> f p' | (False, p') \<Rightarrow> g p') =
     (if current p = Some (TSymbol s) then f (advance p) else g p)"
  by (simp_all add: consume_keyword_def consume_symbol_def)

lemma peek_keyword_progress: "peek_keyword p k \<Longrightarrow> progress p (advance p)"
  by (auto simp: peek_keyword_def split: option.splits intro: progress_advance)

lemma consume_stays: "consume_keyword p k = (b, p') \<Longrightarrow> stays p p'"
  by (auto simp: consume_keyword_def split: if_splits intro: progress_stays peek_keyword_progress)

lemma expect_keyword_progress [parser_progress]: "expect_keyword p k = Ok (u, p') \<Longrightarrow> progress p p'"
  by (auto simp: expect_keyword_def split: prod.splits bool.splits dest: consume_keyword_progress)

lemma expect_symbol_progress [parser_progress]: "expect_symbol p k = Ok (u, p') \<Longrightarrow> progress p p'"
  by (auto simp: expect_symbol_def split: prod.splits bool.splits dest: consume_symbol_progress)

lemma parser_word_progress [parser_progress]: "parser_word p = Ok (v, p') \<Longrightarrow> progress p p'"
  by (auto simp: parser_word_def split: prod.splits option.splits token.splits dest: parser_next_progress)

lemma parser_identifier_progress [parser_progress]: "parser_identifier p = Ok (v, p') \<Longrightarrow> progress p p'"
  by (auto simp: parser_identifier_def split: prod.splits option.splits token.splits dest: parser_next_progress)

lemma pattern_identifier_progress [parser_progress]: "pattern_identifier p = Ok (v, p') \<Longrightarrow> progress p p'"
  by (auto simp: pattern_identifier_def split: prod.splits option.splits token.splits if_splits
      dest: parser_next_progress)

lemma parser_field_progress [parser_progress]: "parser_field p = Ok (v, p') \<Longrightarrow> progress p p'"
  by (auto simp: parser_field_def rbind_Ok_iff split: if_splits dest: parser_identifier_progress)

lemma parser_literal_progress [parser_progress]: "parser_literal p = Ok (v, p') \<Longrightarrow> progress p p'"
  by (auto simp: parser_literal_def split: prod.splits option.splits token.splits if_splits sum.splits
      dest: parser_next_progress)

section \<open>Predicates\<close>

definition comparison_operator :: "parser \<Rightarrow> bool \<Rightarrow> operator parsed" where
  "comparison_operator p label =
     (let symbol = (\<lambda>s. current p = Some (TSymbol s)) in
      if symbol EqualEqual \<or> (label \<and> symbol EqualSign) then Ok (OpEqual, advance p)
      else if symbol NotEqual then Ok (OpNotEqual, advance p)
      else if symbol GreaterEqual then Ok (OpGreaterEqual, advance p)
      else if symbol GreaterSign then Ok (OpGreater, advance p)
      else if symbol LessEqual then Ok (OpLessEqual, advance p)
      else if symbol LessSign then Ok (OpLess, advance p)
      else if peek_keyword p ''STARTS_WITH'' then Ok (OpStartsWith, advance p)
      else if peek_keyword p ''ENDS_WITH'' then Ok (OpEndsWith, advance p)
      else if peek_keyword p ''CONTAINS'' then Ok (OpContains, advance p)
      else if peek_keyword p ''HAS'' then Ok (OpHas, advance p)
      else parse_fail ''expected comparison operator'')"

lemma comparison_operator_progress [parser_progress]: "comparison_operator p l = Ok (v, p') \<Longrightarrow> progress p p'"
  unfolding comparison_operator_def Let_def
  by (auto split: if_splits intro: progress_advance peek_keyword_progress)

text \<open>The values of an \<^verbatim>\<open>IN\<close> list, up to its closing parenthesis.\<close>

function in_values :: "parser \<Rightarrow> literal list \<Rightarrow> literal list parsed" where
  "in_values p values =
     rbind (parser_literal p) (\<lambda>(l, p1).
       case consume_symbol p1 RightParen of
         (True, p2) \<Rightarrow> Ok (values @ [l], p2)
       | (False, p2) \<Rightarrow> rbind (expect_symbol p2 Comma) (\<lambda>(_, p3). in_values p3 (values @ [l])))"
  by pat_completeness auto
termination
  by (relation "measure (\<lambda>(p, vs). remaining p)")
    (auto dest!: parser_progress simp: progress_def)

declare in_values.simps [simp del]

lemma in_values_progress [parser_progress]: "in_values p vs = Ok (v, p') \<Longrightarrow> progress p p'"
proof (induction p vs rule: in_values.induct)
  case (1 p vs)
  from "1.prems" obtain l p1 where l: "parser_literal p = Ok (l, p1)"
    and r: "(if current p1 = Some (TSymbol RightParen) then Ok (vs @ [l], advance p1)
      else rbind (expect_symbol p1 Comma) (\<lambda>(_, p3). in_values p3 (vs @ [l]))) = Ok (v, p')"
    unfolding in_values.simps [of p vs] consume_if by (auto simp: rbind_Ok_iff)
  show ?case
  proof (cases "current p1 = Some (TSymbol RightParen)")
    case True
    with r l show ?thesis by (auto dest!: parser_progress progress_advance intro: progress_trans)
  next
    case False
    with r obtain u p3 where c: "expect_symbol p1 Comma = Ok (u, p3)" "in_values p3 (vs @ [l]) = Ok (v, p')"
      by (auto simp: rbind_Ok_iff)
    have "consume_symbol p1 RightParen = (False, p1)" using False by (simp add: consume_symbol_def)
    with "1.IH" [OF l] c have "progress p3 p'" by fastforce
    with c l show ?thesis by (auto dest!: parser_progress intro: progress_trans)
  qed
qed

fun is_binary_literal :: "literal \<Rightarrow> bool" where
  "is_binary_literal (LBinary _) = True"
| "is_binary_literal _ = False"

definition simple_predicate :: "parser \<Rightarrow> bool \<Rightarrow> expr parsed" where
  "simple_predicate p label =
     rbind (parser_field p) (\<lambda>(field, p1).
       case consume_keyword p1 ''IS'' of
         (True, p2) \<Rightarrow>
           (case consume_keyword p2 ''NOT'' of (negated, p3) \<Rightarrow>
              rbind (expect_keyword p3 ''NULL'') (\<lambda>(_, p4). Ok (IsNull field negated, p4)))
       | (False, _) \<Rightarrow>
           if peek_keyword p1 ''IN'' \<or> peek_keyword p1 ''NOT_IN'' then
             let negated = peek_keyword p1 ''NOT_IN'' in
             rbind (expect_symbol (advance p1) LeftParen) (\<lambda>(_, p2).
             rbind (in_values p2 []) (\<lambda>(values, p3). Ok (In field negated values, p3)))
           else
             rbind (comparison_operator p1 label) (\<lambda>(op, p2).
             rbind (parser_literal p2) (\<lambda>(v, p3).
               if is_binary_literal v \<and> op \<in> {OpGreater, OpGreaterEqual, OpLess, OpLessEqual}
               then parse_fail ''binary values cannot be ordered''
               else Ok (Compare field op v, p3))))"

lemma simple_predicate_progress [parser_progress]: "simple_predicate p l = Ok (v, p') \<Longrightarrow> progress p p'"
  unfolding simple_predicate_def Let_def consume_if
  by (auto simp: rbind_Ok_iff split: if_splits prod.splits
      dest!: parser_progress peek_keyword_progress consume_stays intro: progress_trans)

section \<open>Expressions\<close>

record parsed_expr =
  pe_value :: expr
  pe_depth :: nat

definition leaf :: "expr \<Rightarrow> parsed_expr" where
  "leaf e = \<lparr>pe_value = e, pe_depth = 1\<rparr>"

definition expression_depth_error :: "parse_error abort" where
  "expression_depth_error = Raised (ParseError ''expression depth exceeds 128 levels'')"

definition join :: "parsed_expr \<Rightarrow> parsed_expr \<Rightarrow> (expr \<Rightarrow> expr \<Rightarrow> expr) \<Rightarrow> parse_error abort + parsed_expr" where
  "join left right combine =
     (let depth = max (pe_depth left) (pe_depth right) + 1 in
      if depth > MAX_EXPRESSION_DEPTH then Err expression_depth_error
      else Ok \<lparr>pe_value = combine (pe_value left) (pe_value right), pe_depth = depth\<rparr>)"

definition deeper :: "parser \<Rightarrow> parser" where
  "deeper p = p\<lparr>parenthesis_depth := parenthesis_depth p + 1\<rparr>"

definition shallower :: "parser \<Rightarrow> parser" where
  "shallower p = p\<lparr>parenthesis_depth := parenthesis_depth p - 1\<rparr>"

text \<open>The \<^verbatim>\<open>while\<close> loops of \<^verbatim>\<open>or_expression\<close> and \<^verbatim>\<open>and_expression\<close> are functions of their own.\<close>

function (domintros) or_expression :: "parser \<Rightarrow> parsed_expr parsed"
  and or_loop :: "parser \<Rightarrow> parsed_expr \<Rightarrow> parsed_expr parsed"
  and and_expression :: "parser \<Rightarrow> parsed_expr parsed"
  and and_loop :: "parser \<Rightarrow> parsed_expr \<Rightarrow> parsed_expr parsed"
  and predicate_atom :: "parser \<Rightarrow> parsed_expr parsed"
where
  "or_expression p = rbind (and_expression p) (\<lambda>(e, p1). or_loop p1 e)"
| "or_loop p e =
     (case consume_keyword p ''OR'' of
        (False, _) \<Rightarrow> Ok (e, p)
      | (True, p1) \<Rightarrow>
          rbind (and_expression p1) (\<lambda>(right, p2). rbind (join e right Or) (\<lambda>e. or_loop p2 e)))"
| "and_expression p = rbind (predicate_atom p) (\<lambda>(e, p1). and_loop p1 e)"
| "and_loop p e =
     (case consume_keyword p ''AND'' of
        (False, _) \<Rightarrow> Ok (e, p)
      | (True, p1) \<Rightarrow>
          rbind (predicate_atom p1) (\<lambda>(right, p2). rbind (join e right And) (\<lambda>e. and_loop p2 e)))"
| "predicate_atom p =
     (case consume_symbol p LeftParen of
        (True, p1) \<Rightarrow>
          if parenthesis_depth p1 = MAX_EXPRESSION_DEPTH then Err expression_depth_error
          else
            rbind (or_expression (deeper p1)) (\<lambda>(e, p2).
            rbind (expect_symbol (shallower p2) RightParen) (\<lambda>(_, p3). Ok (e, p3)))
      | (False, _) \<Rightarrow> rbind (simple_predicate p False) (\<lambda>(e, p1). Ok (leaf e, p1)))"
  by pat_completeness auto

lemma progress_paren: "progress (deeper p) q \<Longrightarrow> progress p (shallower q)"
  by (auto simp: progress_def same_input_def remaining_def deeper_def shallower_def)

lemma consume_pair:
  "(True, advance p) = consume_keyword p k \<longleftrightarrow> peek_keyword p k"
  "(True, advance p) = consume_symbol p s \<longleftrightarrow> current p = Some (TSymbol s)"
  by (auto simp: consume_keyword_def consume_symbol_def)

lemma expression_progress_dom:
  "or_expression_or_loop_and_expression_and_loop_predicate_atom_dom (Inl (Inl p)) \<Longrightarrow>
     \<forall>r p'. or_expression p = Ok (r, p') \<longrightarrow> progress p p'"
  "or_expression_or_loop_and_expression_and_loop_predicate_atom_dom (Inl (Inr (p, e))) \<Longrightarrow>
     \<forall>r p'. or_loop p e = Ok (r, p') \<longrightarrow> stays p p'"
  "or_expression_or_loop_and_expression_and_loop_predicate_atom_dom (Inr (Inl p)) \<Longrightarrow>
     \<forall>r p'. and_expression p = Ok (r, p') \<longrightarrow> progress p p'"
  "or_expression_or_loop_and_expression_and_loop_predicate_atom_dom (Inr (Inr (Inl (p, e)))) \<Longrightarrow>
     \<forall>r p'. and_loop p e = Ok (r, p') \<longrightarrow> stays p p'"
  "or_expression_or_loop_and_expression_and_loop_predicate_atom_dom (Inr (Inr (Inr p))) \<Longrightarrow>
     \<forall>r p'. predicate_atom p = Ok (r, p') \<longrightarrow> progress p p'"
proof (induction p and p e and p and p e and p rule: or_expression_or_loop_and_expression_and_loop_predicate_atom.pinduct)
  case (1 p)
  show ?case unfolding or_expression.psimps [OF "1.hyps"]
    using "1.IH" by (auto simp: rbind_Ok_iff intro: progress_trans)
next
  case (2 p e)
  show ?case unfolding or_loop.psimps [OF "2.hyps"] consume_if
    using "2.IH"(1) [of True "advance p"] "2.IH"(2) [of True "advance p"]
    by (auto simp: rbind_Ok_iff consume_pair intro: stays_trans progress_stays dest: peek_keyword_progress)
      (meson peek_keyword_progress progress_stays stays_trans)
next
  case (3 p)
  show ?case unfolding and_expression.psimps [OF "3.hyps"]
    using "3.IH" by (auto simp: rbind_Ok_iff intro: progress_trans)
next
  case (4 p e)
  show ?case unfolding and_loop.psimps [OF "4.hyps"] consume_if
    using "4.IH"(1) [of True "advance p"] "4.IH"(2) [of True "advance p"]
    by (auto simp: rbind_Ok_iff consume_pair intro: stays_trans progress_stays dest: peek_keyword_progress)
      (meson peek_keyword_progress progress_stays stays_trans)
next
  case (5 p)
  show ?case unfolding predicate_atom.psimps [OF "5.hyps"] consume_if
  proof (cases "current p = Some (TSymbol LeftParen)")
    case True
    with "5.IH" [of True "advance p"] progress_advance [OF True] show
      "\<forall>r p'. (if current p = Some (TSymbol LeftParen)
        then if parenthesis_depth (advance p) = MAX_EXPRESSION_DEPTH then Err expression_depth_error
          else rbind (or_expression (deeper (advance p))) (\<lambda>(e, p2).
            rbind (expect_symbol (shallower p2) RightParen) (\<lambda>(_, p3). Ok (e, p3)))
        else rbind (simple_predicate p False) (\<lambda>(e, p1). Ok (leaf e, p1))) = Ok (r, p') \<longrightarrow> progress p p'"
      by (auto simp: rbind_Ok_iff consume_pair split: if_splits dest!: parser_progress progress_paren)
        (blast intro: progress_trans(3))
  qed (auto simp: rbind_Ok_iff dest: parser_progress)
qed

lemma expression_dom: "All or_expression_or_loop_and_expression_and_loop_predicate_atom_dom"
  by (relation "measures [case_sum (case_sum remaining (remaining \<circ> fst)) (case_sum remaining (case_sum (remaining \<circ> fst) remaining)),
      case_sum (case_sum (\<lambda>_. 2) (\<lambda>_. 0)) (case_sum (\<lambda>_. 1) (\<lambda>_. 0))]")
    (auto dest!: consume_sym expression_progress_dom [rule_format] simp: progress_def deeper_def remaining_def)

termination or_expression
  by (rule expression_dom)

declare or_expression.simps [simp del] or_loop.simps [simp del] and_expression.simps [simp del]
  and_loop.simps [simp del] predicate_atom.simps [simp del]

lemma or_expression_progress: "or_expression p = Ok (r, p') \<Longrightarrow> progress p p'"
  by (rule expression_progress_dom(1) [OF expression_dom [rule_format], rule_format])

definition parser_expression :: "parser \<Rightarrow> expr parsed" where
  "parser_expression p = rbind (or_expression p) (\<lambda>(e, p). Ok (pe_value e, p))"

lemma parser_expression_progress [parser_progress]: "parser_expression p = Ok (e, p') \<Longrightarrow> progress p p'"
  by (auto simp: parser_expression_def rbind_Ok_iff dest: or_expression_progress)

section \<open>Selectors and filters\<close>

function label_loop :: "parser \<Rightarrow> expr list \<Rightarrow> expr list parsed" where
  "label_loop p predicates =
     rbind (simple_predicate p True) (\<lambda>(e, p1).
       case consume_symbol p1 RightBracket of
         (True, p2) \<Rightarrow> Ok (predicates @ [e], p2)
       | (False, p2) \<Rightarrow> rbind (expect_symbol p2 Comma) (\<lambda>(_, p3). label_loop p3 (predicates @ [e])))"
  by pat_completeness auto
termination
  by (relation "measure (\<lambda>(p, vs). remaining p)")
    (auto dest!: parser_progress simp: progress_def)

declare label_loop.simps [simp del]

definition label_selector :: "parser \<Rightarrow> expr list option parsed" where
  "label_selector p =
     (case consume_symbol p LeftBracket of
        (False, p) \<Rightarrow> Ok (None, p)
      | (True, p) \<Rightarrow>
          (case consume_symbol p RightBracket of
             (True, p) \<Rightarrow> Ok (Some [], p)
           | (False, p) \<Rightarrow> rbind (label_loop p []) (\<lambda>(predicates, p). Ok (Some predicates, p))))"

lemma label_loop_progress [parser_progress]: "label_loop p vs = Ok (v, p') \<Longrightarrow> progress p p'"
proof (induction p vs rule: label_loop.induct)
  case (1 p vs)
  from "1.prems" obtain e p1 where e: "simple_predicate p True = Ok (e, p1)"
    and r: "(if current p1 = Some (TSymbol RightBracket) then Ok (vs @ [e], advance p1)
      else rbind (expect_symbol p1 Comma) (\<lambda>(_, p3). label_loop p3 (vs @ [e]))) = Ok (v, p')"
    unfolding label_loop.simps [of p vs] consume_if by (auto simp: rbind_Ok_iff)
  show ?case
  proof (cases "current p1 = Some (TSymbol RightBracket)")
    case True
    with r e show ?thesis by (auto dest!: parser_progress progress_advance intro: progress_trans)
  next
    case False
    with r obtain u p3 where c: "expect_symbol p1 Comma = Ok (u, p3)" "label_loop p3 (vs @ [e]) = Ok (v, p')"
      by (auto simp: rbind_Ok_iff)
    have "consume_symbol p1 RightBracket = (False, p1)" using False by (simp add: consume_symbol_def)
    with "1.IH" [OF e] c have "progress p3 p'" by fastforce
    with c e show ?thesis by (auto dest!: parser_progress intro: progress_trans)
  qed
qed

lemma label_selector_stays [parser_progress]: "label_selector p = Ok (v, p') \<Longrightarrow> stays p p'"
  unfolding label_selector_def consume_if
  by (auto simp: rbind_Ok_iff split: if_splits dest!: parser_progress progress_advance
      intro: progress_stays progress_trans)

fun is_numeric_literal :: "literal \<Rightarrow> bool" where
  "is_numeric_literal (LSigned _) = True"
| "is_numeric_literal (LUnsigned _) = True"
| "is_numeric_literal (LFloat _) = True"
| "is_numeric_literal _ = False"

definition cross_filter :: "parser \<Rightarrow> cross_filter parsed" where
  "cross_filter p =
     rbind (parser_word p) (\<lambda>(w, p).
       let kind = uppercase w in
       if kind = ''METRIC'' then
         rbind (pattern_identifier p) (\<lambda>(name, p).
         rbind (label_selector p) (\<lambda>(labels, p).
         rbind (comparison_operator p False) (\<lambda>(op, p).
           if op \<in> {OpStartsWith, OpEndsWith, OpContains, OpHas}
           then parse_fail ''cross-type metric comparison requires a numeric operator''
           else
             rbind (parser_literal p) (\<lambda>(v, p).
               if \<not> is_numeric_literal v then parse_fail ''cross-type metric comparison requires a number''
               else Ok (CrossMetric name labels op v, p)))))
       else if kind = ''EVENT'' then
         rbind (pattern_identifier p) (\<lambda>(pattern, p).
         rbind (expect_keyword p ''EXISTS'') (\<lambda>(_, p). Ok (EventExists pattern, p)))
       else if kind = ''LOG'' then
         rbind (parser_identifier p) (\<lambda>(origin, p).
         rbind (case consume_keyword p ''CONTAINING'' of
                  (True, p) \<Rightarrow> rbind (parser_identifier p) (\<lambda>(v, p). Ok (Some v, p))
                | (False, p) \<Rightarrow> Ok (None, p)) (\<lambda>(containing, p).
         rbind (expect_keyword p ''EXISTS'') (\<lambda>(_, p). Ok (LogExists origin containing, p))))
       else Err Panicked)"

lemma cross_filter_progress [parser_progress]: "cross_filter p = Ok (v, p') \<Longrightarrow> progress p p'"
  unfolding cross_filter_def Let_def consume_if
  by (auto simp: rbind_Ok_iff simp del: map_eq_Cons_conv split: if_splits dest!: parser_progress peek_keyword_progress)
    (simp_all add: progress_simps)

definition sort_direction :: "parser \<Rightarrow> bool \<times> parser" where
  "sort_direction p =
     (case consume_keyword p ''DESC'' of
        (True, p) \<Rightarrow> (True, p)
      | (False, p) \<Rightarrow> (False, snd (consume_keyword p ''ASC'')))"

lemma sort_direction_stays [parser_progress]: "sort_direction p = (b, p') \<Longrightarrow> stays p p'"
  by (auto simp: sort_direction_def consume_keyword_def split: if_splits intro: progress_stays peek_keyword_progress)

function sort_keys :: "parser \<Rightarrow> sort_key list \<Rightarrow> sort_key list parsed" where
  "sort_keys p keys =
     rbind (parser_field p) (\<lambda>(field, p1).
       case sort_direction p1 of
         (descending, p3) \<Rightarrow>
           let keys = keys @ [\<lparr>sk_field = field, sk_descending = descending\<rparr>] in
           case consume_symbol p3 Comma of
             (False, p4) \<Rightarrow> Ok (keys, p4)
           | (True, p4) \<Rightarrow> sort_keys p4 keys)"
  by pat_completeness auto

termination
  by (relation "measure (\<lambda>(p, ks). remaining p)")
    (auto dest!: parser_progress sort_direction_stays [OF sym] simp: progress_simps)

declare sort_keys.simps [simp del]

lemma sort_keys_progress [parser_progress]: "sort_keys p ks = Ok (v, p') \<Longrightarrow> progress p p'"
proof (induction p ks rule: sort_keys.induct)
  case (1 p ks)
  from "1.prems" obtain field p1 where f: "parser_field p = Ok (field, p1)" by (auto simp: sort_keys.simps [of p ks] rbind_Ok_iff)
  obtain desc p3 where d: "sort_direction p1 = (desc, p3)" by (cases "sort_direction p1")
  note s = sort_direction_stays [OF d]
  let ?ks = "ks @ [\<lparr>sk_field = field, sk_descending = desc\<rparr>]"
  have r: "(if current p3 = Some (TSymbol Comma) then sort_keys (advance p3) ?ks else Ok (?ks, p3)) = Ok (v, p')"
    using "1.prems" f d unfolding sort_keys.simps [of p ks] Let_def consume_if by simp
  show ?case
  proof (cases "current p3 = Some (TSymbol Comma)")
    case True
    have "progress (advance p3) p'"
      using "1.IH" [OF f refl d [symmetric] refl, of True "advance p3"] r True
      by (simp add: consume_symbol_def)
    with s progress_advance [OF True] parser_field_progress [OF f] show ?thesis by (simp add: progress_simps)
  next
    case False
    with r s parser_field_progress [OF f] show ?thesis by (auto simp: progress_simps)
  qed
qed

function field_loop :: "parser \<Rightarrow> string list \<Rightarrow> string list parsed" where
  "field_loop p fs =
     (case consume_symbol p Comma of
        (True, p1) \<Rightarrow> rbind (parser_field p1) (\<lambda>(f, p2). field_loop p2 (fs @ [f]))
      | (False, _) \<Rightarrow> Ok (fs, p))"
  by pat_completeness auto
termination
  by (relation "measure (\<lambda>(p, vs). remaining p)")
    (auto dest!: parser_progress simp: progress_def)

declare field_loop.simps [simp del]

definition field_list :: "parser \<Rightarrow> string list parsed" where
  "field_list p = rbind (parser_field p) (\<lambda>(f, p). field_loop p [f])"

function origin_loop :: "parser \<Rightarrow> string list \<Rightarrow> string list parsed" where
  "origin_loop p origins =
     (case consume_symbol p Comma of
        (True, p1) \<Rightarrow> rbind (parser_identifier p1) (\<lambda>(f, p2). origin_loop p2 (origins @ [f]))
      | (False, _) \<Rightarrow> Ok (origins, p))"
  by pat_completeness auto
termination
  by (relation "measure (\<lambda>(p, vs). remaining p)")
    (auto dest!: parser_progress simp: progress_def)

declare origin_loop.simps [simp del]

lemma field_loop_stays [parser_progress]: "field_loop p fs = Ok (v, p') \<Longrightarrow> stays p p'"
proof (induction p fs rule: field_loop.induct)
  case (1 p fs)
  show ?case
  proof (cases "current p = Some (TSymbol Comma)")
    case True
    with "1.prems" obtain f p2 where f: "parser_field (advance p) = Ok (f, p2)" "field_loop p2 (fs @ [f]) = Ok (v, p')"
      by (subst (asm) field_loop.simps, unfold consume_if) (auto simp: rbind_Ok_iff)
    have "stays p2 p'" using "1.IH" [of True "advance p", OF _ refl f(1) refl f(2)] True by (simp add: consume_symbol_def)
    with progress_advance [OF True] parser_field_progress [OF f(1)] show ?thesis by (simp add: progress_simps)
  next
    case False
    with "1.prems" show ?thesis by (subst (asm) field_loop.simps, unfold consume_if) simp
  qed
qed

lemma origin_loop_stays [parser_progress]: "origin_loop p fs = Ok (v, p') \<Longrightarrow> stays p p'"
proof (induction p fs rule: origin_loop.induct)
  case (1 p fs)
  show ?case
  proof (cases "current p = Some (TSymbol Comma)")
    case True
    with "1.prems" obtain f p2 where f: "parser_identifier (advance p) = Ok (f, p2)" "origin_loop p2 (fs @ [f]) = Ok (v, p')"
      by (subst (asm) origin_loop.simps, unfold consume_if) (auto simp: rbind_Ok_iff)
    have "stays p2 p'" using "1.IH" [of True "advance p", OF _ refl f(1) refl f(2)] True by (simp add: consume_symbol_def)
    with progress_advance [OF True] parser_identifier_progress [OF f(1)] show ?thesis by (simp add: progress_simps)
  next
    case False
    with "1.prems" show ?thesis by (subst (asm) origin_loop.simps, unfold consume_if) simp
  qed
qed

lemma field_list_progress [parser_progress]: "field_list p = Ok (v, p') \<Longrightarrow> progress p p'"
  by (auto simp: field_list_def rbind_Ok_iff dest!: parser_progress intro: progress_trans)

section \<open>Clauses\<close>

definition group_function :: "parser \<Rightarrow> group_function parsed" where
  "group_function p =
     rbind (parser_word p) (\<lambda>(w, p).
       let function = uppercase w; with_field = (\<lambda>f. rbind (parser_field p) (\<lambda>(v, p). Ok (f v, p))) in
       if function = ''COUNT'' then Ok (GCount, p)
       else if function = ''SUM'' then with_field GSum
       else if function = ''AVG'' then with_field GAvg
       else if function = ''MIN'' then with_field GMin
       else if function = ''MAX'' then with_field GMax
       else parse_fail ''invalid GROUP function'')"

definition parse_origins :: "parser \<Rightarrow> query \<Rightarrow> query parsed" where
  "parse_origins p q =
     (case q_source q of
        Logs origins error_only containing \<Rightarrow>
          if origins \<noteq> [] then parse_fail ''FROM appears more than once''
          else
            rbind (parser_identifier p) (\<lambda>(v, p).
            rbind (origin_loop p [v]) (\<lambda>(origins, p). Ok (q\<lparr>q_source := Logs origins error_only containing\<rparr>, p)))
      | _ \<Rightarrow> parse_fail ''FROM is valid only in LOGS mode'')"

definition set_error_only :: "query \<Rightarrow> parse_error abort + query" where
  "set_error_only q =
     (case q_source q of
        Logs origins error_only containing \<Rightarrow>
          if error_only then parse_fail ''ERROR ONLY appears more than once''
          else Ok (q\<lparr>q_source := Logs origins True containing\<rparr>)
      | _ \<Rightarrow> parse_fail ''ERROR ONLY is valid only in LOGS mode'')"

definition set_containing :: "parser \<Rightarrow> query \<Rightarrow> query parsed" where
  "set_containing p q =
     rbind (parser_identifier p) (\<lambda>(v, p).
       case q_source q of
         Logs origins error_only containing \<Rightarrow>
           if containing \<noteq> None then parse_fail ''CONTAINING appears more than once''
           else Ok (q\<lparr>q_source := Logs origins error_only (Some v)\<rparr>, p)
       | _ \<Rightarrow> parse_fail ''CONTAINING is valid only in LOGS mode'')"

fun is_metric :: "source \<Rightarrow> bool" where
  "is_metric (Metric _ _) = True"
| "is_metric _ = False"

fun is_events :: "source \<Rightarrow> bool" where
  "is_events (Events _) = True"
| "is_events _ = False"

definition ensure_absent :: "'a option \<Rightarrow> string \<Rightarrow> parse_error abort + unit" where
  "ensure_absent v clause = (if v \<noteq> None then parse_fail (clause @ '' appears more than once'') else Ok ())"

definition ensure_record_mode :: "source \<Rightarrow> string \<Rightarrow> parse_error abort + unit" where
  "ensure_record_mode s clause =
     (if is_metric s then parse_fail (clause @ '' is not valid in METRIC mode'') else Ok ())"

definition set_record_aggregate :: "query \<Rightarrow> record_aggregate \<Rightarrow> parse_error abort + query" where
  "set_record_aggregate q aggregate =
     rbind (ensure_record_mode (q_source q) ''record aggregation'') (\<lambda>_.
       if q_aggregate q \<noteq> None then parse_fail ''record aggregation appears more than once''
       else Ok (q\<lparr>q_aggregate := Some aggregate\<rparr>))"

definition set_metric_aggregate :: "query \<Rightarrow> metric_aggregate \<Rightarrow> parse_error abort + query" where
  "set_metric_aggregate q aggregate =
     (if \<not> is_metric (q_source q) \<or> q_metric_aggregate q \<noteq> None
      then parse_fail ''invalid or repeated metric aggregation''
      else Ok (q\<lparr>q_metric_aggregate := Some aggregate\<rparr>))"

definition parse_aggregate_function :: "string \<Rightarrow> aggregate_function" where
  "parse_aggregate_function v =
     (if v = ''AVG'' then AAvg else if v = ''MIN'' then AMin else if v = ''MAX'' then AMax else ASum)"

text \<open>\<^verbatim>\<open>trim_end_matches\<close> removes the suffix as often as it occurs.\<close>

function trim_end_matches :: "string \<Rightarrow> string \<Rightarrow> string" where
  "trim_end_matches s suf =
     (if suf \<noteq> [] \<and> suf = drop (length s - length suf) s \<and> length suf \<le> length s
      then trim_end_matches (take (length s - length suf) s) suf else s)"
  by pat_completeness auto
termination
proof (relation "measure (\<lambda>(s, suf). length s)")
  fix s suf :: string
  assume "suf \<noteq> [] \<and> suf = drop (length s - length suf) s \<and> length suf \<le> length s"
  then have "0 < length suf" "0 < length s" by auto
  from diff_less [OF this] show "((take (length s - length suf) s, suf), (s, suf)) \<in> measure (\<lambda>(s, suf). length s)"
    by simp
qed simp

declare trim_end_matches.simps [simp del]

text \<open>One turn of the clause loop: the query and the flag for \<^verbatim>\<open>SKIP\<close> with the keyword's clause applied.\<close>

definition keep_skip :: "bool \<Rightarrow> query \<times> parser \<Rightarrow> (query \<times> bool) parsed" where
  "keep_skip seen_skip = (\<lambda>(q, p). Ok ((q, seen_skip), p))"

definition clause :: "string \<Rightarrow> parser \<Rightarrow> query \<Rightarrow> bool \<Rightarrow> (query \<times> bool) parsed" where
  "clause keyword p q seen_skip =
     (let update = (\<lambda>q p. Ok ((q, seen_skip), p));
          aggregate = (\<lambda>a p. rbind (set_record_aggregate q a) (\<lambda>q. Ok ((q, seen_skip), p))) in
      if keyword = ''SINCE'' then
        rbind (ensure_absent (q_since q) ''SINCE'') (\<lambda>_.
        rbind (parser_time p) (\<lambda>(v, p). update (q\<lparr>q_since := Some v\<rparr>) p))
      else if keyword = ''UNTIL'' then
        rbind (ensure_absent (q_until q) ''UNTIL'') (\<lambda>_.
        rbind (parser_time p) (\<lambda>(v, p). update (q\<lparr>q_until := Some v\<rparr>) p))
      else if keyword = ''WHERE'' then
        (if peek_keyword p ''METRIC'' \<or> peek_keyword p ''EVENT'' \<or> peek_keyword p ''LOG'' then
           rbind (cross_filter p) (\<lambda>(v, p). update (q\<lparr>q_cross_filters := q_cross_filters q @ [v]\<rparr>) p)
         else rbind (parser_expression p) (\<lambda>(v, p). update (q\<lparr>q_predicates := q_predicates q @ [v]\<rparr>) p))
      else if keyword = ''SORT'' then
        (if q_sort q \<noteq> [] then parse_fail ''SORT appears more than once''
         else rbind (sort_keys p []) (\<lambda>(v, p). update (q\<lparr>q_sort := v\<rparr>) p))
      else if keyword = ''TAKE'' then
        rbind (ensure_absent (q_take q) ''TAKE'') (\<lambda>_.
        rbind (parser_count p) (\<lambda>(v, p). update (q\<lparr>q_take := Some v\<rparr>) p))
      else if keyword = ''SKIP'' then
        (if seen_skip then parse_fail ''SKIP appears more than once''
         else rbind (parser_count p) (\<lambda>(v, p). Ok ((q\<lparr>q_skip := v\<rparr>, True), p)))
      else if keyword = ''SELECT'' then
        rbind (ensure_record_mode (q_source q) ''SELECT'') (\<lambda>_.
        rbind (field_list p) (\<lambda>(v, p). update (q\<lparr>q_select := q_select q @ v\<rparr>) p))
      else if keyword = ''COUNT'' \<and> peek_keyword p ''BY'' then
        rbind (parser_field (advance p)) (\<lambda>(f, p). aggregate (CountBy f) p)
      else if keyword = ''TOP'' then
        rbind (parser_count p) (\<lambda>(count, p).
        rbind (expect_keyword p ''BY'') (\<lambda>(_, p).
        rbind (parser_field p) (\<lambda>(f, p). aggregate (TopBy count f) p)))
      else if keyword = ''DISTINCT'' then
        rbind (parser_field p) (\<lambda>(f, p). aggregate (Distinct f) p)
      else if keyword = ''GROUP'' then
        rbind (field_list p) (\<lambda>(fs, p).
        rbind (group_function p) (\<lambda>(g, p). aggregate (Group fs g) p))
      else if keyword = ''STREAM'' then
        (if q_stream q then parse_fail ''STREAM appears more than once'' else update (q\<lparr>q_stream := True\<rparr>) p)
      else if keyword = ''FROM'' then rbind (parse_origins p q) (keep_skip seen_skip)
      else if keyword = ''ERROR'' then
        rbind (expect_keyword p ''ONLY'') (\<lambda>(_, p). rbind (set_error_only q) (\<lambda>q. update q p))
      else if keyword = ''CONTAINING'' then rbind (set_containing p q) (keep_skip seen_skip)
      else if keyword = ''INDEX'' then
        (if \<not> is_events (q_source q) \<or> q_index q \<noteq> None then parse_fail ''INDEX is valid once in EVENTS mode''
         else rbind (parser_field p) (\<lambda>(f, p). update (q\<lparr>q_index := Some f\<rparr>) p))
      else if keyword \<in> set [''RATE'', ''DELTA'', ''P50'', ''P95'', ''P99''] then
        (if q_transform q \<noteq> None \<or> \<not> is_metric (q_source q) then parse_fail ''invalid or repeated metric transform''
         else
           update (q\<lparr>q_transform := Some
             (if keyword = ''RATE'' then Rate
              else if keyword = ''DELTA'' then Delta
              else if keyword = ''P50'' then Percentile 50
              else if keyword = ''P95'' then Percentile 95
              else Percentile 99)\<rparr>) p)
      else if keyword \<in> set [''AVG'', ''MIN'', ''MAX'', ''SUM''] then
        rbind (set_metric_aggregate q (Scalar (parse_aggregate_function keyword))) (\<lambda>q. update q p)
      else if keyword \<in> set [''AVG_OVER'', ''MIN_OVER'', ''MAX_OVER'', ''SUM_OVER''] then
        rbind (parser_duration p) (\<lambda>(duration, p).
        rbind (set_metric_aggregate q
            (Window (parse_aggregate_function (trim_end_matches keyword ''_OVER'')) duration)) (\<lambda>q. update q p))
      else parse_fail (''unknown query clause '' @ keyword))"

lemma parser_time_progress [parser_progress]: "parser_time p = Ok (v, p') \<Longrightarrow> progress p p'"
  unfolding parser_time_def
  by (auto simp: rbind_Ok_iff split: if_splits sum.splits abort.splits dest!: parser_progress intro: progress_trans)

lemma parser_count_progress [parser_progress]: "parser_count p = Ok (v, p') \<Longrightarrow> progress p p'"
  unfolding parser_count_def
  by (auto simp: rbind_Ok_iff split: if_splits option.splits dest!: parser_progress)

lemma parser_duration_progress [parser_progress]: "parser_duration p = Ok (v, p') \<Longrightarrow> progress p p'"
  unfolding parser_duration_def by (auto simp: rbind_Ok_iff dest!: parser_progress)

lemma group_function_progress [parser_progress]: "group_function p = Ok (v, p') \<Longrightarrow> progress p p'"
  unfolding group_function_def Let_def
  by (auto simp: rbind_Ok_iff split: if_splits dest!: parser_progress intro: progress_trans)

lemma parse_origins_progress [parser_progress]: "parse_origins p q = Ok (v, p') \<Longrightarrow> progress p p'"
  unfolding parse_origins_def
  by (auto simp: rbind_Ok_iff split: if_splits source.splits dest!: parser_progress intro: progress_trans)

lemma set_containing_progress [parser_progress]: "set_containing p q = Ok (v, p') \<Longrightarrow> progress p p'"
  unfolding set_containing_def
  by (cases "q_source q") (auto simp: rbind_Ok_iff split: if_splits dest!: parser_progress)

lemma clause_ensures_stays: "ensures (clause k p q s) (\<lambda>(v, p'). stays p p')"
  unfolding clause_def Let_def keep_skip_def
  by (intro ensures_rules; clarsimp dest!: parser_progress peek_keyword_progress; simp add: progress_simps)

lemma clause_stays [parser_progress]: "clause k p q s = Ok (v, p') \<Longrightarrow> stays p p'"
  by (auto dest: ensuresD [OF clause_ensures_stays])

section \<open>Validation\<close>

definition LOG_FIELDS :: "string list" where
  "LOG_FIELDS = [''timestamp'', ''origin'', ''is_error'', ''message'', ''boot_id'', ''job_id'']"

fun group_field :: "group_function \<Rightarrow> string list" where
  "group_field GCount = []"
| "group_field (GSum f) = [f]"
| "group_field (GAvg f) = [f]"
| "group_field (GMin f) = [f]"
| "group_field (GMax f) = [f]"

fun aggregate_fields :: "record_aggregate \<Rightarrow> string list" where
  "aggregate_fields (CountBy f) = [f]"
| "aggregate_fields (Distinct f) = [f]"
| "aggregate_fields (TopBy _ f) = [f]"
| "aggregate_fields (Group fs function) = fs @ group_field function"

definition named_fields :: "query \<Rightarrow> string list" where
  "named_fields q =
     fold expr_fields (q_predicates q) [] @ map sk_field (q_sort q) @ q_select q @
     (case q_aggregate q of None \<Rightarrow> [] | Some a \<Rightarrow> aggregate_fields a)"

definition validate_fixed_fields :: "query \<Rightarrow> parse_error abort + unit" where
  "validate_fixed_fields q =
     (case q_source q of
        Logs _ _ _ \<Rightarrow>
          (case find (\<lambda>field. field \<notin> set LOG_FIELDS) (named_fields q) of
             Some field \<Rightarrow> parse_fail (''unknown log field '' @ field)
           | None \<Rightarrow> Ok ())
      | _ \<Rightarrow> Ok ())"

fun valid_cross_filter :: "source \<Rightarrow> cross_filter \<Rightarrow> bool" where
  "valid_cross_filter (Events _) (CrossMetric _ _ _ _) = True"
| "valid_cross_filter (Logs _ _ _) (CrossMetric _ _ _ _) = True"
| "valid_cross_filter (Logs _ _ _) (EventExists _) = True"
| "valid_cross_filter (Metric _ _) (EventExists _) = True"
| "valid_cross_filter (Events _) (LogExists _ _) = True"
| "valid_cross_filter (Metric _ _) (LogExists _ _) = True"
| "valid_cross_filter _ _ = False"

definition is_distinct :: "record_aggregate option \<Rightarrow> bool" where
  "is_distinct a = (case a of Some (Distinct _) \<Rightarrow> True | _ \<Rightarrow> False)"

definition is_window :: "metric_aggregate option \<Rightarrow> bool" where
  "is_window a = (case a of Some (Window _ _) \<Rightarrow> True | _ \<Rightarrow> False)"

definition validate_stream :: "query \<Rightarrow> parse_error abort + unit" where
  "validate_stream q =
     (if is_metric (q_source q) then parse_fail ''METRIC queries cannot stream''
      else if q_until q \<noteq> None then parse_fail ''STREAM cannot be combined with UNTIL''
      else if q_aggregate q \<noteq> None \<and> \<not> is_distinct (q_aggregate q) then parse_fail ''this aggregation cannot stream''
      else if is_distinct (q_aggregate q) \<and> (q_sort q \<noteq> [] \<or> q_take q \<noteq> None \<or> q_skip q \<noteq> 0)
      then parse_fail ''DISTINCT STREAM cannot sort, take or skip''
      else Ok ())"

definition validate_combinations :: "query \<Rightarrow> parse_error abort + unit" where
  "validate_combinations q =
     rbind (validate_fixed_fields q) (\<lambda>_.
       if q_index q \<noteq> None \<and>
         (q_since q \<noteq> None \<or> q_until q \<noteq> None \<or> q_predicates q \<noteq> [] \<or> q_cross_filters q \<noteq> [] \<or> q_sort q \<noteq> [] \<or>
          q_take q \<noteq> None \<or> q_skip q \<noteq> 0 \<or> q_select q \<noteq> [] \<or> q_aggregate q \<noteq> None \<or> q_stream q)
       then parse_fail ''INDEX cannot be combined with query clauses''
       else if q_cross_filters q \<noteq> [] \<and> q_since q = None then parse_fail ''cross-type filters require SINCE''
       else if \<not> list_all (valid_cross_filter (q_source q)) (q_cross_filters q)
       then parse_fail ''cross-type filter is not valid for this source''
       else if q_aggregate q \<noteq> None \<and> q_select q \<noteq> [] then parse_fail ''SELECT cannot be combined with aggregation''
       else
         rbind (if q_stream q then validate_stream q else Ok ()) (\<lambda>_.
           if is_window (q_metric_aggregate q) \<and> q_since q = None then parse_fail ''window aggregation requires SINCE''
           else Ok ()))"

section \<open>The query\<close>

function clause_loop :: "parser \<Rightarrow> query \<Rightarrow> bool \<Rightarrow> query parsed" where
  "clause_loop p q seen_skip =
     (if p_cursor p < length (p_tokens p) then
        rbind (parser_word p) (\<lambda>(w, p1).
        rbind (clause (uppercase w) p1 q seen_skip) (\<lambda>(r, p2). clause_loop p2 (fst r) (snd r)))
      else Ok (q, p))"
  by pat_completeness auto
termination
  by (relation "measure (\<lambda>(p, q, s). remaining p)")
    (auto dest!: parser_progress simp: progress_simps)

declare clause_loop.simps [simp del]

definition parse_source :: "parser \<Rightarrow> source parsed" where
  "parse_source p =
     rbind (parser_word p) (\<lambda>(w, p).
       let mode = uppercase w in
       if mode = ''EVENTS'' then (case take_primary_identifier p of (pattern, p) \<Rightarrow> Ok (Events pattern, p))
       else if mode = ''LOGS'' then Ok (Logs [] False None, p)
       else if mode = ''METRIC'' then
         rbind (pattern_identifier p) (\<lambda>(name, p).
         rbind (label_selector p) (\<lambda>(labels, p). Ok (Metric name labels, p)))
       else parse_fail ''query must begin with EVENTS, LOGS or METRIC'')"

definition empty_query :: "source \<Rightarrow> query" where
  "empty_query s =
     \<lparr>q_source = s, q_since = None, q_until = None, q_predicates = [], q_cross_filters = [], q_sort = [],
      q_take = None, q_skip = 0, q_select = [], q_aggregate = None, q_transform = None,
      q_metric_aggregate = None, q_stream = False, q_index = None\<rparr>"

definition parser_parse :: "parser \<Rightarrow> parse_error abort + query" where
  "parser_parse p =
     rbind (parse_source p) (\<lambda>(source, p).
     rbind (clause_loop p (empty_query source) False) (\<lambda>(q, _).
     rbind (validate_combinations q) (\<lambda>_. Ok q)))"

definition parse :: "string \<Rightarrow> parse_error abort + query" where
  "parse str = rbind (tokenize str) (\<lambda>tokens. parser_parse (parser_new tokens))"

end
