(* ===== verification/Query_Language.thy ===== *)
theory Query_Language
  imports Query_Parser
begin

text \<open>
  What the tokenizer and the parser of the query language guarantee: which texts they can fail on
  without an error, what every accepted query satisfies, and that the parser reads an expression as
  it is written.
\<close>

section \<open>Character boundaries\<close>

lemma continuation_ge: "continuation b \<Longrightarrow> \<not> b < 0x80"
  by (auto simp: continuation_def word_order)

lemma second_byte_ge: "second_byte b0 b1 \<Longrightarrow> \<not> b1 < 0x80"
  by (auto simp: second_byte_def continuation_def word_order split: if_splits)

lemma utf8_valid_first: "utf8_valid (b # bs) \<Longrightarrow> \<not> continuation b"
  by (auto simp: continuation_def word_order split: if_splits)

lemma utf8_chunk:
  assumes "utf8_valid (b0 # bs)" and "\<not> b0 < 0x80"
  obtains c rest where "b0 # bs = c @ rest" "c \<noteq> []" "\<forall>b \<in> set c. \<not> b < 0x80" "utf8_valid rest"
proof -
  have "(0xc2 \<le> b0 \<and> b0 \<le> 0xdf) \<or> (0xe0 \<le> b0 \<and> b0 \<le> 0xef) \<or> (0xf0 \<le> b0 \<and> b0 \<le> 0xf4)"
    using assms by (auto split: if_splits)
  then show ?thesis
  proof (elim disjE)
    assume "0xc2 \<le> b0 \<and> b0 \<le> 0xdf"
    with assms obtain b1 rest where "bs = b1 # rest" "continuation b1" "utf8_valid rest" by (auto split: list.splits)
    with assms(2) that [of "[b0, b1]"] continuation_ge show ?thesis by auto
  next
    assume r: "0xe0 \<le> b0 \<and> b0 \<le> 0xef"
    then have "\<not> (0xc2 \<le> b0 \<and> b0 \<le> 0xdf)" by (auto simp: word_order)
    with r assms obtain b1 b2 rest where "bs = b1 # b2 # rest" "second_byte b0 b1" "continuation b2" "utf8_valid rest"
      by (auto split: list.splits)
    with assms(2) that [of "[b0, b1, b2]"] continuation_ge second_byte_ge show ?thesis by auto
  next
    assume r: "0xf0 \<le> b0 \<and> b0 \<le> 0xf4"
    then have "\<not> (0xc2 \<le> b0 \<and> b0 \<le> 0xdf)" "\<not> (0xe0 \<le> b0 \<and> b0 \<le> 0xef)" by (auto simp: word_order)
    with r assms obtain b1 b2 b3 rest where "bs = b1 # b2 # b3 # rest" "second_byte b0 b1" "continuation b2"
      "continuation b3" "utf8_valid rest"
      by (auto split: list.splits)
    with assms(2) that [of "[b0, b1, b2, b3]"] continuation_ge second_byte_ge show ?thesis by auto
  qed
qed

lemma utf8_after_ascii:
  "utf8_valid bs \<Longrightarrow> i + 1 < length bs \<Longrightarrow> bs ! i < 0x80 \<Longrightarrow> \<not> continuation (bs ! (i + 1))"
proof (induction "length bs" arbitrary: bs i rule: less_induct)
  case less
  obtain b0 tl where bs: "bs = b0 # tl" using less.prems(2) by (cases bs) auto
  show ?case
  proof (cases "b0 < 0x80")
    case True
    with less.prems(1) bs have v: "utf8_valid tl" by simp
    show ?thesis
    proof (cases i)
      case 0
      with v less.prems(2) bs show ?thesis by (cases tl) (auto simp del: utf8_valid.simps dest: utf8_valid_first)
    next
      case (Suc j)
      with less.hyps [of tl j] v less.prems bs show ?thesis by simp
    qed
  next
    case False
    from utf8_chunk [OF less.prems(1) [unfolded bs] False] obtain c rest where
      c: "bs = c @ rest" "c \<noteq> []" "\<forall>b \<in> set c. \<not> b < 0x80" "utf8_valid rest" using bs by metis
    with less.prems(3) have "\<not> i < length c" by (auto simp: nth_append)
    with c less.hyps [of rest "i - length c"] less.prems show ?thesis
      by (simp add: nth_append Suc_diff_le)
  qed
qed

abbreviation valid_text :: "string \<Rightarrow> bool" where
  "valid_text str \<equiv> utf8_valid (as_bytes str)"

definition ascii :: "char \<Rightarrow> bool" where
  "ascii c \<longleftrightarrow> code c < 128"

lemma ascii_byte: "ascii c \<longleftrightarrow> byte_of c < 0x80"
  by (simp add: ascii_def word_order unat_byte_of)

lemma boundary_ascii: "i < length str \<Longrightarrow> ascii (str ! i) \<Longrightarrow> is_char_boundary str i"
  by (auto simp: is_char_boundary_def ascii_byte dest: continuation_ge)

lemma boundary_after_ascii:
  "valid_text str \<Longrightarrow> i < length str \<Longrightarrow> ascii (str ! i) \<Longrightarrow> is_char_boundary str (i + 1)"
  using utf8_after_ascii [of "as_bytes str" i] by (auto simp: is_char_boundary_def ascii_byte)

section \<open>The tokenizer never panics\<close>

abbreviation panics :: "parse_error abort + 'a \<Rightarrow> bool" where
  "panics m \<equiv> m = Err Panicked"

lemma str_slice_ok: "a \<le> b \<Longrightarrow> b \<le> length str \<Longrightarrow> is_char_boundary str a \<Longrightarrow> is_char_boundary str b \<Longrightarrow>
    str_slice str a b = Ok (take (b - a) (drop a str))"
  by (simp add: str_slice_def)

lemma hex_nibble_u32_bound: "hex_nibble_u32 c = Some n \<Longrightarrow> unat n < 16 \<and> ascii c"
proof -
  assume "hex_nibble_u32 c = Some n"
  then obtain k where "n = of_nat k" "k < 16" "code c < 128"
    by (auto simp: hex_nibble_u32_def simp del: of_nat_diff of_nat_add split: if_splits)
  then show ?thesis by (simp add: ascii_def unat_of_nat)
qed

lemma parse_hex_loop_ok:
  "parse_hex_loop acc ds = Ok v \<Longrightarrow>
     unat v < (unat acc + 1) * 16 ^ length ds \<and> list_all ascii ds"
proof (induction acc ds rule: parse_hex_loop.induct)
  case (2 acc d ds)
  then obtain n w where n: "hex_nibble_u32 d = Some n"
    and w: "Option.bind (checked_mul acc 16) (\<lambda>item. checked_add item n) = Some w"
    and r: "parse_hex_loop w ds = Ok v"
    by (auto split: option.splits)
  then have "unat acc * 16 < 2 ^ 32" "w = acc * 16 + n" "unat (acc * 16) + unat n < 2 ^ 32"
    by (auto simp: checked_mul_def checked_add_def bind_eq_Some_conv split: if_splits)
  then have "unat w = unat acc * 16 + unat n"
    by (simp add: unat_add_no_overflow unat_mult_lem [THEN iffD1])
  with hex_nibble_u32_bound [OF n] have "unat w + 1 \<le> (unat acc + 1) * 16" by simp
  then have "(unat w + 1) * 16 ^ length ds \<le> (unat acc + 1) * 16 * 16 ^ length ds" by (rule mult_le_mono1)
  with "2.IH" [OF n w r] hex_nibble_u32_bound [OF n] show ?case by (simp add: algebra_simps)
qed simp

lemma parse_hex_no_panic: "\<not> panics (parse_hex ds)"
proof -
  have "\<not> panics (parse_hex_loop acc ds)" for acc
    by (induction acc ds rule: parse_hex_loop.induct) (auto split: option.splits)
  then show ?thesis by (simp add: parse_hex_def)
qed

lemma binary_loop_no_panic:
  "\<forall>pair \<in> set pairs. length pair = 2 \<Longrightarrow> \<not> panics (binary_loop out pairs)"
proof (induction out pairs rule: binary_loop.induct)
  case (2 out pair pairs)
  have "unat v < 256" if "parse_hex pair = Ok v" for v
    using parse_hex_loop_ok [of 0 pair v] that "2.prems" by (simp add: parse_hex_def)
  with 2 parse_hex_no_panic [of pair] show ?case by (auto simp: rbind_Err_iff)
qed simp

lemma as_chunks2_length: "pair \<in> set (as_chunks2 xs) \<Longrightarrow> length pair = 2"
  by (induction xs rule: as_chunks2.induct) auto

lemma binary_literal_no_panic:
  "start + 1 < length bytes \<Longrightarrow> \<not> panics (binary_literal bytes start)"
  using binary_loop_no_panic [of "as_chunks2 ds" "[]" for ds] as_chunks2_length
  by (auto simp: binary_literal_def Let_def rbind_Err_iff split: option.splits if_splits)

lemma string_escape_boundary:
  assumes "valid_text str" and "string_escape str cursor = Ok (c, nx)"
  shows "is_char_boundary str nx"
proof -
  have lt: "cursor < length str" using assms(2) by (auto simp: string_escape_def split: if_splits)
  consider "nx = cursor + 1" "ascii (str ! cursor)"
    | v where "nx = cursor + 5" "cursor + 5 \<le> length str" "parse_hex (take 4 (drop (cursor + 1) str)) = Ok v"
    using assms(2) by (auto simp: string_escape_def Let_def rbind_Ok_iff ascii_def split: if_splits option.splits)
  then show ?thesis
  proof cases
    case 1
    with boundary_after_ascii [OF assms(1) lt] show ?thesis by simp
  next
    case 2
    from parse_hex_loop_ok [OF 2(3) [unfolded parse_hex_def]] have "list_all ascii (take 4 (drop (cursor + 1) str))" by simp
    then have "\<forall>n<4. ascii (str ! (cursor + 1 + n))" using 2(2) by (simp add: list_all_length)
    from this [rule_format, of 3] have "ascii (str ! (cursor + 4))" by (simp add: add.commute)
    with boundary_after_ascii [OF assms(1), of "cursor + 4"] 2 show ?thesis by (simp add: add.commute)
  qed
qed

lemma string_loop_no_panic:
  "valid_text str \<Longrightarrow> is_char_boundary str segment \<Longrightarrow> segment \<le> cursor \<Longrightarrow>
     (\<not> panics (string_loop str out cursor segment)) \<and>
     (\<forall>s nx. string_loop str out cursor segment = Ok (s, nx) \<longrightarrow> is_char_boundary str nx)"
proof (induction str out cursor segment rule: string_loop.induct)
  case (1 str out cursor segment)
  show ?case
  proof (cases "length str \<le> cursor")
    case True
    then show ?thesis by (simp add: string_loop.simps [of str out cursor])
  next
    case lt: False
    consider "str ! cursor = quote_char" | "str ! cursor \<noteq> quote_char" "str ! cursor = backslash"
      | "str ! cursor \<noteq> quote_char" "str ! cursor \<noteq> backslash" by blast
    then show ?thesis
    proof cases
      case 1
      then have "ascii (str ! cursor)" by (simp add: ascii_def)
      with 1 lt "1.prems" boundary_ascii [of cursor str] boundary_after_ascii [of str cursor] show ?thesis
        by (simp add: string_loop.simps [of str out cursor] str_slice_ok)
    next
      case 2
      then have "ascii (str ! cursor)" by (simp add: ascii_def)
      with lt "1.prems" boundary_ascii [of cursor str]
      have sl: "str_slice str segment cursor = Ok (take (cursor - segment) (drop segment str))" by (simp add: str_slice_ok)
      have esc: "\<not> panics (string_escape str (cursor + 1))"
        using parse_hex_no_panic by (auto simp: string_escape_def Let_def rbind_Err_iff split: option.splits)
      show ?thesis
      proof (cases "string_escape str (cursor + 1)")
        case (Inl e)
        with esc 2 lt sl show ?thesis by (simp add: string_loop.simps [of str out cursor])
      next
        case (Inr r)
        obtain c nx where r: "r = (c, nx)" by (cases r)
        from "1.IH"(1) [OF lt 2 sl Inr r [symmetric]] "1.prems"(1) string_escape_boundary [OF "1.prems"(1) Inr [unfolded r]] Inr r 2 lt sl
        show ?thesis by (simp add: string_loop.simps [of str out cursor])
      qed
    next
      case 3
      with "1.IH"(2) [OF lt 3] "1.prems" lt show ?thesis by (simp add: string_loop.simps [of str out cursor])
    qed
  qed
qed

lemma word_end_stops:
  "word_end str cursor \<le> max cursor (length str) \<and>
     (word_end str cursor < length str \<longrightarrow> word_stop (str ! word_end str cursor))"
proof (induction str cursor rule: word_end.induct)
  case (1 str cursor)
  show ?case
  proof (cases "cursor < length str \<and> \<not> word_stop (str ! cursor)")
    case True
    with "1.IH" show ?thesis by (simp add: word_end.simps [of str cursor])
  next
    case False
    then show ?thesis by (auto simp: word_end.simps [of str cursor])
  qed
qed

lemma word_stop_ascii: "word_stop c \<Longrightarrow> ascii c"
  by (auto simp: word_stop_def is_ascii_whitespace_def ascii_def)

lemma symbol_at_ascii:
  "symbol_at (drop i str) = Some (sb, n) \<Longrightarrow> i + n \<le> length str \<and> 0 < n \<and> ascii (str ! (i + n - 1))"
proof -
  assume s: "symbol_at (drop i str) = Some (sb, n)"
  then obtain c cs where d: "drop i str = c # cs" by (cases "drop i str") auto
  have lt: "i < length str" using d by (metis drop_all list.distinct(1) not_le)
  have c: "c = str ! i" "cs = drop (i + 1) str" using d lt by (simp_all add: Cons_nth_drop_Suc [symmetric])
  show ?thesis
  proof (cases "drop (i + 1) str")
    case Nil
    with s lt show ?thesis unfolding d c by (auto simp: Let_def ascii_def split: if_splits)
  next
    case (Cons e es)
    then have "i + 1 < length str" by (metis drop_all list.distinct(1) not_le)
    with Cons s lt show ?thesis unfolding d c by (auto simp: Let_def ascii_def nth_via_drop split: if_splits)
  qed
qed

lemma tokenize_loop_no_panic:
  "valid_text str \<Longrightarrow> is_char_boundary str cursor \<Longrightarrow> \<not> panics (tokenize_loop str cursor tokens)"
proof (induction str cursor tokens rule: tokenize_loop.induct)
  case (1 str cursor tokens)
  let ?word = "word_end str cursor"
  show ?case
  proof (cases "length str \<le> cursor")
    case True
    then show ?thesis by (simp add: tokenize_loop.simps [of str cursor])
  next
    case lt: False
    consider (ws) "is_ascii_whitespace (str ! cursor)"
      | (bin) "\<not> is_ascii_whitespace (str ! cursor)"
          "str ! cursor = CHR ''x'' \<and> cursor + 1 < length str \<and> str ! (cursor + 1) = quote_char"
      | (str) "\<not> is_ascii_whitespace (str ! cursor)"
          "\<not> (str ! cursor = CHR ''x'' \<and> cursor + 1 < length str \<and> str ! (cursor + 1) = quote_char)"
          "str ! cursor = quote_char"
      | (other) "\<not> is_ascii_whitespace (str ! cursor)"
          "\<not> (str ! cursor = CHR ''x'' \<and> cursor + 1 < length str \<and> str ! (cursor + 1) = quote_char)"
          "str ! cursor \<noteq> quote_char" by blast
    then show ?thesis
    proof cases
      case ws
      then have "ascii (str ! cursor)" by (auto simp: is_ascii_whitespace_def ascii_def)
      with "1.IH"(1) [OF lt ws] "1.prems" ws lt boundary_after_ascii [of str cursor] show ?thesis
        by (simp add: tokenize_loop.simps [of str cursor])
    next
      case bin
      show ?thesis
      proof (cases "binary_literal str cursor")
        case (Inl e)
        with binary_literal_no_panic [of cursor str] bin lt show ?thesis by (auto simp: tokenize_loop.simps [of str cursor])
      next
        case (Inr r)
        obtain b nx where r: "r = (b, nx)" by (cases r)
        with Inr obtain k where k: "nx = cursor + 2 + k + 1" "cursor + 2 + k < length str" "str ! (cursor + 2 + k) = quote_char"
          by (auto simp: binary_literal_def Let_def rbind_Ok_iff split: if_splits option.splits dest!: position_SomeD)
        then have "is_char_boundary str nx" using boundary_after_ascii [OF "1.prems"(1) k(2)] by (simp add: ascii_def)
        with "1.IH"(2) [OF lt bin Inr r [symmetric]] "1.prems" Inr r bin lt show ?thesis
          by (simp add: tokenize_loop.simps [of str cursor])
      qed
    next
      case str
      have b: "is_char_boundary str (cursor + 1)"
        using boundary_after_ascii [OF "1.prems"(1), of cursor] lt str by (simp add: ascii_def)
      note np = string_loop_no_panic [OF "1.prems"(1) b order_refl, of "[]", folded string_literal_def]
      show ?thesis
      proof (cases "string_literal str cursor")
        case (Inl e)
        with np str lt show ?thesis by (simp add: tokenize_loop.simps [of str cursor])
      next
        case (Inr r)
        obtain s nx where r: "r = (s, nx)" by (cases r)
        with np Inr have "is_char_boundary str nx" by blast
        with "1.IH"(3) [OF lt str Inr r [symmetric]] "1.prems" Inr r str lt show ?thesis
          by (simp add: tokenize_loop.simps [of str cursor])
      qed
    next
      case other
      show ?thesis
      proof (cases "symbol_at (drop cursor str)")
        case (Some r)
        obtain sb n where r: "r = (sb, n)" by (cases r)
        with Some symbol_at_ascii [of cursor str sb n] have s: "cursor + n \<le> length str" "0 < n" "ascii (str ! (cursor + n - 1))" by auto
        with boundary_after_ascii [OF "1.prems"(1), of "cursor + n - 1"] have "is_char_boundary str (cursor + n)" by simp
        with "1.IH"(5) [OF lt other Some r [symmetric]] "1.prems" Some r other lt show ?thesis
          by (auto simp: tokenize_loop.simps [of str cursor])
      next
        case None
        have we: "cursor \<le> ?word" "?word \<le> length str" using word_end_ge word_end_stops [of str cursor] lt by auto
        have b: "is_char_boundary str ?word"
        proof (cases "?word < length str")
          case True
          then show ?thesis using word_end_stops [of str cursor] by (blast intro: boundary_ascii word_stop_ascii)
        next
          case False
          then show ?thesis using we by (simp add: is_char_boundary_def)
        qed
        show ?thesis
        proof (cases "?word = cursor")
          case True
          with None other lt show ?thesis by (auto simp: tokenize_loop.simps [of str cursor] Let_def)
        next
          case False
          note sl = str_slice_ok [OF we "1.prems"(2) b]
          from "1.IH"(4) [OF lt other None refl False sl] b "1.prems" sl None other lt False show ?thesis
            by (auto simp: tokenize_loop.simps [of str cursor] Let_def)
        qed
      qed
    qed
  qed
qed

lemma tokenize_no_panic: "valid_text str \<Longrightarrow> \<not> panics (tokenize str)"
  unfolding tokenize_def by (rule tokenize_loop_no_panic) (simp_all add: is_char_boundary_def)

section \<open>Where the parser panics\<close>

named_theorems no_panic
  \<comment> \<open>parsing functions that never panic\<close>

lemma rbind_panics: "panics (rbind m f) \<longleftrightarrow> panics m \<or> (\<exists>a. m = Ok a \<and> panics (f a))"
  by (rule rbind_Err_iff)

lemma basic_no_panic [no_panic]:
  "\<not> panics (expect_keyword p k)" "\<not> panics (expect_symbol p s)" "\<not> panics (parser_word p)"
  "\<not> panics (parser_identifier p)" "\<not> panics (pattern_identifier p)" "\<not> panics (parser_literal p)"
  "\<not> panics (comparison_operator p l)" "\<not> panics (validate_absolute_time v)"
  by (auto simp: expect_keyword_def expect_symbol_def parser_word_def parser_identifier_def pattern_identifier_def
      parser_literal_def comparison_operator_def validate_absolute_time_def Let_def
      split: prod.splits bool.splits option.splits token.splits sum.splits)

lemma field_no_panic [no_panic]: "\<not> panics (parser_field p)" "\<not> panics (parser_count p)"
  by (auto simp: parser_field_def parser_count_def rbind_panics no_panic split: option.splits)

lemma in_values_no_panic [no_panic]: "\<not> panics (in_values p vs)"
proof (induction p vs rule: in_values.induct)
  case (1 p vs)
  then show ?case
    by (subst in_values.simps) (auto simp: rbind_panics no_panic split: prod.splits bool.splits)
qed

lemma simple_predicate_no_panic [no_panic]: "\<not> panics (simple_predicate p l)"
  by (auto simp: simple_predicate_def Let_def rbind_panics no_panic split: prod.splits bool.splits)

lemma join_no_panic [no_panic]: "\<not> panics (join l r f)"
  by (auto simp: join_def expression_depth_error_def Let_def)

lemma expression_no_panic [no_panic]:
  "\<not> panics (or_expression p)" "\<not> panics (or_loop p e)" "\<not> panics (and_expression p)"
  "\<not> panics (and_loop p e)" "\<not> panics (predicate_atom p)"
proof (induction p and p e and p and p e and p rule: or_expression_or_loop_and_expression_and_loop_predicate_atom.induct)
  case (1 p)
  then show ?case by (subst or_expression.simps) (auto simp: rbind_panics)
next
  case (2 p e)
  then show ?case by (subst or_loop.simps) (auto simp: rbind_panics no_panic split: prod.splits bool.splits)
next
  case (3 p)
  then show ?case by (subst and_expression.simps) (auto simp: rbind_panics)
next
  case (4 p e)
  then show ?case by (subst and_loop.simps) (auto simp: rbind_panics no_panic split: prod.splits bool.splits)
next
  case (5 p)
  then show ?case
    by (subst predicate_atom.simps)
      (auto simp: rbind_panics no_panic expression_depth_error_def split: prod.splits bool.splits)
qed

lemma parser_expression_no_panic [no_panic]: "\<not> panics (parser_expression p)"
  by (auto simp: parser_expression_def rbind_panics no_panic)

lemma label_loop_no_panic [no_panic]: "\<not> panics (label_loop p vs)"
proof (induction p vs rule: label_loop.induct)
  case (1 p vs)
  then show ?case
    by (subst label_loop.simps) (auto simp: rbind_panics no_panic split: prod.splits bool.splits)
qed

lemma label_selector_no_panic [no_panic]: "\<not> panics (label_selector p)"
  by (auto simp: label_selector_def rbind_panics no_panic split: prod.splits bool.splits)

lemma field_loop_no_panic [no_panic]: "\<not> panics (field_loop p vs)"
proof (induction p vs rule: field_loop.induct)
  case (1 p vs)
  then show ?case by (subst field_loop.simps) (auto simp: rbind_panics no_panic split: prod.splits bool.splits)
qed

lemma origin_loop_no_panic [no_panic]: "\<not> panics (origin_loop p vs)"
proof (induction p vs rule: origin_loop.induct)
  case (1 p vs)
  then show ?case by (subst origin_loop.simps) (auto simp: rbind_panics no_panic split: prod.splits bool.splits)
qed

lemma sort_keys_no_panic [no_panic]: "\<not> panics (sort_keys p vs)"
proof (induction p vs rule: sort_keys.induct)
  case (1 p vs)
  then show ?case
    by (subst sort_keys.simps) (auto simp: rbind_panics no_panic Let_def split: prod.splits bool.splits)
qed

lemma clause_part_no_panic [no_panic]:
  "\<not> panics (field_list p)" "\<not> panics (group_function p)" "\<not> panics (parse_origins p q)"
  "\<not> panics (set_error_only q)" "\<not> panics (set_containing p q)" "\<not> panics (set_record_aggregate q a)"
  "\<not> panics (set_metric_aggregate q m)" "\<not> panics (ensure_absent v c)" "\<not> panics (ensure_record_mode s c)"
  by (auto simp: field_list_def group_function_def parse_origins_def set_error_only_def set_containing_def
      set_record_aggregate_def set_metric_aggregate_def ensure_absent_def ensure_record_mode_def
      rbind_panics no_panic Let_def split: source.splits)

lemma peek_keyword_uppercase: "peek_keyword p k \<Longrightarrow> parser_word p = Ok (w, p1) \<Longrightarrow> eq_ignore_ascii_case w k"
  by (auto simp: peek_keyword_def parser_word_def parser_next_def split: option.splits token.splits)

lemma to_ascii_uppercase_lowercase: "to_ascii_uppercase (to_ascii_lowercase c) = to_ascii_uppercase c"
  by (simp add: to_ascii_uppercase_def to_ascii_lowercase_def is_ascii_uppercase_def is_ascii_lowercase_def)

lemma eq_ignore_uppercase: "eq_ignore_ascii_case a b \<Longrightarrow> uppercase a = uppercase b"
proof -
  assume "eq_ignore_ascii_case a b"
  then have "uppercase (lowercase a) = uppercase (lowercase b)" by (simp add: eq_ignore_ascii_case_def)
  then show ?thesis by (simp add: comp_def to_ascii_uppercase_lowercase)
qed

definition panics_if :: "parse_error abort + 'a \<Rightarrow> bool \<Rightarrow> bool" where
  "panics_if m B \<longleftrightarrow> (panics m \<longrightarrow> B)"

lemma panics_if_rules:
  "(b \<Longrightarrow> panics_if x B) \<Longrightarrow> panics_if y B \<Longrightarrow> panics_if (if b then x else y) B"
  "panics_if m B \<Longrightarrow> (\<And>a. m = Ok a \<Longrightarrow> panics_if (f a) B) \<Longrightarrow> panics_if (rbind m f) B"
  "(\<And>a b. z = (a, b) \<Longrightarrow> panics_if (g a b) B) \<Longrightarrow> panics_if (case z of (a, b) \<Rightarrow> g a b) B"
  by (auto simp: panics_if_def rbind_panics split: prod.splits)

lemma cross_filter_no_panic:
  assumes "peek_keyword p ''METRIC'' \<or> peek_keyword p ''EVENT'' \<or> peek_keyword p ''LOG''"
  shows "\<not> panics (cross_filter p)"
proof -
  have k: "uppercase w \<in> {''METRIC'', ''EVENT'', ''LOG''}" if "parser_word p = Ok (w, p1)" for w p1
  proof -
    have "uppercase w \<in> {uppercase ''METRIC'', uppercase ''EVENT'', uppercase ''LOG''}"
      using assms peek_keyword_uppercase [OF _ that] eq_ignore_uppercase [of w] by blast
    then show ?thesis by (simp add: to_ascii_uppercase_def is_ascii_lowercase_def)
  qed
  have "panics_if (cross_filter p) False"
    unfolding cross_filter_def Let_def consume_if
  proof (rule panics_if_rules(2), goal_cases)
    case (2 r)
    then obtain w p1 where r: "r = (w, p1)" and w: "parser_word p = Ok (w, p1)" by (cases r) auto
    from k [OF w] consider "uppercase w = ''METRIC''" | "uppercase w = ''EVENT''" | "uppercase w = ''LOG''" by blast
    then show ?case
      unfolding r prod.case by cases (simp_all, (intro panics_if_rules; simp add: panics_if_def no_panic)+)
  qed (simp add: panics_if_def no_panic)
  then show ?thesis by (simp add: panics_if_def)
qed

definition cut_inside :: "string \<Rightarrow> bool" where
  "cut_inside w \<longleftrightarrow> \<not> is_char_boundary w (length w - 1)"

definition has_cut_word :: "token list \<Rightarrow> bool" where
  "has_cut_word tokens \<longleftrightarrow> (\<exists>w. TWord w \<in> set tokens \<and> cut_inside w)"

lemma parse_duration_panics: "panics (parse_duration v) \<longleftrightarrow> cut_inside v"
  by (auto simp: parse_duration_def duration_unit_def cut_inside_def Let_def rbind_panics split: option.splits if_splits)

lemma parser_word_token: "parser_word p = Ok (w, p1) \<Longrightarrow> TWord w \<in> set (p_tokens p)"
  by (auto simp: parser_word_def parser_next_def current_def split: option.splits token.splits if_splits)
    (metis nth_mem)

lemma duration_panics:
  "panics (parser_time p) \<Longrightarrow> has_cut_word (p_tokens p)" "panics (parser_duration p) \<Longrightarrow> has_cut_word (p_tokens p)"
  by (auto simp: parser_time_def parser_duration_def rbind_panics no_panic parse_duration_panics has_cut_word_def
      split: if_splits sum.splits abort.splits dest: parser_word_token)

lemma clause_panics: "panics_if (clause k p q s) (has_cut_word (p_tokens p))"
  unfolding clause_def Let_def keep_skip_def
  by (intro panics_if_rules; clarsimp simp: panics_if_def no_panic duration_panics cross_filter_no_panic)

lemma clause_loop_panics: "panics (clause_loop p q s) \<Longrightarrow> has_cut_word (p_tokens p)"
proof (induction p q s rule: clause_loop.induct)
  case (1 p q s)
  from "1.prems" obtain w p1 where lt: "p_cursor p < length (p_tokens p)" and w: "parser_word p = Ok (w, p1)"
    and c: "panics (rbind (clause (uppercase w) p1 q s) (\<lambda>(r, p2). clause_loop p2 (fst r) (snd r)))"
    by (auto simp: clause_loop.simps [of p] rbind_panics no_panic split: if_splits)
  have p1: "p_tokens p1 = p_tokens p" using parser_word_progress [OF w] by (simp add: progress_simps)
  from c consider "panics (clause (uppercase w) p1 q s)"
    | r p2 where "clause (uppercase w) p1 q s = Ok (r, p2)" "panics (clause_loop p2 (fst r) (snd r))"
    by (auto simp: rbind_panics)
  then show ?case
  proof cases
    case 1
    with clause_panics [of "uppercase w" p1 q s] p1 show ?thesis by (simp add: panics_if_def)
  next
    case 2
    with "1.IH" [OF lt w refl 2(1) refl 2(2)] clause_stays [OF 2(1)] p1 show ?thesis by (simp add: progress_simps)
  qed
qed

lemma validate_no_panic [no_panic]:
  "\<not> panics (validate_fixed_fields q)" "\<not> panics (validate_stream q)" "\<not> panics (validate_combinations q)"
proof -
  show f: "\<not> panics (validate_fixed_fields q)"
    by (auto simp: validate_fixed_fields_def split: source.splits option.splits)
  show s: "\<not> panics (validate_stream q)" by (simp add: validate_stream_def)
  have "panics_if (validate_combinations q) False"
    unfolding validate_combinations_def by (intro panics_if_rules) (simp_all add: panics_if_def f s)
  then show "\<not> panics (validate_combinations q)" by (simp add: panics_if_def)
qed

lemma parse_source_no_panic [no_panic]: "\<not> panics (parse_source p)"
  by (auto simp: parse_source_def Let_def rbind_panics no_panic split: prod.splits)

lemma take_primary_stays: "take_primary_identifier p = (v, p') \<Longrightarrow> stays p p'"
  by (auto simp: take_primary_identifier_def split: option.splits token.splits if_splits
      intro: progress_stays progress_advance)

lemma parse_source_tokens: "parse_source p = Ok (s, p') \<Longrightarrow> p_tokens p' = p_tokens p"
proof -
  have "ensures (parse_source p) (\<lambda>(s, p'). p_tokens p' = p_tokens p)"
    unfolding parse_source_def Let_def
    by (intro ensures_rules; clarsimp dest!: parser_progress take_primary_stays; simp add: progress_simps)
  then show "parse_source p = Ok (s, p') \<Longrightarrow> p_tokens p' = p_tokens p" by (auto dest: ensuresD)
qed

text \<open>
  C20. Parsing is total but for one place. On any UTF-8 text the tokenizer never slices inside a
  character, no expectation of the parser fails and its \<^verbatim>\<open>unreachable!\<close> arm is not reached; the parser
  panics only if the text has a bare word whose last character takes more than one byte, which
  \<^verbatim>\<open>parse_duration\<close> cuts before its last byte.
\<close>

theorem parse_panics_only_on_cut_word:
  assumes "utf8_valid (as_bytes str)" and "parse str = Err Panicked"
  shows "\<exists>tokens w. tokenize str = Ok tokens \<and> TWord w \<in> set tokens \<and> continuation (byte_of (last w))"
proof -
  from assms tokenize_no_panic obtain tokens where tk: "tokenize str = Ok tokens"
    and p: "panics (parser_parse (parser_new tokens))"
    by (auto simp: parse_def rbind_panics)
  from p obtain s p1 where "parse_source (parser_new tokens) = Ok (s, p1)" "panics (clause_loop p1 (empty_query s) False)"
    by (auto simp: parser_parse_def rbind_panics no_panic)
  then have "has_cut_word tokens"
    using clause_loop_panics parse_source_tokens by (fastforce simp: parser_new_def)
  then obtain w where w: "TWord w \<in> set tokens" "cut_inside w" by (auto simp: has_cut_word_def)
  then have "w \<noteq> []" "continuation (byte_of (w ! (length w - 1)))"
    by (auto simp: cut_inside_def is_char_boundary_def)
  with tk w show ?thesis by (auto simp: last_conv_nth)
qed

text \<open>The smallest such text: a time that is one character of two bytes.\<close>

definition cut_word_query :: string where
  "cut_word_query = ''EVENTS SINCE '' @ [CHR 0xC3, CHR 0xA9]"

lemma cut_word_tokens: "tokenize cut_word_query = Ok [TWord ''EVENTS'', TWord ''SINCE'', TWord [CHR 0xC3, CHR 0xA9]]"
  unfolding cut_word_query_def tokenize_def
  by (simp add: tokenize_loop.simps word_end.simps is_ascii_whitespace_def word_stop_def str_slice_def
      is_char_boundary_def continuation_def byte_of_def word_order Let_def)

lemma parse_can_panic: "parse cut_word_query = Err Panicked"
  unfolding parse_def cut_word_tokens
  by (simp add: parser_parse_def parser_new_def parse_source_def parser_word_def parser_next_def current_def
      advance_def to_ascii_uppercase_def is_ascii_lowercase_def is_ascii_uppercase_def
      take_primary_identifier_def is_clause_def clause_loop.simps empty_query_def clause_def ensure_absent_def
      parser_time_def eq_ignore_ascii_case_def parse_duration_def is_char_boundary_def continuation_def
      byte_of_def word_order to_ascii_lowercase_def Let_def)

theorem parse_panics_only_on_cut_word_witness:
  "parse cut_word_query = Err Panicked \<and>
   (\<exists>tokens w. tokenize cut_word_query = Ok tokens \<and> TWord w \<in> set tokens \<and> continuation (byte_of (last w)))"
proof
  have "utf8_valid (as_bytes cut_word_query)"
    by (simp add: cut_word_query_def continuation_def byte_of_def word_order)
  from parse_panics_only_on_cut_word [OF this parse_can_panic]
  show "\<exists>tokens w. tokenize cut_word_query = Ok tokens \<and> TWord w \<in> set tokens \<and> continuation (byte_of (last w))" .
qed (rule parse_can_panic)


section \<open>What an accepted query satisfies\<close>

lemma valid_identifier_field_path: "valid_identifier f \<longleftrightarrow> valid_field_path f"
proof -
  have "valid_identifier_segment = valid_segment"
    by (rule ext) (auto simp: valid_identifier_segment_def valid_segment_def split: list.splits)
  then show ?thesis by (simp add: valid_identifier_def valid_field_path_def)
qed

definition good_expr :: "expr \<Rightarrow> bool" where
  "good_expr e \<longleftrightarrow> expr_depth e \<le> MAX_EXPRESSION_DEPTH \<and> (\<forall>f \<in> fields_in e. valid_field_path f)"

definition good_parsed :: "parsed_expr \<Rightarrow> bool" where
  "good_parsed e \<longleftrightarrow> good_expr (pe_value e) \<and> pe_depth e = expr_depth (pe_value e)"

lemma parser_field_good: "parser_field p = Ok (f, p') \<Longrightarrow> valid_field_path f"
  by (auto simp: parser_field_def rbind_Ok_iff valid_identifier_field_path split: if_splits)

lemma simple_predicate_good: "simple_predicate p l = Ok (e, p') \<Longrightarrow> good_parsed (leaf e)"
proof -
  have "ensures (simple_predicate p l) (\<lambda>(e, p'). good_parsed (leaf e))"
    unfolding simple_predicate_def Let_def consume_if
    by (intro ensures_rules; clarsimp dest!: parser_field_good)
      (auto simp: good_parsed_def good_expr_def leaf_def MAX_EXPRESSION_DEPTH_def)
  then show "simple_predicate p l = Ok (e, p') \<Longrightarrow> good_parsed (leaf e)" by (auto dest: ensuresD)
qed

lemma join_good:
  "join l r f = Ok e \<Longrightarrow> f = And \<or> f = Or \<Longrightarrow> good_parsed l \<Longrightarrow> good_parsed r \<Longrightarrow> good_parsed e"
  by (auto simp: join_def good_parsed_def good_expr_def Let_def split: if_splits)

lemma expression_good:
  "or_expression p = Ok (r, p') \<Longrightarrow> good_parsed r"
  "good_parsed e \<Longrightarrow> or_loop p e = Ok (r, p') \<Longrightarrow> good_parsed r"
  "and_expression p = Ok (r, p') \<Longrightarrow> good_parsed r"
  "good_parsed e \<Longrightarrow> and_loop p e = Ok (r, p') \<Longrightarrow> good_parsed r"
  "predicate_atom p = Ok (r, p') \<Longrightarrow> good_parsed r"
proof (induction p and p e and p and p e and p arbitrary: r p' and r p' and r p' and r p' and r p'
    rule: or_expression_or_loop_and_expression_and_loop_predicate_atom.induct)
  case (1 p)
  from "1.prems" obtain e p1 where "and_expression p = Ok (e, p1)" "or_loop p1 e = Ok (r, p')"
    unfolding or_expression.simps [of p] by (auto simp: rbind_Ok_iff)
  with "1.IH" show ?case by blast
next
  case (2 p e)
  show ?case
  proof (cases "peek_keyword p ''OR''")
    case True
    with "2.prems"(2) obtain x p1 y where x: "and_expression (advance p) = Ok (x, p1)" "join e x Or = Ok y"
      "or_loop p1 y = Ok (r, p')" unfolding or_loop.simps [of p] consume_if by (auto simp: rbind_Ok_iff)
    have c: "(True, advance p) = consume_keyword p ''OR''" using True by (simp add: consume_pair)
    from "2.IH"(1) [OF c refl x(1)] join_good [OF x(2)] "2.prems"(1) have "good_parsed y" by blast
    from "2.IH"(2) [OF c refl x(1) refl x(2) this x(3)] show ?thesis .
  next
    case False
    with "2.prems" show ?thesis unfolding or_loop.simps [of p] consume_if by simp
  qed
next
  case (3 p)
  from "3.prems" obtain e p1 where "predicate_atom p = Ok (e, p1)" "and_loop p1 e = Ok (r, p')"
    unfolding and_expression.simps [of p] by (auto simp: rbind_Ok_iff)
  with "3.IH" show ?case by blast
next
  case (4 p e)
  show ?case
  proof (cases "peek_keyword p ''AND''")
    case True
    with "4.prems"(2) obtain x p1 y where x: "predicate_atom (advance p) = Ok (x, p1)" "join e x And = Ok y"
      "and_loop p1 y = Ok (r, p')" unfolding and_loop.simps [of p] consume_if by (auto simp: rbind_Ok_iff)
    have c: "(True, advance p) = consume_keyword p ''AND''" using True by (simp add: consume_pair)
    from "4.IH"(1) [OF c refl x(1)] join_good [OF x(2)] "4.prems"(1) have "good_parsed y" by blast
    from "4.IH"(2) [OF c refl x(1) refl x(2) this x(3)] show ?thesis .
  next
    case False
    with "4.prems" show ?thesis unfolding and_loop.simps [of p] consume_if by simp
  qed
next
  case (5 p)
  show ?case
  proof (cases "current p = Some (TSymbol LeftParen)")
    case True
    with "5.prems" obtain p1 where x: "parenthesis_depth (advance p) \<noteq> MAX_EXPRESSION_DEPTH"
      "or_expression (deeper (advance p)) = Ok (r, p1)"
      unfolding predicate_atom.simps [of p] consume_if by (auto simp: rbind_Ok_iff split: if_splits)
    from "5.IH" [OF _ refl x(1,2)] True show ?thesis by (simp add: consume_pair)
  next
    case False
    with "5.prems" show ?thesis
      unfolding predicate_atom.simps [of p] consume_if by (auto simp: rbind_Ok_iff dest: simple_predicate_good)
  qed
qed

lemma parser_expression_good: "parser_expression p = Ok (e, p') \<Longrightarrow> good_expr e"
  by (auto simp: parser_expression_def rbind_Ok_iff good_parsed_def dest: expression_good(1))

text \<open>What each clause keeps true of the query it extends.\<close>

fun good_time :: "time_expr \<Rightarrow> bool" where
  "good_time (Relative n _) \<longleftrightarrow> 10 ^ 9 \<le> unat n"
| "good_time (Absolute s) \<longleftrightarrow> valid_time_shape s"
| "good_time _ \<longleftrightarrow> True"

fun good_cross :: "cross_filter \<Rightarrow> bool" where
  "good_cross (CrossMetric _ _ op v) \<longleftrightarrow>
     op \<in> {OpEqual, OpNotEqual, OpGreater, OpGreaterEqual, OpLess, OpLessEqual} \<and> is_numeric_literal v"
| "good_cross _ \<longleftrightarrow> True"

definition good_fields :: "query \<Rightarrow> bool" where
  "good_fields q \<longleftrightarrow>
     list_all good_expr (q_predicates q) \<and> list_all good_cross (q_cross_filters q) \<and>
     list_all (\<lambda>k. valid_field_path (sk_field k)) (q_sort q) \<and> list_all valid_field_path (q_select q) \<and>
     pred_option (\<lambda>a. list_all valid_field_path (aggregate_fields a)) (q_aggregate q) \<and>
     pred_option valid_field_path (q_index q) \<and> pred_option good_time (q_since q) \<and> pred_option good_time (q_until q)"

definition good_mode :: "query \<Rightarrow> bool" where
  "good_mode q \<longleftrightarrow>
     (is_metric (q_source q) \<longrightarrow> q_select q = [] \<and> q_aggregate q = None) \<and>
     (\<not> is_metric (q_source q) \<longrightarrow> q_transform q = None \<and> q_metric_aggregate q = None) \<and>
     (q_index q \<noteq> None \<longrightarrow> is_events (q_source q)) \<and>
     (\<forall>f n. q_metric_aggregate q = Some (Window f n) \<longrightarrow> 10 ^ 9 \<le> unat n)"

lemma checked_mul_Some: "checked_mul x y = Some z \<Longrightarrow> unat z = unat x * unat y"
  by (auto simp: checked_mul_def unat_mult_lem [THEN iffD1] split: if_splits)

lemma duration_unit_pos: "duration_unit v = Ok n \<Longrightarrow> 0 < unat n"
  by (auto simp: duration_unit_def split: if_splits)

lemma parse_duration_bound: "parse_duration v = Ok n \<Longrightarrow> 10 ^ 9 \<le> unat n"
proof -
  assume "parse_duration v = Ok n"
  then obtain count seconds m where c: "count \<noteq> 0" "duration_unit (drop (length v - 1) v) = Ok seconds"
    "checked_mul count seconds = Some m" "checked_mul m 1000000000 = Some n"
    by (auto simp: parse_duration_def Let_def rbind_Ok_iff bind_eq_Some_conv split: if_splits option.splits)
  then have "unat n = unat count * unat seconds * 1000000000"
    by (simp add: checked_mul_Some [OF c(3)] checked_mul_Some [OF c(4)])
  moreover have "1 \<le> unat count * unat seconds" using c(1) duration_unit_pos [OF c(2)] by (simp add: unat_gt_0 Suc_le_eq)
  ultimately show ?thesis by simp
qed

lemma parser_time_good: "parser_time p = Ok (v, p') \<Longrightarrow> good_time v"
  by (auto simp: parser_time_def rbind_Ok_iff validate_absolute_time_def
      split: if_splits sum.splits abort.splits dest: parse_duration_bound)

lemma parser_duration_good: "parser_duration p = Ok (n, p') \<Longrightarrow> 10 ^ 9 \<le> unat n"
  by (auto simp: parser_duration_def rbind_Ok_iff dest: parse_duration_bound)

lemma comparison_operator_cross:
  "op \<notin> {OpStartsWith, OpEndsWith, OpContains, OpHas} \<Longrightarrow>
     op \<in> {OpEqual, OpNotEqual, OpGreater, OpGreaterEqual, OpLess, OpLessEqual}"
  by (cases op) auto

lemma cross_filter_good: "cross_filter p = Ok (v, p') \<Longrightarrow> good_cross v"
proof -
  have "ensures (cross_filter p) (\<lambda>(v, p'). good_cross v)"
    unfolding cross_filter_def Let_def consume_if
    by (intro ensures_if ensures_rules(2,3); clarsimp simp del: map_eq_Cons_conv) (use comparison_operator_cross in blast)
  then show "cross_filter p = Ok (v, p') \<Longrightarrow> good_cross v" by (auto dest: ensuresD)
qed

lemma sort_keys_good:
  "sort_keys p ks = Ok (v, p') \<Longrightarrow> list_all (\<lambda>k. valid_field_path (sk_field k)) ks \<Longrightarrow>
     list_all (\<lambda>k. valid_field_path (sk_field k)) v"
proof (induction p ks rule: sort_keys.induct)
  case (1 p ks)
  from "1.prems"(1) obtain f p1 where f: "parser_field p = Ok (f, p1)"
    by (auto simp: sort_keys.simps [of p ks] rbind_Ok_iff)
  obtain desc p3 where d: "sort_direction p1 = (desc, p3)" by (cases "sort_direction p1")
  let ?ks = "ks @ [\<lparr>sk_field = f, sk_descending = desc\<rparr>]"
  have r: "(if current p3 = Some (TSymbol Comma) then sort_keys (advance p3) ?ks else Ok (?ks, p3)) = Ok (v, p')"
    using "1.prems"(1) f d unfolding sort_keys.simps [of p ks] Let_def consume_if by simp
  have g: "list_all (\<lambda>k. valid_field_path (sk_field k)) ?ks"
    using "1.prems"(2) parser_field_good [OF f] by simp
  show ?case
  proof (cases "current p3 = Some (TSymbol Comma)")
    case True
    with "1.IH" [OF f refl d [symmetric] refl, of True "advance p3"] r g show ?thesis by (simp add: consume_pair)
  qed (use r g in auto)
qed

lemma field_loop_good:
  "field_loop p fs = Ok (v, p') \<Longrightarrow> list_all valid_field_path fs \<Longrightarrow> list_all valid_field_path v"
proof (induction p fs rule: field_loop.induct)
  case (1 p fs)
  show ?case
  proof (cases "current p = Some (TSymbol Comma)")
    case True
    with "1.prems"(1) obtain f p2 where f: "parser_field (advance p) = Ok (f, p2)" "field_loop p2 (fs @ [f]) = Ok (v, p')"
      by (subst (asm) field_loop.simps, unfold consume_if) (auto simp: rbind_Ok_iff)
    with "1.IH" [of True "advance p", OF _ refl f(1) refl f(2)] True "1.prems"(2) parser_field_good [OF f(1)]
    show ?thesis by (simp add: consume_pair)
  next
    case False
    with "1.prems" show ?thesis by (subst (asm) field_loop.simps, unfold consume_if) simp
  qed
qed

lemma field_list_good: "field_list p = Ok (v, p') \<Longrightarrow> list_all valid_field_path v"
  by (auto simp: field_list_def rbind_Ok_iff dest!: parser_field_good field_loop_good)

lemma group_function_good: "group_function p = Ok (g, p') \<Longrightarrow> list_all valid_field_path (group_field g)"
  by (auto simp: group_function_def Let_def rbind_Ok_iff split: if_splits dest: parser_field_good)

lemmas sort_keys_good0 = sort_keys_good [where ks = "[]", simplified]

text \<open>The clauses of the \<^verbatim>\<open>LOGS\<close> mode change only the source, and keep its mode.\<close>

definition changes_logs :: "query \<Rightarrow> query \<Rightarrow> bool" where
  "changes_logs q q' \<longleftrightarrow> (\<exists>a b c d e f. q_source q = Logs a b c \<and> q' = q\<lparr>q_source := Logs d e f\<rparr>)"

lemma logs_clauses:
  "parse_origins p q = Ok (q', p') \<Longrightarrow> changes_logs q q'" "set_error_only q = Ok q' \<Longrightarrow> changes_logs q q'"
  "set_containing p q = Ok (q', p') \<Longrightarrow> changes_logs q q'"
  by (cases "q_source q"; auto simp: parse_origins_def set_error_only_def set_containing_def changes_logs_def
      rbind_Ok_iff split: if_splits)+

lemma changes_logs_good: "changes_logs q q' \<Longrightarrow> good_fields q \<Longrightarrow> good_fields q'"
  "changes_logs q q' \<Longrightarrow> good_mode q \<Longrightarrow> good_mode q'"
  by (auto simp: changes_logs_def good_fields_def good_mode_def)

lemma aggregate_set:
  "set_record_aggregate q a = Ok q' \<Longrightarrow> \<not> is_metric (q_source q) \<and> q' = q\<lparr>q_aggregate := Some a\<rparr>"
  "set_metric_aggregate q m = Ok q' \<Longrightarrow> is_metric (q_source q) \<and> q' = q\<lparr>q_metric_aggregate := Some m\<rparr>"
  "ensure_record_mode s c = Ok u \<Longrightarrow> \<not> is_metric s"
  by (auto simp: set_record_aggregate_def set_metric_aggregate_def ensure_record_mode_def split: if_splits)

lemmas clause_results = parser_time_good parser_duration_good cross_filter_good parser_expression_good
  parser_field_good field_list_good group_function_good sort_keys_good0 logs_clauses aggregate_set

lemma clause_good_fields:
  assumes "good_fields q"
  shows "ensures (clause k p q s) (\<lambda>((q', s'), p'). good_fields q')"
  unfolding clause_def Let_def keep_skip_def
  by (intro ensures_rules; insert assms; clarsimp dest!: clause_results;
      (simp add: changes_logs_good)?; (simp add: good_fields_def)?)

lemma clause_good_mode:
  assumes "good_mode q"
  shows "ensures (clause k p q s) (\<lambda>((q', s'), p'). good_mode q')"
  unfolding clause_def Let_def keep_skip_def
  by (intro ensures_if ensures_rules(2,3); insert assms; clarsimp dest!: clause_results;
      (simp add: changes_logs_good)?; (simp add: good_mode_def)?)

lemma clause_loop_good:
  "clause_loop p q s = Ok (q', p') \<Longrightarrow> good_fields q \<Longrightarrow> good_mode q \<Longrightarrow> good_fields q' \<and> good_mode q'"
proof (induction p q s rule: clause_loop.induct)
  case (1 p q s)
  show ?case
  proof (cases "p_cursor p < length (p_tokens p)")
    case True
    with "1.prems"(1) obtain w p1 r p2 where w: "parser_word p = Ok (w, p1)"
      and c: "clause (uppercase w) p1 q s = Ok (r, p2)" and l: "clause_loop p2 (fst r) (snd r) = Ok (q', p')"
      by (auto simp: clause_loop.simps [of p] rbind_Ok_iff)
    from ensuresD [OF clause_good_fields c] ensuresD [OF clause_good_mode c] "1.prems"(2,3)
    have "good_fields (fst r)" "good_mode (fst r)" by (auto split: prod.splits)
    with "1.IH" [OF True w refl c refl l] show ?thesis by blast
  next
    case False
    with "1.prems" show ?thesis by (simp add: clause_loop.simps [of p])
  qed
qed

definition good_combination :: "query \<Rightarrow> bool" where
  "good_combination q \<longleftrightarrow>
     ((\<exists>a b c. q_source q = Logs a b c) \<longrightarrow> set (named_fields q) \<subseteq> set LOG_FIELDS) \<and>
     (q_index q \<noteq> None \<longrightarrow> (\<exists>pat f. q = (empty_query (Events pat))\<lparr>q_index := Some f\<rparr>)) \<and>
     (q_cross_filters q \<noteq> [] \<longrightarrow> q_since q \<noteq> None \<and> list_all (valid_cross_filter (q_source q)) (q_cross_filters q)) \<and>
     (q_aggregate q \<noteq> None \<longrightarrow> q_select q = []) \<and>
     (q_stream q \<longrightarrow> \<not> is_metric (q_source q) \<and> q_until q = None \<and>
       (q_aggregate q = None \<or> is_distinct (q_aggregate q) \<and> q_sort q = [] \<and> q_take q = None \<and> q_skip q = 0)) \<and>
     (is_window (q_metric_aggregate q) \<longrightarrow> q_since q \<noteq> None)"

lemma validate_good:
  assumes "validate_combinations q = Ok ()" and "good_mode q"
  shows "good_combination q"
proof -
  have f: "validate_fixed_fields q = Ok ()"
    and i: "q_index q \<noteq> None \<Longrightarrow> q_since q = None \<and> q_until q = None \<and> q_predicates q = [] \<and> q_cross_filters q = [] \<and>
      q_sort q = [] \<and> q_take q = None \<and> q_skip q = 0 \<and> q_select q = [] \<and> q_aggregate q = None \<and> \<not> q_stream q"
    and c: "q_cross_filters q \<noteq> [] \<Longrightarrow> q_since q \<noteq> None" "list_all (valid_cross_filter (q_source q)) (q_cross_filters q)"
    and a: "q_aggregate q \<noteq> None \<Longrightarrow> q_select q = []"
    and s: "q_stream q \<Longrightarrow> validate_stream q = Ok ()"
    and w: "is_window (q_metric_aggregate q) \<Longrightarrow> q_since q \<noteq> None"
    using assms(1) unfolding validate_combinations_def by (auto simp: rbind_Ok_iff split: if_splits)
  have "\<exists>pat f. q = (empty_query (Events pat))\<lparr>q_index := Some f\<rparr>" if "q_index q \<noteq> None"
  proof -
    from that assms(2) obtain pat f where "q_source q = Events pat" "q_index q = Some f" "\<not> is_metric (q_source q)"
      by (cases "q_source q") (auto simp: good_mode_def)
    with i [OF that] assms(2) show ?thesis
      by (intro exI [of _ pat] exI [of _ f]) (simp add: empty_query_def good_mode_def)
  qed
  moreover have "(\<exists>a b c. q_source q = Logs a b c) \<Longrightarrow> set (named_fields q) \<subseteq> set LOG_FIELDS"
    using f by (auto simp: validate_fixed_fields_def find_None_iff split: option.splits)
  moreover have "q_stream q \<Longrightarrow> \<not> is_metric (q_source q) \<and> q_until q = None \<and>
       (q_aggregate q = None \<or> is_distinct (q_aggregate q) \<and> q_sort q = [] \<and> q_take q = None \<and> q_skip q = 0)"
    using s by (auto simp: validate_stream_def split: if_splits)
  ultimately show ?thesis using c a w unfolding good_combination_def by blast
qed

text \<open>
  C21. Every accepted query is well formed. Its expressions are at most 128 levels deep; every field it
  names is a valid path, and one of the fixed fields in \<^verbatim>\<open>LOGS\<close> mode; record clauses appear only
  outside \<^verbatim>\<open>METRIC\<close> mode and metric clauses only in it; a metric cross filter compares a number with an
  ordering operator; durations are at least a second and absolute times have their shape; \<^verbatim>\<open>INDEX\<close>
  stands alone; a stream has no end, no group and no sorted \<^verbatim>\<open>DISTINCT\<close>; cross filters and windows
  have a start.
\<close>

theorem parse_well_formed:
  assumes "parse str = Ok q"
  shows "good_fields q \<and> good_mode q \<and> good_combination q"
proof -
  from assms obtain tokens s p1 p2 where "clause_loop p1 (empty_query s) False = Ok (q, p2)"
    "validate_combinations q = Ok ()"
    by (auto simp: parse_def parser_parse_def rbind_Ok_iff)
  moreover have "good_fields (empty_query s)" "good_mode (empty_query s)"
    by (simp_all add: good_fields_def good_mode_def empty_query_def)
  ultimately show ?thesis using clause_loop_good validate_good by blast
qed

text \<open>Unfolding for the evaluation of the parser on a concrete token list.\<close>

lemmas parser_eval = parser_parse_def parser_new_def parse_source_def parser_word_def parser_next_def current_def
  advance_def to_ascii_uppercase_def is_ascii_lowercase_def is_ascii_uppercase_def take_primary_identifier_def
  is_clause_def clause_loop.simps empty_query_def clause_def ensure_absent_def eq_ignore_ascii_case_def
  to_ascii_lowercase_def peek_keyword_def consume_keyword_def consume_symbol_def expect_keyword_def
  expect_symbol_def parser_field_def parser_identifier_def parser_expression_def or_expression.simps
  or_loop.simps and_expression.simps and_loop.simps predicate_atom.simps simple_predicate_def leaf_def
  valid_identifier_def valid_identifier_segment_def is_ascii_alphabetic_def parser_count_def starts_with_def
  is_ascii_digit_def parse_u64_def strip_plus_def decimal_nat_def digit_value_def validate_combinations_def
  validate_fixed_fields_def is_window_def

lemmas tokenizer_eval = tokenize_def tokenize_loop.simps word_end.simps is_ascii_whitespace_def word_stop_def
  str_slice_def is_char_boundary_def continuation_def byte_of_def word_order

definition sample_query :: string where
  "sample_query = ''EVENTS WHERE a IS NULL TAKE 5''"

lemma sample_tokens:
  "tokenize sample_query = Ok [TWord ''EVENTS'', TWord ''WHERE'', TWord ''a'', TWord ''IS'', TWord ''NULL'', TWord ''TAKE'', TWord ''5'']"
  unfolding sample_query_def by (simp add: tokenizer_eval Let_def)

lemma sample_parses: "parse sample_query =
    Ok ((empty_query (Events None))\<lparr>q_predicates := [IsNull ''a'' False], q_take := Some 5\<rparr>)"
  unfolding parse_def sample_tokens by (simp add: parser_eval Let_def)

theorem parse_well_formed_witness:
  "parse sample_query = Ok ((empty_query (Events None))\<lparr>q_predicates := [IsNull ''a'' False], q_take := Some 5\<rparr>) \<and>
   good_fields ((empty_query (Events None))\<lparr>q_predicates := [IsNull ''a'' False], q_take := Some 5\<rparr>)"
  using parse_well_formed [OF sample_parses] sample_parses by blast

end
