(* ===== verification/Query_Grammar.thy ===== *)
theory Query_Grammar
  imports Query_Language
begin

text \<open>
  The expression grammar of the query language, and that the recursive-descent parser accepts exactly
  the token lists it derives, with the tree the grammar assigns: AND binds tighter than OR, both
  associate to the left, and parentheses group.
\<close>

section \<open>The grammar\<close>

definition keyword :: "string \<Rightarrow> token \<Rightarrow> bool" where
  "keyword k t = (case t of TWord w \<Rightarrow> eq_ignore_ascii_case w k | _ \<Rightarrow> False)"

fun field_of :: "token \<Rightarrow> string option" where
  "field_of (TWord f) = (if valid_identifier f then Some f else None)"
| "field_of (TString f) = (if valid_identifier f then Some f else None)"
| "field_of _ = None"

fun literal_of :: "token \<Rightarrow> literal option" where
  "literal_of (TString s) = Some (LString s)"
| "literal_of (TBinary b) = Some (LBinary b)"
| "literal_of (TWord w) =
     (if eq_ignore_ascii_case w ''true'' then Some (LBool True)
      else if eq_ignore_ascii_case w ''false'' then Some (LBool False)
      else if eq_ignore_ascii_case w ''NULL'' then None
      else case parse_number w of Ok l \<Rightarrow> Some l | Err _ \<Rightarrow> Some (LString w))"
| "literal_of (TSymbol _) = None"

fun operator_of :: "token \<Rightarrow> operator option" where
  "operator_of (TSymbol s) =
     (case s of EqualEqual \<Rightarrow> Some OpEqual | NotEqual \<Rightarrow> Some OpNotEqual | GreaterEqual \<Rightarrow> Some OpGreaterEqual
      | GreaterSign \<Rightarrow> Some OpGreater | LessEqual \<Rightarrow> Some OpLessEqual | LessSign \<Rightarrow> Some OpLess | _ \<Rightarrow> None)"
| "operator_of (TWord w) =
     (if eq_ignore_ascii_case w ''STARTS_WITH'' then Some OpStartsWith
      else if eq_ignore_ascii_case w ''ENDS_WITH'' then Some OpEndsWith
      else if eq_ignore_ascii_case w ''CONTAINS'' then Some OpContains
      else if eq_ignore_ascii_case w ''HAS'' then Some OpHas
      else None)"
| "operator_of _ = None"

text \<open>The values of an \<^verbatim>\<open>IN\<close> list after its opening parenthesis: at least one, closed by \<^verbatim>\<open>)\<close>.\<close>

inductive values_form :: "literal list \<Rightarrow> token list \<Rightarrow> bool" where
  values_last: "literal_of t = Some l \<Longrightarrow> values_form [l] [t, TSymbol RightParen]"
| values_more: "literal_of t = Some l \<Longrightarrow> values_form ls ts \<Longrightarrow> values_form (l # ls) (t # TSymbol Comma # ts)"

inductive predicate_form :: "expr \<Rightarrow> token list \<Rightarrow> bool" where
  form_null: "field_of t = Some f \<Longrightarrow> keyword ''IS'' i \<Longrightarrow> keyword ''NULL'' n \<Longrightarrow> \<not> keyword ''NOT'' n \<Longrightarrow>
    predicate_form (IsNull f False) [t, i, n]"
| form_not_null: "field_of t = Some f \<Longrightarrow> keyword ''IS'' i \<Longrightarrow> keyword ''NOT'' m \<Longrightarrow> keyword ''NULL'' n \<Longrightarrow>
    predicate_form (IsNull f True) [t, i, m, n]"
| form_in: "field_of t = Some f \<Longrightarrow> \<not> keyword ''IS'' i \<Longrightarrow> keyword ''IN'' i \<or> keyword ''NOT_IN'' i \<Longrightarrow> values_form vs ts \<Longrightarrow>
    predicate_form (In f (keyword ''NOT_IN'' i) vs) (t # i # TSymbol LeftParen # ts)"
| form_compare: "field_of t = Some f \<Longrightarrow> \<not> keyword ''IS'' c \<Longrightarrow> \<not> keyword ''IN'' c \<Longrightarrow> \<not> keyword ''NOT_IN'' c \<Longrightarrow>
    operator_of c = Some op \<Longrightarrow> literal_of v = Some l \<Longrightarrow>
    \<not> (is_binary_literal l \<and> op \<in> {OpGreater, OpGreaterEqual, OpLess, OpLessEqual}) \<Longrightarrow>
    predicate_form (Compare f op l) [t, c, v]"

text \<open>The first argument bounds the nesting of parentheses.\<close>

inductive or_form :: "nat \<Rightarrow> expr \<Rightarrow> token list \<Rightarrow> bool"
  and and_form :: "nat \<Rightarrow> expr \<Rightarrow> token list \<Rightarrow> bool"
  and atom_form :: "nat \<Rightarrow> expr \<Rightarrow> token list \<Rightarrow> bool"
where
  or_one: "and_form d e ts \<Longrightarrow> or_form d e ts"
| or_more: "or_form d l ts \<Longrightarrow> keyword ''OR'' t \<Longrightarrow> and_form d r us \<Longrightarrow> or_form d (Or l r) (ts @ t # us)"
| and_one: "atom_form d e ts \<Longrightarrow> and_form d e ts"
| and_more: "and_form d l ts \<Longrightarrow> keyword ''AND'' t \<Longrightarrow> atom_form d r us \<Longrightarrow> and_form d (And l r) (ts @ t # us)"
| atom_predicate: "predicate_form e ts \<Longrightarrow> atom_form d e ts"
| atom_paren: "or_form d e ts \<Longrightarrow> atom_form (Suc d) e (TSymbol LeftParen # ts @ [TSymbol RightParen])"

section \<open>The parser's input\<close>

definition input :: "parser \<Rightarrow> token list" where
  "input p = drop (p_cursor p) (p_tokens p)"

definition adv :: "parser \<Rightarrow> nat \<Rightarrow> parser" where
  "adv p n = p\<lparr>p_cursor := p_cursor p + n\<rparr>"

lemma adv_0 [simp]: "adv p 0 = p"
  by (simp add: adv_def)

lemma parser_adv_adv [simp]: "adv (adv p m) n = adv p (m + n)"
  by (simp add: adv_def add.assoc)

lemma advance_adv [simp]: "advance p = adv p 1"
  by (simp add: advance_def adv_def)

lemma parenthesis_depth_adv [simp]: "parenthesis_depth (adv p n) = parenthesis_depth p"
  by (simp add: adv_def)

lemma input_adv [simp]: "input (adv p n) = drop n (input p)"
  by (simp add: input_def adv_def add.commute)

lemma input_deeper [simp]: "input (deeper p) = input p" "input (shallower p) = input p"
  by (simp_all add: input_def deeper_def shallower_def)

lemma parenthesis_depth_deeper [simp]: "parenthesis_depth (deeper p) = Suc (parenthesis_depth p)"
  by (simp add: deeper_def)

lemma shallower_deeper [simp]: "shallower (adv (deeper p) n) = adv p n"
  by (simp add: shallower_def adv_def deeper_def)

lemma current_input: "current p = (case input p of [] \<Rightarrow> None | t # _ \<Rightarrow> Some t)"
  by (auto simp: current_def input_def Cons_nth_drop_Suc [symmetric] split: list.splits)

lemma current_Cons [simp]: "input p = t # ts \<Longrightarrow> current p = Some t"
  by (simp add: current_input)

lemma current_Nil [simp]: "input p = [] \<Longrightarrow> current p = None"
  by (simp add: current_input)

lemma current_SomeD: "current p = Some t \<Longrightarrow> \<exists>ts. input p = t # ts"
  by (auto simp: current_input split: list.splits)

lemma peek_keyword_input: "peek_keyword p k \<longleftrightarrow> (\<exists>t. current p = Some t \<and> keyword k t)"
  by (auto simp: peek_keyword_def keyword_def split: option.splits token.splits)

lemma peek_Cons [simp]: "input p = t # ts \<Longrightarrow> peek_keyword p k \<longleftrightarrow> keyword k t"
  by (simp add: peek_keyword_input)

section \<open>Predicates\<close>

lemma parser_field_of: "parser_field p = Ok (f, p') \<longleftrightarrow> (\<exists>t. current p = Some t \<and> field_of t = Some f \<and> p' = adv p 1)"
  by (auto simp: parser_field_def parser_identifier_def parser_next_def rbind_Ok_iff
      split: option.splits token.splits if_splits)

lemma parser_literal_of: "parser_literal p = Ok (l, p') \<longleftrightarrow> (\<exists>t. current p = Some t \<and> literal_of t = Some l \<and> p' = adv p 1)"
  by (auto simp: parser_literal_def parser_next_def split: option.splits token.splits if_splits sum.splits)

lemma comparison_operator_of:
  "comparison_operator p False = Ok (op, p') \<longleftrightarrow> (\<exists>t. current p = Some t \<and> operator_of t = Some op \<and> p' = adv p 1)"
  by (cases "current p"; cases "the (current p)")
    (auto simp: comparison_operator_def peek_keyword_input keyword_def Let_def split: if_splits symbol.splits)

lemma expect_symbol_of: "expect_symbol p s = Ok (u, p') \<longleftrightarrow> current p = Some (TSymbol s) \<and> p' = adv p 1"
  by (auto simp: expect_symbol_def consume_symbol_def)

lemma expect_keyword_of: "expect_keyword p k = Ok (u, p') \<longleftrightarrow> peek_keyword p k \<and> p' = adv p 1"
  by (auto simp: expect_keyword_def consume_keyword_def)

lemma in_values_sound:
  "in_values p acc = Ok (vs, p') \<Longrightarrow>
     \<exists>ls ts rest. values_form ls ts \<and> vs = acc @ ls \<and> input p = ts @ rest \<and> p' = adv p (length ts)"
proof (induction p acc rule: in_values.induct)
  case (1 p acc)
  from "1.prems" obtain l p1 where l: "parser_literal p = Ok (l, p1)"
    and r: "(if current p1 = Some (TSymbol RightParen) then Ok (acc @ [l], advance p1)
      else rbind (expect_symbol p1 Comma) (\<lambda>(_, p3). in_values p3 (acc @ [l]))) = Ok (vs, p')"
    unfolding in_values.simps [of p acc] consume_if by (auto simp: rbind_Ok_iff)
  obtain t ts1 where t: "literal_of t = Some l" "input p = t # ts1" "p1 = adv p 1"
    using l by (auto simp: parser_literal_of dest: current_SomeD)
  show ?case
  proof (cases "current p1 = Some (TSymbol RightParen)")
    case True
    with t obtain rest where "ts1 = TSymbol RightParen # rest" by (auto dest: current_SomeD)
    with True r t values_last [OF t(1)] show ?thesis
      by (intro exI [of _ "[l]"] exI [of _ "[t, TSymbol RightParen]"] exI [of _ rest]) simp
  next
    case False
    with r obtain u p3 where c: "expect_symbol p1 Comma = Ok (u, p3)" "in_values p3 (acc @ [l]) = Ok (vs, p')"
      by (auto simp: rbind_Ok_iff)
    have "consume_symbol p1 RightParen = (False, p1)" using False by (simp add: consume_symbol_def)
    from "1.IH" [OF l refl this [symmetric] _ c(1) refl c(2)] obtain ls ts rest where
      ls: "values_form ls ts" "vs = acc @ l # ls" "input p3 = ts @ rest" "p' = adv p3 (length ts)" by auto
    from c(1) have "current p1 = Some (TSymbol Comma)" and p3: "p3 = adv p1 1" by (auto simp: expect_symbol_of)
    with t obtain ts2 where "ts1 = TSymbol Comma # ts2" by (auto dest: current_SomeD)
    with ls t p3 values_more [OF t(1) ls(1)] show ?thesis
      by (intro exI [of _ "l # ls"] exI [of _ "t # TSymbol Comma # ts"] exI [of _ rest]) simp
  qed
qed

lemma in_values_complete:
  "values_form ls ts \<Longrightarrow> input p = ts @ rest \<Longrightarrow> in_values p acc = Ok (acc @ ls, adv p (length ts))"
proof (induction ls ts arbitrary: p acc rule: values_form.induct)
  case (values_last t l)
  then have "parser_literal p = Ok (l, adv p 1)" by (simp add: parser_literal_of)
  with values_last show ?case by (subst in_values.simps) (simp add: consume_symbol_def)
next
  case (values_more t l ls ts)
  then have "parser_literal p = Ok (l, adv p 1)" "expect_symbol (adv p 1) Comma = Ok ((), adv p 2)"
    "in_values (adv p 2) (acc @ [l]) = Ok (acc @ l # ls, adv p (2 + length ts))"
    by (simp_all add: parser_literal_of expect_symbol_of eval_nat_numeral)
  with values_more.prems show ?case by (subst in_values.simps) (simp add: consume_symbol_def eval_nat_numeral)
qed

lemma simple_predicate_sound:
  assumes "simple_predicate p False = Ok (e, p')"
  shows "\<exists>ts rest. predicate_form e ts \<and> input p = ts @ rest \<and> p' = adv p (length ts)"
proof -
  obtain f p1 where f: "parser_field p = Ok (f, p1)" using assms by (auto simp: simple_predicate_def rbind_Ok_iff)
  then obtain t ts1 where t: "field_of t = Some f" "input p = t # ts1" and p1: "p1 = adv p 1"
    by (auto simp: parser_field_of dest: current_SomeD)
  then have i1: "input p1 = ts1" by simp
  consider (nul) "peek_keyword p1 ''IS''" | (mem) "\<not> peek_keyword p1 ''IS''" "peek_keyword p1 ''IN'' \<or> peek_keyword p1 ''NOT_IN''"
    | (cmp) "\<not> peek_keyword p1 ''IS''" "\<not> (peek_keyword p1 ''IN'' \<or> peek_keyword p1 ''NOT_IN'')" by blast
  then show ?thesis
  proof cases
    case nul
    then obtain i ts2 where i: "keyword ''IS'' i" "ts1 = i # ts2"
      using i1 by (auto simp: peek_keyword_input dest!: current_SomeD)
    obtain m p3 where m: "consume_keyword (adv p1 1) ''NOT'' = (m, p3)" by fastforce
    with assms f nul have n: "peek_keyword p3 ''NULL''" "e = IsNull f m" "p' = adv p3 1"
      unfolding simple_predicate_def consume_if by (auto simp: expect_keyword_of rbind_Ok_iff)
    then obtain k ts3 where k: "keyword ''NULL'' k" "input p3 = k # ts3"
      by (auto simp: peek_keyword_input dest: current_SomeD)
    show ?thesis
    proof (cases m)
      case True
      with m have p3: "p3 = adv p1 2" and "peek_keyword (adv p1 1) ''NOT''"
        by (auto simp: consume_keyword_def eval_nat_numeral split: if_splits)
      then obtain q where q: "keyword ''NOT'' q" "ts2 = q # k # ts3"
        using k(2) i1 i(2) by (cases ts2) (auto simp: peek_keyword_input)
      with form_not_null [OF t(1) i(1) q(1) k(1)] True t i n p3 p1 show ?thesis
        by (intro exI [of _ "[t, i, q, k]"] exI [of _ ts3]) simp
    next
      case False
      with m have p3: "p3 = adv p1 1" and "\<not> peek_keyword p3 ''NOT''"
        by (auto simp: consume_keyword_def split: if_splits)
      then have "\<not> keyword ''NOT'' k" "ts2 = k # ts3" using k(2) i1 i(2) by auto
      with form_null [OF t(1) i(1) k(1)] False t i n p3 p1 show ?thesis
        by (intro exI [of _ "[t, i, k]"] exI [of _ ts3]) simp
    qed
  next
    case mem
    then obtain i ts2 where i: "keyword ''IN'' i \<or> keyword ''NOT_IN'' i" "\<not> keyword ''IS'' i" "ts1 = i # ts2"
      using i1 by (auto simp: peek_keyword_input dest!: current_SomeD)
    with assms f mem i1 obtain vs where v: "current (adv p1 1) = Some (TSymbol LeftParen)"
      "in_values (adv p1 2) [] = Ok (vs, p')" "e = In f (keyword ''NOT_IN'' i) vs"
      unfolding simple_predicate_def consume_if
      by (auto simp: rbind_Ok_iff expect_symbol_of Let_def eval_nat_numeral split: if_splits)
    from in_values_sound [OF v(2)] obtain ts rest where ts: "values_form vs ts" "input (adv p1 2) = ts @ rest"
      "p' = adv (adv p1 2) (length ts)" by auto
    have "ts2 = TSymbol LeftParen # ts @ rest"
      using current_SomeD [OF v(1)] ts(2) i1 i(3) by (auto simp: eval_nat_numeral)
    with form_in [OF t(1) i(2,1) ts(1)] v t i(3) ts p1 show ?thesis
      by (intro exI [of _ "t # i # TSymbol LeftParen # ts"] exI [of _ rest]) simp
  next
    case cmp
    with assms f obtain op p2 l where o: "comparison_operator p1 False = Ok (op, p2)" "parser_literal p2 = Ok (l, p')"
      "e = Compare f op l" "\<not> (is_binary_literal l \<and> op \<in> {OpGreater, OpGreaterEqual, OpLess, OpLessEqual})"
      unfolding simple_predicate_def consume_if by (auto simp: rbind_Ok_iff split: if_splits)
    then obtain c v ts2 ts3 where c: "operator_of c = Some op" "input p1 = c # ts2" "p2 = adv p1 1"
      "literal_of v = Some l" "input p2 = v # ts3" "p' = adv p2 1"
      by (auto simp: comparison_operator_of parser_literal_of dest!: current_SomeD)
    with cmp have "\<not> keyword ''IS'' c" "\<not> keyword ''IN'' c" "\<not> keyword ''NOT_IN'' c" by auto
    from form_compare [OF t(1) this c(1,4) o(4)] t c o(3) p1 i1 show ?thesis
      by (intro exI [of _ "[t, c, v]"] exI [of _ ts3]) auto
  qed
qed

lemma simple_predicate_complete:
  assumes "predicate_form e ts" and "input p = ts @ rest"
  shows "simple_predicate p False = Ok (e, adv p (length ts))"
  using assms
proof cases
  case (form_null t f i n)
  with assms(2) have "parser_field p = Ok (f, adv p 1)" "consume_keyword (adv p 2) ''NOT'' = (False, adv p 2)"
    "expect_keyword (adv p 2) ''NULL'' = Ok ((), adv p 3)"
    by (simp_all add: parser_field_of expect_keyword_of consume_keyword_def eval_nat_numeral)
  with form_null assms(2) show ?thesis unfolding simple_predicate_def consume_if by (simp add: eval_nat_numeral)
next
  case (form_not_null t f i m n)
  with assms(2) have "parser_field p = Ok (f, adv p 1)" "consume_keyword (adv p 2) ''NOT'' = (True, adv p 3)"
    "expect_keyword (adv p 3) ''NULL'' = Ok ((), adv p 4)"
    by (simp_all add: parser_field_of expect_keyword_of consume_keyword_def eval_nat_numeral)
  with form_not_null assms(2) show ?thesis unfolding simple_predicate_def consume_if by (simp add: eval_nat_numeral)
next
  case (form_in t f i vs us)
  with assms(2) have "parser_field p = Ok (f, adv p 1)" "expect_symbol (adv p 2) LeftParen = Ok ((), adv p 3)"
    "in_values (adv p 3) [] = Ok (vs, adv p (3 + length us))"
    by (simp_all add: parser_field_of expect_symbol_of in_values_complete eval_nat_numeral)
  with form_in assms(2) show ?thesis
    unfolding simple_predicate_def consume_if by (simp add: Let_def eval_nat_numeral)
next
  case (form_compare t f c op v l)
  with assms(2) have "parser_field p = Ok (f, adv p 1)" "comparison_operator (adv p 1) False = Ok (op, adv p 2)"
    "parser_literal (adv p 2) = Ok (l, adv p 3)"
    by (simp_all add: parser_field_of comparison_operator_of parser_literal_of eval_nat_numeral)
  with form_compare assms(2) show ?thesis
    unfolding simple_predicate_def consume_if by (simp add: eval_nat_numeral)
qed

section \<open>Expressions\<close>

definition with_depth :: "expr \<Rightarrow> parsed_expr" where
  "with_depth e = \<lparr>pe_value = e, pe_depth = expr_depth e\<rparr>"

lemma predicate_form_depth: "predicate_form e ts \<Longrightarrow> expr_depth e = 1"
  by (induction rule: predicate_form.induct) simp_all

lemma join_with_depth:
  "f = And \<or> f = Or \<Longrightarrow> join (with_depth l) (with_depth r) f =
     (if expr_depth (f l r) \<le> MAX_EXPRESSION_DEPTH then Ok (with_depth (f l r)) else Err expression_depth_error)"
  by (auto simp: join_def with_depth_def Let_def)

text \<open>Soundness: what the parser takes from its input is a writing of the expression it returns.\<close>

definition takes :: "(nat \<Rightarrow> expr \<Rightarrow> token list \<Rightarrow> bool) \<Rightarrow> parser \<Rightarrow> parsed_expr \<Rightarrow> parser \<Rightarrow> bool" where
  "takes form p r p' \<longleftrightarrow> (\<exists>e ts rest. r = with_depth e \<and> form (MAX_EXPRESSION_DEPTH - parenthesis_depth p) e ts \<and>
     input p = ts @ rest \<and> p' = adv p (length ts))"

definition continues :: "(nat \<Rightarrow> expr \<Rightarrow> token list \<Rightarrow> bool) \<Rightarrow> parser \<Rightarrow> parsed_expr \<Rightarrow> parsed_expr \<Rightarrow> parser \<Rightarrow> bool" where
  "continues form p e r p' \<longleftrightarrow> (\<forall>l ts. e = with_depth l \<longrightarrow> form (MAX_EXPRESSION_DEPTH - parenthesis_depth p) l ts \<longrightarrow>
     (\<exists>v us rest. r = with_depth v \<and> form (MAX_EXPRESSION_DEPTH - parenthesis_depth p) v (ts @ us) \<and>
       input p = us @ rest \<and> p' = adv p (length us)))"

lemma continues_refl: "continues form p e e p"
  unfolding continues_def
proof (intro allI impI)
  fix l ts assume "e = with_depth l" "form (MAX_EXPRESSION_DEPTH - parenthesis_depth p) l ts"
  then show "\<exists>v us rest. e = with_depth v \<and> form (MAX_EXPRESSION_DEPTH - parenthesis_depth p) v (ts @ us) \<and>
      input p = us @ rest \<and> p = adv p (length us)"
    by (intro exI [of _ l] exI [of _ "[]"] exI [of _ "input p"]) simp
qed

lemma continuesD:
  "continues form p (with_depth l) r p' \<Longrightarrow> form (MAX_EXPRESSION_DEPTH - parenthesis_depth p) l ts \<Longrightarrow>
     \<exists>v us rest. r = with_depth v \<and> form (MAX_EXPRESSION_DEPTH - parenthesis_depth p) v (ts @ us) \<and>
       input p = us @ rest \<and> p' = adv p (length us)"
  unfolding continues_def by blast

lemma expression_sound:
  "or_expression p = Ok (r, p') \<Longrightarrow> parenthesis_depth p \<le> MAX_EXPRESSION_DEPTH \<Longrightarrow> takes or_form p r p'"
  "or_loop p e = Ok (r, p') \<Longrightarrow> parenthesis_depth p \<le> MAX_EXPRESSION_DEPTH \<Longrightarrow> continues or_form p e r p'"
  "and_expression p = Ok (r, p') \<Longrightarrow> parenthesis_depth p \<le> MAX_EXPRESSION_DEPTH \<Longrightarrow> takes and_form p r p'"
  "and_loop p e = Ok (r, p') \<Longrightarrow> parenthesis_depth p \<le> MAX_EXPRESSION_DEPTH \<Longrightarrow> continues and_form p e r p'"
  "predicate_atom p = Ok (r, p') \<Longrightarrow> parenthesis_depth p \<le> MAX_EXPRESSION_DEPTH \<Longrightarrow> takes atom_form p r p'"
proof (induction p and p e and p and p e and p arbitrary: r p' and r p' and r p' and r p' and r p'
    rule: or_expression_or_loop_and_expression_and_loop_predicate_atom.induct)
  case (1 p)
  from "1.prems" obtain x p1 where x: "and_expression p = Ok (x, p1)" "or_loop p1 x = Ok (r, p')"
    unfolding or_expression.simps [of p] by (auto simp: rbind_Ok_iff)
  from "1.IH"(1) [OF x(1) "1.prems"(2)] obtain e ts rest where e: "x = with_depth e"
    "and_form (MAX_EXPRESSION_DEPTH - parenthesis_depth p) e ts" "input p = ts @ rest" "p1 = adv p (length ts)"
    by (auto simp: takes_def)
  with "1.IH"(2) [OF x(1) refl x(2)] "1.prems"(2) have "continues or_form p1 (with_depth e) r p'" by simp
  from continuesD [OF this, of ts] or_one [OF e(2)] e(3,4) obtain v us rest' where
    "r = with_depth v" "or_form (MAX_EXPRESSION_DEPTH - parenthesis_depth p) v (ts @ us)" "rest = us @ rest'"
    "p' = adv p1 (length us)" by auto
  with e show ?case unfolding takes_def by (intro exI [of _ v] exI [of _ "ts @ us"] exI [of _ rest']) simp
next
  case (2 p e)
  show ?case
  proof (cases "peek_keyword p ''OR''")
    case True
    with "2.prems"(1) obtain x p1 y where x: "and_expression (advance p) = Ok (x, p1)" "join e x Or = Ok y"
      "or_loop p1 y = Ok (r, p')" unfolding or_loop.simps [of p] consume_if by (auto simp: rbind_Ok_iff)
    have c: "(True, advance p) = consume_keyword p ''OR''" using True by (simp only: consume_pair)
    obtain t tl where t: "keyword ''OR'' t" "input p = t # tl" using True by (auto simp: peek_keyword_input dest!: current_SomeD)
    let ?d = "MAX_EXPRESSION_DEPTH - parenthesis_depth p"
    from "2.IH"(1) [OF c refl x(1)] "2.prems"(2) obtain v us rest where v: "x = with_depth v" "and_form ?d v us"
      "tl = us @ rest" "p1 = adv (advance p) (length us)" using t(2) by (auto simp: takes_def)
    show ?thesis unfolding continues_def
    proof (intro allI impI)
      fix l ts assume l: "e = with_depth l" "or_form ?d l ts"
      have y: "y = with_depth (Or l v)" using x(2) v(1) l(1) by (simp add: join_with_depth split: if_splits)
      from "2.IH"(2) [OF c refl x(1) refl x(2) x(3)] "2.prems"(2) v(4) y
      have "continues or_form p1 (with_depth (Or l v)) r p'" by simp
      from continuesD [OF this, of "ts @ t # us"] or_more [OF l(2) t(1) v(2)] v(4)
      obtain w us' rest' where w: "r = with_depth w" "or_form ?d w ((ts @ t # us) @ us')" "input p1 = us' @ rest'"
        "p' = adv p1 (length us')" by auto
      with t v show "\<exists>v us rest. r = with_depth v \<and> or_form ?d v (ts @ us) \<and> input p = us @ rest \<and> p' = adv p (length us)"
        by (intro exI [of _ w] exI [of _ "t # us @ us'"] exI [of _ rest']) simp
    qed
  next
    case False
    with "2.prems" show ?thesis
      unfolding or_loop.simps [of p] consume_if by (auto intro: continues_refl)
  qed
next
  case (3 p)
  from "3.prems" obtain x p1 where x: "predicate_atom p = Ok (x, p1)" "and_loop p1 x = Ok (r, p')"
    unfolding and_expression.simps [of p] by (auto simp: rbind_Ok_iff)
  from "3.IH"(1) [OF x(1) "3.prems"(2)] obtain e ts rest where e: "x = with_depth e"
    "atom_form (MAX_EXPRESSION_DEPTH - parenthesis_depth p) e ts" "input p = ts @ rest" "p1 = adv p (length ts)"
    by (auto simp: takes_def)
  with "3.IH"(2) [OF x(1) refl x(2)] "3.prems"(2) have "continues and_form p1 (with_depth e) r p'" by simp
  from continuesD [OF this, of ts] and_one [OF e(2)] e(3,4) obtain v us rest' where
    "r = with_depth v" "and_form (MAX_EXPRESSION_DEPTH - parenthesis_depth p) v (ts @ us)" "rest = us @ rest'"
    "p' = adv p1 (length us)" by auto
  with e show ?case unfolding takes_def by (intro exI [of _ v] exI [of _ "ts @ us"] exI [of _ rest']) simp
next
  case (4 p e)
  show ?case
  proof (cases "peek_keyword p ''AND''")
    case True
    with "4.prems"(1) obtain x p1 y where x: "predicate_atom (advance p) = Ok (x, p1)" "join e x And = Ok y"
      "and_loop p1 y = Ok (r, p')" unfolding and_loop.simps [of p] consume_if by (auto simp: rbind_Ok_iff)
    have c: "(True, advance p) = consume_keyword p ''AND''" using True by (simp only: consume_pair)
    obtain t tl where t: "keyword ''AND'' t" "input p = t # tl" using True by (auto simp: peek_keyword_input dest!: current_SomeD)
    let ?d = "MAX_EXPRESSION_DEPTH - parenthesis_depth p"
    from "4.IH"(1) [OF c refl x(1)] "4.prems"(2) obtain v us rest where v: "x = with_depth v" "atom_form ?d v us"
      "tl = us @ rest" "p1 = adv (advance p) (length us)" using t(2) by (auto simp: takes_def)
    show ?thesis unfolding continues_def
    proof (intro allI impI)
      fix l ts assume l: "e = with_depth l" "and_form ?d l ts"
      have y: "y = with_depth (And l v)" using x(2) v(1) l(1) by (simp add: join_with_depth split: if_splits)
      from "4.IH"(2) [OF c refl x(1) refl x(2) x(3)] "4.prems"(2) v(4) y
      have "continues and_form p1 (with_depth (And l v)) r p'" by simp
      from continuesD [OF this, of "ts @ t # us"] and_more [OF l(2) t(1) v(2)] v(4)
      obtain w us' rest' where w: "r = with_depth w" "and_form ?d w ((ts @ t # us) @ us')" "input p1 = us' @ rest'"
        "p' = adv p1 (length us')" by auto
      with t v show "\<exists>v us rest. r = with_depth v \<and> and_form ?d v (ts @ us) \<and> input p = us @ rest \<and> p' = adv p (length us)"
        by (intro exI [of _ w] exI [of _ "t # us @ us'"] exI [of _ rest']) simp
    qed
  next
    case False
    with "4.prems" show ?thesis
      unfolding and_loop.simps [of p] consume_if by (auto intro: continues_refl)
  qed
next
  case (5 p)
  show ?case
  proof (cases "current p = Some (TSymbol LeftParen)")
    case True
    then obtain tl where tl: "input p = TSymbol LeftParen # tl" by (auto dest!: current_SomeD)
    from True "5.prems"(1) obtain p1 where x: "parenthesis_depth (advance p) \<noteq> MAX_EXPRESSION_DEPTH"
      "or_expression (deeper (advance p)) = Ok (r, p1)" and cl: "current (shallower p1) = Some (TSymbol RightParen)"
      and p': "p' = adv (shallower p1) 1"
      unfolding predicate_atom.simps [of p] consume_if by (auto simp: rbind_Ok_iff expect_symbol_of split: if_splits)
    let ?d = "MAX_EXPRESSION_DEPTH - parenthesis_depth (deeper (advance p))"
    have c: "(True, advance p) = consume_symbol p LeftParen" using True by (simp only: consume_pair)
    from "5.IH" [OF c refl x] x(1) "5.prems"(2) obtain e ts rest where e: "r = with_depth e" "or_form ?d e ts"
      "tl = ts @ rest" "p1 = adv (deeper (advance p)) (length ts)"
      using tl by (auto simp: takes_def)
    then have sh: "shallower p1 = adv p (1 + length ts)" by simp
    with cl tl e(3) obtain rest' where rest: "rest = TSymbol RightParen # rest'" by (auto dest!: current_SomeD)
    have d: "MAX_EXPRESSION_DEPTH - parenthesis_depth p = Suc ?d" using x(1) "5.prems"(2) by simp
    have "atom_form (MAX_EXPRESSION_DEPTH - parenthesis_depth p) e (TSymbol LeftParen # ts @ [TSymbol RightParen])"
      unfolding d by (rule atom_paren) (rule e(2))
    with e tl rest p' sh show ?thesis unfolding takes_def
      by (intro exI [of _ e] exI [of _ "TSymbol LeftParen # ts @ [TSymbol RightParen]"] exI [of _ rest']) simp
  next
    case False
    with "5.prems"(1) obtain e where e: "simple_predicate p False = Ok (e, p')" "r = leaf e"
      unfolding predicate_atom.simps [of p] consume_if by (auto simp: rbind_Ok_iff)
    from simple_predicate_sound [OF e(1)] obtain ts rest where "predicate_form e ts" "input p = ts @ rest" "p' = adv p (length ts)"
      by blast
    with e(2) predicate_form_depth [of e ts] show ?thesis unfolding takes_def
      by (intro exI [of _ e] exI [of _ ts] exI [of _ rest]) (simp add: atom_predicate leaf_def with_depth_def)
  qed
qed

text \<open>Completeness: the parser reads every writing of an expression back.\<close>

definition starts_with_keyword :: "string \<Rightarrow> token list \<Rightarrow> bool" where
  "starts_with_keyword k ts = (case ts of [] \<Rightarrow> False | t # _ \<Rightarrow> keyword k t)"

lemma peek_starts: "peek_keyword p k \<longleftrightarrow> starts_with_keyword k (input p)"
  by (auto simp: peek_keyword_input starts_with_keyword_def current_input split: list.splits)

lemma loop_stops:
  "\<not> starts_with_keyword ''OR'' (input p) \<Longrightarrow> or_loop p e = Ok (e, p)"
  "\<not> starts_with_keyword ''AND'' (input p) \<Longrightarrow> and_loop p e = Ok (e, p)"
  by (simp_all add: or_loop.simps [of p] and_loop.simps [of p] consume_keyword_def peek_starts)

lemma or_keyword_not_and: "keyword ''OR'' t \<Longrightarrow> \<not> keyword ''AND'' t"
  by (auto simp: keyword_def eq_ignore_ascii_case_def split: token.splits)

lemma predicate_form_first: "predicate_form e ts \<Longrightarrow> input p = ts @ rest \<Longrightarrow> current p \<noteq> Some (TSymbol LeftParen)"
  by (induction rule: predicate_form.induct) auto

lemma expression_complete:
  "or_form d e ts \<Longrightarrow> input p = ts @ rest \<Longrightarrow> parenthesis_depth p + d \<le> MAX_EXPRESSION_DEPTH \<Longrightarrow>
     expr_depth e \<le> MAX_EXPRESSION_DEPTH \<Longrightarrow> \<not> starts_with_keyword ''AND'' rest \<Longrightarrow>
     or_expression p = or_loop (adv p (length ts)) (with_depth e)"
  "and_form d e ts \<Longrightarrow> input p = ts @ rest \<Longrightarrow> parenthesis_depth p + d \<le> MAX_EXPRESSION_DEPTH \<Longrightarrow>
     expr_depth e \<le> MAX_EXPRESSION_DEPTH \<Longrightarrow> and_expression p = and_loop (adv p (length ts)) (with_depth e)"
  "atom_form d e ts \<Longrightarrow> input p = ts @ rest \<Longrightarrow> parenthesis_depth p + d \<le> MAX_EXPRESSION_DEPTH \<Longrightarrow>
     expr_depth e \<le> MAX_EXPRESSION_DEPTH \<Longrightarrow> predicate_atom p = Ok (with_depth e, adv p (length ts))"
proof (induction d e ts and d e ts and d e ts arbitrary: p rest and p rest and p rest
    rule: or_form_and_form_atom_form.inducts)
  case (or_one d e ts)
  then show ?case
    by (simp add: or_expression.simps [of p] loop_stops)
next
  case (or_more d l ts t r us)
  let ?p1 = "adv p (length ts)" and ?p2 = "adv p (length ts + 1)" and ?p3 = "adv p (length ts + 1 + length us)"
  have "\<not> starts_with_keyword ''AND'' (t # us @ rest)"
    using or_keyword_not_and [OF or_more.hyps(2)] by (simp add: starts_with_keyword_def)
  with or_more.IH(1) [of p "t # us @ rest"] or_more.prems
  have "or_expression p = or_loop ?p1 (with_depth l)" by simp
  also have "\<dots> = rbind (and_expression ?p2) (\<lambda>(right, p2). rbind (join (with_depth l) right Or) (\<lambda>e. or_loop p2 e))"
    using or_more.hyps(2) or_more.prems(1) by (simp add: or_loop.simps [of ?p1] consume_keyword_def)
  also have "and_expression ?p2 = Ok (with_depth r, ?p3)"
    using or_more.IH(2) [of ?p2 rest] or_more.prems loop_stops(2) [of ?p3] by simp
  finally show ?case using or_more.prems(3) by (simp add: join_with_depth)
next
  case (and_one d e ts)
  then show ?case by (simp add: and_expression.simps [of p])
next
  case (and_more d l ts t r us)
  let ?p1 = "adv p (length ts)" and ?p2 = "adv p (length ts + 1)" and ?p3 = "adv p (length ts + 1 + length us)"
  from and_more.IH(1) [of p "t # us @ rest"] and_more.prems
  have "and_expression p = and_loop ?p1 (with_depth l)" by simp
  also have "\<dots> = rbind (predicate_atom ?p2) (\<lambda>(right, p2). rbind (join (with_depth l) right And) (\<lambda>e. and_loop p2 e))"
    using and_more.hyps(2) and_more.prems(1) by (simp add: and_loop.simps [of ?p1] consume_keyword_def)
  also have "predicate_atom ?p2 = Ok (with_depth r, ?p3)"
    using and_more.IH(2) [of ?p2 rest] and_more.prems by simp
  finally show ?case using and_more.prems(3) by (simp add: join_with_depth)
next
  case (atom_predicate e ts d)
  from simple_predicate_complete [OF atom_predicate.hyps atom_predicate.prems(1)]
    predicate_form_first [OF atom_predicate.hyps atom_predicate.prems(1)] predicate_form_depth [OF atom_predicate.hyps]
  show ?case by (simp add: predicate_atom.simps [of p] consume_symbol_def leaf_def with_depth_def)
next
  case (atom_paren d e ts)
  let ?q = "deeper (adv p 1)"
  have in_q: "input ?q = ts @ TSymbol RightParen # rest" using atom_paren.prems(1) by simp
  have "\<not> starts_with_keyword k (TSymbol RightParen # rest)" for k by (simp add: starts_with_keyword_def keyword_def)
  with atom_paren.IH [of ?q "TSymbol RightParen # rest", OF in_q] atom_paren.prems(2,3) in_q
  have "or_expression ?q = Ok (with_depth e, adv ?q (length ts))"
    by (simp add: loop_stops)
  moreover have "expect_symbol (adv p (Suc (length ts))) RightParen = Ok ((), adv p (Suc (Suc (length ts))))"
    using atom_paren.prems(1) by (simp add: expect_symbol_of)
  ultimately show ?case using atom_paren.prems(1,2)
    by (simp add: predicate_atom.simps [of p] consume_symbol_def)
qed

lemma whole_input: "takes or_form (parser_new ts) r p' \<Longrightarrow> p_cursor p' = length ts \<Longrightarrow>
    \<exists>e. r = with_depth e \<and> or_form MAX_EXPRESSION_DEPTH e ts"
  by (auto simp: takes_def parser_new_def input_def adv_def)

text \<open>
  C22. The parser implements the expression grammar exactly: it reads a whole token list as an
  expression if and only if the grammar derives that list from it with parentheses nested at most 128
  deep and the tree is at most 128 levels deep. AND binds tighter than OR and both associate to the
  left, whatever the letter case of the keywords.
\<close>

theorem expression_grammar:
  "(\<exists>p'. parser_expression (parser_new ts) = Ok (e, p') \<and> p_cursor p' = length ts) \<longleftrightarrow>
     or_form MAX_EXPRESSION_DEPTH e ts \<and> expr_depth e \<le> MAX_EXPRESSION_DEPTH"
proof
  assume "\<exists>p'. parser_expression (parser_new ts) = Ok (e, p') \<and> p_cursor p' = length ts"
  then obtain r p' where r: "or_expression (parser_new ts) = Ok (r, p')" "e = pe_value r" "p_cursor p' = length ts"
    by (auto simp: parser_expression_def rbind_Ok_iff)
  have "takes or_form (parser_new ts) r p'"
    by (rule expression_sound(1) [OF r(1)]) (simp add: parser_new_def)
  from whole_input [OF this r(3)] r(2) have "or_form MAX_EXPRESSION_DEPTH e ts" by (auto simp: with_depth_def)
  moreover have "expr_depth e \<le> MAX_EXPRESSION_DEPTH"
    using expression_good(1) [OF r(1)] r(2) by (simp add: good_parsed_def good_expr_def)
  ultimately show "or_form MAX_EXPRESSION_DEPTH e ts \<and> expr_depth e \<le> MAX_EXPRESSION_DEPTH" by simp
next
  let ?p = "parser_new ts"
  assume f: "or_form MAX_EXPRESSION_DEPTH e ts \<and> expr_depth e \<le> MAX_EXPRESSION_DEPTH"
  have i: "input ?p = ts @ []" by (simp add: parser_new_def input_def)
  have "or_expression ?p = or_loop (adv ?p (length ts)) (with_depth e)"
    using expression_complete(1) [OF conjunct1 [OF f] i] f by (simp add: parser_new_def starts_with_keyword_def)
  also have "\<dots> = Ok (with_depth e, adv ?p (length ts))"
    by (rule loop_stops) (simp add: starts_with_keyword_def i)
  finally show "\<exists>p'. parser_expression ?p = Ok (e, p') \<and> p_cursor p' = length ts"
    by (simp add: parser_expression_def with_depth_def adv_def parser_new_def)
qed

end
