(* ===== verification/Query_Text.thy ===== *)
theory Query_Text
  imports Query_Language
begin

text \<open>
  The client's writers of query text (\<^verbatim>\<open>eventd-client/src/text.rs\<close>): a value that came from a person
  becomes one literal, and the server's tokenizer reads exactly that literal back, whatever stands
  around it.
\<close>

section \<open>Characters\<close>

text \<open>\<^verbatim>\<open>str::chars\<close>: the scalar values of a text that is well-formed UTF-8.\<close>

fun chars :: "string \<Rightarrow> nat list" where
  "chars [] = []"
| "chars (c # cs) =
     (if code c < 0x80 then code c # chars cs
      else if code c < 0xe0 then
        (case cs of d # cs' \<Rightarrow> ((code c - 0xc0) * 64 + (code d - 0x80)) # chars cs' | _ \<Rightarrow> [])
      else if code c < 0xf0 then
        (case cs of d # e # cs' \<Rightarrow>
           ((code c - 0xe0) * 4096 + (code d - 0x80) * 64 + (code e - 0x80)) # chars cs' | _ \<Rightarrow> [])
      else
        (case cs of d # e # f # cs' \<Rightarrow>
           ((code c - 0xf0) * 262144 + (code d - 0x80) * 4096 + (code e - 0x80) * 64 + (code f - 0x80)) # chars cs'
         | _ \<Rightarrow> []))"

definition is_control :: "nat \<Rightarrow> bool" where
  "is_control c \<longleftrightarrow> c < 0x20 \<or> (0x7f \<le> c \<and> c \<le> 0x9f)"

section \<open>Writers\<close>

definition upper_hex :: "nat \<Rightarrow> char" where
  "upper_hex n = ''0123456789ABCDEF'' ! n"

text \<open>The format \<^verbatim>\<open>{:04X}\<close> of a number below 65536.\<close>

definition hex4 :: "nat \<Rightarrow> string" where
  "hex4 n = [upper_hex (n div 4096 mod 16), upper_hex (n div 256 mod 16), upper_hex (n div 16 mod 16), upper_hex (n mod 16)]"

definition escape_char :: "nat \<Rightarrow> string" where
  "escape_char c =
     (if c = 0x22 then [backslash, quote_char]
      else if c = 0x5c then [backslash, backslash]
      else if c = 0x0a then [backslash, CHR ''n'']
      else if c = 0x0d then [backslash, CHR ''r'']
      else if c = 0x09 then [backslash, CHR ''t'']
      else if is_control c \<and> c \<le> 0xffff then backslash # CHR ''u'' # hex4 c
      else encode_utf8 c)"

definition text_string :: "string \<Rightarrow> string" where
  "text_string s = quote_char # concat (map escape_char (chars s)) @ [quote_char]"

definition text_binary :: "u8 list \<Rightarrow> string" where
  "text_binary bytes = CHR ''x'' # quote_char # concat (map hex2 bytes) @ [quote_char]"

definition is_identifier :: "string \<Rightarrow> bool" where
  "is_identifier s =
     (case s of
        [] \<Rightarrow> False
      | c # cs \<Rightarrow>
          (is_ascii_alphabetic c \<or> c = CHR ''_'') \<and>
          list_all (\<lambda>c. is_ascii_alphanumeric c \<or> c = CHR ''_'' \<or> c = CHR ''.'' \<or> c = CHR ''-'') cs)"

fun decimal_digits :: "nat \<Rightarrow> string" where
  "decimal_digits n = (if n < 10 then [char_of (48 + n)] else decimal_digits (n div 10) @ [char_of (48 + n mod 10)])"

declare decimal_digits.simps [simp del]

record duration =
  dur_secs :: u64
  dur_nanos :: u32

definition text_duration :: "duration \<Rightarrow> string option" where
  "text_duration d =
     (if (dur_secs d = 0 \<and> dur_nanos d = 0) \<or> dur_nanos d \<noteq> 0 then None
      else
        let seconds = unat (dur_secs d) in
        case find (\<lambda>(step, unit). step dvd seconds) [(86400, CHR ''d''), (3600, CHR ''h''), (60, CHR ''m'')] of
          Some (step, unit) \<Rightarrow> Some (decimal_digits (seconds div step) @ [unit])
        | None \<Rightarrow> Some (decimal_digits seconds @ [CHR ''s'']))"

section \<open>Characters and bytes\<close>

lemma code_char_of: "n < 256 \<Longrightarrow> code (char_of n) = n"
  by simp

lemma char_of_code: "char_of (code c) = c"
  by simp

lemma unat_byte_le: "byte_of c \<le> numeral n \<longleftrightarrow> code c \<le> unat (numeral n :: u8)"
  "numeral n \<le> byte_of c \<longleftrightarrow> unat (numeral n :: u8) \<le> code c"
  "byte_of c < numeral n \<longleftrightarrow> code c < unat (numeral n :: u8)"
  by (simp_all add: word_order unat_byte_of)

lemma continuation_code: "continuation (byte_of c) \<longleftrightarrow> 0x80 \<le> code c \<and> code c \<le> 0xbf"
  by (simp add: continuation_def unat_byte_le)

lemma pack64: "z < 64 \<Longrightarrow> (k * 64 + z) div 64 = k" "z < 64 \<Longrightarrow> (k * 64 + z) mod 64 = (z :: nat)"
  by simp_all

lemma div64: "n div 4096 = n div 64 div (64 :: nat)" "n div 262144 = n div 64 div 64 div (64 :: nat)"
  by (simp_all add: div_mult2_eq [symmetric])

lemma encode2:
  assumes "0xc2 \<le> c" "c \<le> 0xdf" "0x80 \<le> d" "d \<le> 0xbf"
  shows "encode_utf8 ((c - 0xc0) * 64 + (d - 0x80)) = [char_of c, char_of d]"
proof -
  define x y where "x = c - 0xc0" and "y = d - 0x80"
  then have v: "c = 0xc0 + x" "d = 0x80 + y" and b: "2 \<le> x" "x < 32" "y < 64" using assms by auto
  have "0x80 \<le> x * 64 + y" "x * 64 + y < 0x800" using b by simp_all
  then show ?thesis using v b by (simp add: encode_utf8_def pack64)
qed

lemma encode3:
  assumes "0xe0 \<le> c" "c \<le> 0xef" "0x80 \<le> d" "d \<le> 0xbf" "0x80 \<le> e" "e \<le> 0xbf" "c = 0xe0 \<longrightarrow> 0xa0 \<le> d"
  shows "encode_utf8 ((c - 0xe0) * 4096 + (d - 0x80) * 64 + (e - 0x80)) = [char_of c, char_of d, char_of e]"
proof -
  define x y z where "x = c - 0xe0" and "y = d - 0x80" and "z = e - 0x80"
  then have v: "c = 0xe0 + x" "d = 0x80 + y" "e = 0x80 + z" and b: "x < 16" "y < 64" "z < 64" "x = 0 \<longrightarrow> 32 \<le> y"
    using assms by auto
  define n where "n = (x * 64 + y) * 64 + z"
  have "0x800 \<le> n" "n < 0x10000" using b unfolding n_def by (cases "x = 0"; simp)+
  moreover have "n div 64 = x * 64 + y" "n mod 64 = z" unfolding n_def using b by (simp_all only: pack64)
  ultimately have "encode_utf8 n = [char_of c, char_of d, char_of e]"
    using v b by (simp add: encode_utf8_def div64 pack64)
  moreover have "(c - 0xe0) * 4096 + (d - 0x80) * 64 + (e - 0x80) = n" using v by (simp add: n_def)
  ultimately show ?thesis by simp
qed

lemma encode4:
  assumes "0xf0 \<le> c" "c \<le> 0xf4" "0x80 \<le> d" "d \<le> 0xbf" "0x80 \<le> e" "e \<le> 0xbf" "0x80 \<le> f" "f \<le> 0xbf"
    "c = 0xf0 \<longrightarrow> 0x90 \<le> d"
  shows "encode_utf8 ((c - 0xf0) * 262144 + (d - 0x80) * 4096 + (e - 0x80) * 64 + (f - 0x80)) =
    [char_of c, char_of d, char_of e, char_of f]"
proof -
  define x y z w where "x = c - 0xf0" and "y = d - 0x80" and "z = e - 0x80" and "w = f - 0x80"
  then have v: "c = 0xf0 + x" "d = 0x80 + y" "e = 0x80 + z" "f = 0x80 + w"
    and b: "x < 5" "y < 64" "z < 64" "w < 64" "x = 0 \<longrightarrow> 16 \<le> y"
    using assms by auto
  define n where "n = ((x * 64 + y) * 64 + z) * 64 + w"
  have "0x10000 \<le> n" using b unfolding n_def by (cases "x = 0"; simp)
  moreover have "n div 64 = (x * 64 + y) * 64 + z" "n mod 64 = w" unfolding n_def using b by (simp_all only: pack64)
  moreover have "((x * 64 + y) * 64 + z) div 64 = x * 64 + y" "((x * 64 + y) * 64 + z) mod 64 = z"
    "(x * 64 + y) div 64 = x" "(x * 64 + y) mod 64 = y" using b by (simp_all only: pack64)
  ultimately have "encode_utf8 n = [char_of c, char_of d, char_of e, char_of f]"
    using v by (simp only: encode_utf8_def div64) simp
  moreover have "(c - 0xf0) * 262144 + (d - 0x80) * 4096 + (e - 0x80) * 64 + (f - 0x80) = n" using v by (simp add: n_def)
  ultimately show ?thesis by simp
qed

lemma second_byte_code:
  "second_byte (byte_of c) (byte_of d) \<Longrightarrow> 0xe0 \<le> code c \<Longrightarrow>
     0x80 \<le> code d \<and> code d \<le> 0xbf \<and> (code c = 0xe0 \<longrightarrow> 0xa0 \<le> code d) \<and> (code c = 0xf0 \<longrightarrow> 0x90 \<le> code d)"
  by (auto simp: second_byte_def unat_byte_le continuation_code unat_byte_of word_unat_eq_iff split: if_splits)

lemma chars_encode: "valid_text s \<Longrightarrow> concat (map encode_utf8 (chars s)) = s"
proof (induction s rule: chars.induct)
  case (2 c cs)
  consider (one) "code c < 0x80" | (two) "0xc2 \<le> code c" "code c \<le> 0xdf" | (three) "0xe0 \<le> code c" "code c \<le> 0xef"
    | (four) "0xf0 \<le> code c" "code c \<le> 0xf4"
    using "2.prems" by (auto simp: unat_byte_le split: if_splits)
  then show ?case
  proof cases
    case one
    with 2 show ?thesis by (simp add: unat_byte_le encode_utf8_def)
  next
    case two
    with "2.prems" obtain d cs' where d: "cs = d # cs'" "0x80 \<le> code d" "code d \<le> 0xbf" "valid_text cs'"
      by (cases cs) (auto simp: unat_byte_le continuation_code)
    with two "2.IH"(2) encode2 [of "code c" "code d"] show ?thesis by simp
  next
    case three
    with "2.prems" obtain d e cs' where d: "cs = d # e # cs'" "second_byte (byte_of c) (byte_of d)"
      "0x80 \<le> code e" "code e \<le> 0xbf" "valid_text cs'"
      by (cases cs; cases "tl cs") (auto simp: unat_byte_le continuation_code)
    with three "2.IH"(3) encode3 [of "code c" "code d" "code e"] second_byte_code [OF d(2)] show ?thesis by simp
  next
    case four
    with "2.prems" obtain d e f cs' where d: "cs = d # e # f # cs'" "second_byte (byte_of c) (byte_of d)"
      "0x80 \<le> code e" "code e \<le> 0xbf" "0x80 \<le> code f" "code f \<le> 0xbf" "valid_text cs'"
      by (cases cs; cases "tl cs"; cases "tl (tl cs)") (auto simp: unat_byte_le continuation_code)
    with four "2.IH"(4) encode4 [of "code c" "code d" "code e" "code f"] second_byte_code [OF d(2)] show ?thesis by simp
  qed
qed simp

section \<open>String literals are read back\<close>

lemma upper_hex_nibble: "n < 16 \<Longrightarrow> hex_nibble_u32 (upper_hex n) = Some (of_nat n)"
proof -
  assume "n < 16"
  moreover have "list_all (\<lambda>k. hex_nibble_u32 (upper_hex k) = Some (of_nat k)) [0..<16]"
    by code_simp
  ultimately show ?thesis by (simp add: list_all_iff)
qed

lemma parse_hex_step:
  "n < 16 \<Longrightarrow> 16 * a + n < 2 ^ 32 \<Longrightarrow> a < 2 ^ 32 \<Longrightarrow>
     parse_hex_loop (of_nat a) (upper_hex n # ds) = parse_hex_loop (of_nat (16 * a + n)) ds"
proof -
  assume n: "n < 16" "16 * a + n < 2 ^ 32" "a < 2 ^ 32"
  have u: "unat (of_nat a :: u32) = a" "unat (of_nat n :: u32) = n" "unat (of_nat (16 * a) :: u32) = 16 * a"
    using n by (simp_all add: unat_of_nat del: of_nat_mult)
  have "checked_mul (of_nat a :: u32) 16 = Some (of_nat (16 * a))"
    using n by (simp add: checked_mul_def u mult.commute)
  moreover have "checked_add (of_nat (16 * a) :: u32) (of_nat n) = Some (of_nat (16 * a + n))"
    using n u by (simp add: checked_add_def del: of_nat_mult)
  ultimately show ?thesis by (simp add: upper_hex_nibble [OF n(1)] del: of_nat_mult of_nat_add)
qed

lemma parse_hex4: "c < 0x10000 \<Longrightarrow> parse_hex (hex4 c) = Ok (of_nat c)"
proof -
  assume c: "c < 0x10000"
  define d1 where "d1 = c div 4096" define d2 where "d2 = c div 256" define d3 where "d3 = c div 16"
  have m: "d1 mod 16 = d1" "16 * d1 + d2 mod 16 = d2" "16 * d2 + d3 mod 16 = d3" "16 * d3 + c mod 16 = c"
  proof -
    have "d1 = d2 div 16" "d2 = d3 div 16" "d3 = c div 16"
      unfolding d1_def d2_def d3_def by (simp_all add: div_mult2_eq [symmetric])
    then show "16 * d1 + d2 mod 16 = d2" "16 * d2 + d3 mod 16 = d3" "16 * d3 + c mod 16 = c"
      by (simp_all only: mult_div_mod_eq)
    show "d1 mod 16 = d1" using c by (simp add: d1_def)
  qed
  have b: "d1 < 16" "d2 < 256" "d3 < 4096" using c unfolding d1_def d2_def d3_def by auto
  have s: "parse_hex_loop (of_nat a) (upper_hex (d mod 16) # ds) = parse_hex_loop (of_nat d) ds"
    if "16 * a + d mod 16 = d" "d < 0x10000" for a d ds
  proof -
    have "a \<le> d" using that(1) by linarith
    with that parse_hex_step [of "d mod 16" a ds] show ?thesis by (simp only: that(1)) simp
  qed
  have d1: "16 * 0 + d1 mod 16 = d1" using m(1) by simp
  have "parse_hex (hex4 c) = parse_hex_loop (of_nat 0) [upper_hex (d1 mod 16), upper_hex (d2 mod 16), upper_hex (d3 mod 16), upper_hex (c mod 16)]"
    by (simp add: parse_hex_def hex4_def d1_def d2_def d3_def)
  also have "\<dots> = parse_hex_loop (of_nat c) []"
    using s [OF d1] s [OF m(2)] s [OF m(3)] s [OF m(4)] b c by (simp del: of_nat_0 parse_hex_loop.simps)
  finally show ?thesis by simp
qed

lemma chars_bound: "valid_text s \<Longrightarrow> c \<in> set (chars s) \<Longrightarrow> c < 0x140000"
proof (induction s rule: chars.induct)
  case (2 b cs)
  consider (one) "code b < 0x80" | (two) "0xc2 \<le> code b" "code b \<le> 0xdf" | (three) "0xe0 \<le> code b" "code b \<le> 0xef"
    | (four) "0xf0 \<le> code b" "code b \<le> 0xf4"
    using "2.prems"(1) by (auto simp: unat_byte_le split: if_splits)
  then show ?case
  proof cases
    case one
    with 2 show ?thesis by (auto simp: unat_byte_le)
  next
    case two
    with "2.prems"(1) obtain d cs' where "cs = d # cs'" "0x80 \<le> code d" "code d \<le> 0xbf" "valid_text cs'"
      by (cases cs) (auto simp: unat_byte_le continuation_code)
    with two "2.IH"(2) "2.prems"(2) show ?thesis by auto
  next
    case three
    with "2.prems"(1) obtain d e cs' where d: "cs = d # e # cs'" "second_byte (byte_of b) (byte_of d)"
      "0x80 \<le> code e" "code e \<le> 0xbf" "valid_text cs'"
      by (cases cs; cases "tl cs") (auto simp: unat_byte_le continuation_code)
    with three "2.IH"(3) "2.prems"(2) second_byte_code [OF d(2)] show ?thesis by auto
  next
    case four
    with "2.prems"(1) obtain d e f cs' where d: "cs = d # e # f # cs'" "second_byte (byte_of b) (byte_of d)"
      "0x80 \<le> code e" "code e \<le> 0xbf" "0x80 \<le> code f" "code f \<le> 0xbf" "valid_text cs'"
      by (cases cs; cases "tl cs"; cases "tl (tl cs)") (auto simp: unat_byte_le continuation_code)
    with four "2.IH"(4) "2.prems"(2) second_byte_code [OF d(2)] show ?thesis by auto
  qed
qed simp

lemma char_eq_char_of: "c = char_of n \<longleftrightarrow> code c = n mod 256"
  by (metis char_of_code of_char_of)

lemma encode_utf8_plain:
  assumes "c < 0x140000" "c \<noteq> 0x22" "c \<noteq> 0x5c" "b \<in> set (encode_utf8 c)"
  shows "b \<noteq> quote_char" "b \<noteq> backslash"
proof -
  have "\<exists>n. b = char_of n \<and> n < 256 \<and> (n = c \<or> 0x80 \<le> n)"
  proof (cases "c < 0x80")
    case True
    with assms(4) show ?thesis by (intro exI [of _ c]) (auto simp: encode_utf8_def)
  next
    case False
    have "c div 262144 < 5" using assms(1) by simp
    then have b: "0xc0 + c div 64 < 256 \<or> \<not> c < 0x800" "0xe0 + c div 4096 < 256 \<or> \<not> c < 0x10000" "0xf0 + c div 262144 < 256"
      "0x80 + c div 64 mod 64 < 256" "0x80 + c mod 64 < 256" "0x80 + c div 4096 mod 64 < 256" by auto
    show ?thesis using assms(4) False b unfolding encode_utf8_def by (auto split: if_splits)
  qed
  then obtain n where n: "b = char_of n" "n < 256" "n = c \<or> 0x80 \<le> n" by blast
  then have "code b = n" by simp
  with n(3) assms(2,3) show "b \<noteq> quote_char" "b \<noteq> backslash" by auto
qed

lemma string_loop_plain:
  "\<forall>b \<in> set raw. b \<noteq> quote_char \<and> b \<noteq> backslash \<Longrightarrow> str = pre @ raw @ rest \<Longrightarrow>
     string_loop str out (length pre) segment = string_loop str out (length pre + length raw) segment"
proof (induction raw arbitrary: pre)
  case (Cons b raw)
  then have "string_loop str out (length pre) segment = string_loop str out (length (pre @ [b])) segment"
    by (subst string_loop.simps) (simp add: nth_append)
  also have "\<dots> = string_loop str out (length pre + length (b # raw)) segment"
    using Cons.IH [of "pre @ [b]"] Cons.prems by simp
  finally show ?case .
qed simp

text \<open>An escape is read back as the character it was written for.\<close>

lemma string_escape_read:
  assumes "escape_char c = backslash # esc" "c < 0x140000" "str = pre @ esc @ rest"
  shows "string_escape str (length pre) = Ok (encode_utf8 c, length pre + length esc)"
proof -
  consider (dq) "c = 0x22" "esc = [quote_char]" | (bs) "c = 0x5c" "esc = [backslash]" | (n) "c = 0x0a" "esc = ''n''"
    | (r) "c = 0x0d" "esc = ''r''" | (t) "c = 0x09" "esc = ''t''" | (u) "is_control c" "esc = CHR ''u'' # hex4 c"
    using assms(1) encode_utf8_plain(2) [OF assms(2), of backslash]
    by (auto simp: escape_char_def split: if_splits)
  then show ?thesis
  proof cases
    case u
    then have c: "c < 0xa0" by (auto simp: is_control_def)
    have "take 4 (drop (length pre + 1) str) = hex4 c" using u assms(3) by (simp add: hex4_def)
    with u c assms(3) parse_hex4 [of c] show ?thesis
      by (simp add: string_escape_def Let_def char_from_u32_def unat_of_nat word_order hex4_def nth_append)
  qed (use assms(3) in \<open>simp_all add: string_escape_def nth_append encode_utf8_def char_eq_char_of\<close>)
qed

lemma escape_char_cases:
  "(\<exists>esc. escape_char c = backslash # esc) \<or> (escape_char c = encode_utf8 c \<and> c \<noteq> 0x22 \<and> c \<noteq> 0x5c)"
  by (auto simp: escape_char_def)

lemma string_loop_read:
  assumes "list_all (\<lambda>c. c < 0x140000) cs" and "valid_text str"
    and "str = pre @ raw @ concat (map escape_char cs) @ quote_char # rest"
    and "is_char_boundary str (length pre)"
  shows "string_loop str out (length (pre @ raw)) (length pre) =
    Ok (out @ raw @ concat (map encode_utf8 cs), length (pre @ raw @ concat (map escape_char cs)) + 1)"
  using assms(1,3,4)
proof (induction cs arbitrary: pre raw out)
  case Nil
  then have q: "str ! length (pre @ raw) = quote_char" "length (pre @ raw) < length str" by (simp_all add: nth_append)
  then have "is_char_boundary str (length (pre @ raw))" by (intro boundary_ascii) (simp_all add: ascii_def)
  then have "str_slice str (length pre) (length (pre @ raw)) = Ok raw"
    using Nil.prems by (simp add: str_slice_def)
  with q show ?case by (subst string_loop.simps) simp
next
  case (Cons c cs)
  have c: "c < 0x140000" "list_all (\<lambda>c. c < 0x140000) cs" using Cons.prems(1) by simp_all
  from escape_char_cases [of c] show ?case
  proof
    assume "\<exists>esc. escape_char c = backslash # esc"
    then obtain esc where esc: "escape_char c = backslash # esc" by blast
    let ?rest = "concat (map escape_char cs) @ quote_char # rest" and ?pre = "pre @ raw @ backslash # esc"
    have s: "str = (pre @ raw @ [backslash]) @ esc @ ?rest" using Cons.prems(2) esc by simp
    then have q: "str ! length (pre @ raw) = backslash" "length (pre @ raw) < length str" by (simp_all add: nth_append)
    then have "is_char_boundary str (length (pre @ raw))" by (intro boundary_ascii) (simp_all add: ascii_def)
    then have sl: "str_slice str (length pre) (length (pre @ raw)) = Ok raw"
      using Cons.prems(2,3) by (simp add: str_slice_def)
    have es: "string_escape str (length (pre @ raw) + 1) = Ok (encode_utf8 c, length ?pre)"
      using string_escape_read [OF esc c(1) s] by simp
    have b: "is_char_boundary str (length ?pre)" by (rule string_escape_boundary [OF assms(2) es])
    have "string_loop str out (length (pre @ raw)) (length pre) =
        string_loop str (out @ raw @ encode_utf8 c) (length ?pre) (length ?pre)"
      using q sl es by (subst string_loop.simps) simp
    also have "\<dots> = Ok ((out @ raw @ encode_utf8 c) @ concat (map encode_utf8 cs), length (?pre @ concat (map escape_char cs)) + 1)"
      using Cons.IH [of ?pre "[]" "out @ raw @ encode_utf8 c"] c(2) s b by simp
    finally show ?thesis using esc by simp
  next
    assume p: "escape_char c = encode_utf8 c \<and> c \<noteq> 0x22 \<and> c \<noteq> 0x5c"
    then have "\<forall>b \<in> set (encode_utf8 c). b \<noteq> quote_char \<and> b \<noteq> backslash" using encode_utf8_plain [OF c(1)] by blast
    from string_loop_plain [OF this, of str "pre @ raw" _ out "length pre"] Cons.prems(2) p
    have "string_loop str out (length (pre @ raw)) (length pre) = string_loop str out (length (pre @ raw @ encode_utf8 c)) (length pre)"
      by (simp add: add.assoc)
    with Cons.IH [of pre "raw @ encode_utf8 c" out] c(2) Cons.prems(2,3) p show ?thesis by (simp add: add.assoc)
  qed
qed

text \<open>
  C24. A quoted value is one token. Wherever the client writes a person's text into a query, the
  server's tokenizer reads exactly that text as one string token and goes on behind its closing
  quote: no quote, backslash, control character or keyword in the text can end the literal early or
  be read as more query.
\<close>

theorem text_string_is_one_token:
  assumes "utf8_valid (as_bytes s)" and "utf8_valid (as_bytes (pre @ text_string s @ rest))"
  shows "tokenize_loop (pre @ text_string s @ rest) (length pre) tokens =
    tokenize_loop (pre @ text_string s @ rest) (length (pre @ text_string s)) (tokens @ [TString s])"
proof -
  let ?str = "pre @ text_string s @ rest" and ?esc = "concat (map escape_char (chars s))"
  have str: "?str = (pre @ [quote_char]) @ [] @ ?esc @ quote_char # rest" by (simp add: text_string_def)
  have q: "?str ! length pre = quote_char" "length pre < length ?str" by (simp_all add: text_string_def nth_append)
  have b: "is_char_boundary ?str (length (pre @ [quote_char]))"
    using boundary_after_ascii [OF assms(2) q(2)] q(1) by (simp add: ascii_def)
  have "list_all (\<lambda>c. c < 0x140000) (chars s)" using chars_bound [OF assms(1)] by (auto simp: list_all_iff)
  from string_loop_read [OF this assms(2) str b, of "[]"] chars_encode [OF assms(1)]
  have "string_literal ?str (length pre) = Ok (s, length (pre @ text_string s))"
    by (simp add: string_literal_def text_string_def)
  with q show ?thesis by (subst tokenize_loop.simps) (auto simp: is_ascii_whitespace_def)
qed

theorem text_string_is_one_token_witness:
  "text_string [quote_char, CHR 0x0A] = [quote_char, backslash, quote_char, backslash, CHR ''n'', quote_char] \<and>
   tokenize_loop (''LOGS FROM '' @ text_string [quote_char, CHR 0x0A] @ '' STREAM'') 10 [] =
     tokenize_loop (''LOGS FROM '' @ text_string [quote_char, CHR 0x0A] @ '' STREAM'') 16 [TString [quote_char, CHR 0x0A]]"
proof -
  have t: "text_string [quote_char, CHR 0x0A] = [quote_char, backslash, quote_char, backslash, CHR ''n'', quote_char]"
    by (simp add: text_string_def escape_char_def)
  have "utf8_valid (as_bytes [quote_char, CHR 0x0A])"
    "utf8_valid (as_bytes (''LOGS FROM '' @ text_string [quote_char, CHR 0x0A] @ '' STREAM''))"
    unfolding t by (simp_all add: byte_of_def word_order)
  from text_string_is_one_token [OF this, of "[]"] show ?thesis using t by (simp add: eval_nat_numeral)
qed

section \<open>Durations are read back\<close>

lemma decimal_nat_snoc: "decimal_nat (s @ [c]) = 10 * decimal_nat s + digit_value c"
  by (simp add: decimal_nat_def)

lemma decimal_digits_read:
  "decimal_nat (decimal_digits n) = n \<and> list_all is_ascii_digit (decimal_digits n) \<and> decimal_digits n \<noteq> []"
proof (induction n rule: decimal_digits.induct)
  case (1 n)
  show ?case
  proof (cases "n < 10")
    case True
    then show ?thesis by (simp add: decimal_digits.simps [of n] decimal_nat_def digit_value_def is_ascii_digit_def)
  next
    case False
    have d: "code (char_of (48 + n mod 10)) = 48 + n mod 10" by simp
    with 1 False show ?thesis
      by (simp add: decimal_digits.simps [of n] decimal_nat_snoc digit_value_def is_ascii_digit_def)
  qed
qed

lemma parse_u64_digits: "n < 2 ^ 64 \<Longrightarrow> parse_u64 (decimal_digits n) = Some (of_nat n)"
proof -
  assume n: "n < 2 ^ 64"
  have "strip_plus (decimal_digits n) = decimal_digits n"
    using decimal_digits_read [of n] by (cases "decimal_digits n") (auto simp: strip_plus_def is_ascii_digit_def)
  with n decimal_digits_read [of n] show ?thesis by (simp add: parse_u64_def)
qed

lemma parse_duration_read:
  assumes "0 < n" and "duration_unit [u] = Ok k" and "ascii u" and "n * unat k * 10 ^ 9 < 2 ^ 64"
  shows "parse_duration (decimal_digits n @ [u]) = Ok (of_nat (n * unat k * 10 ^ 9))"
proof -
  let ?s = "decimal_digits n"
  have k: "0 < unat k" by (rule duration_unit_pos [OF assms(2)])
  have "n * 1 \<le> n * unat k" "n * unat k * 1 \<le> n * unat k * 10 ^ 9" using k by (intro mult_le_mono2; simp)+
  then have b: "n * unat k < 2 ^ 64" "n < 2 ^ 64" using assms(4) by linarith+
  have u: "unat (of_nat n :: u64) = n" "unat (of_nat (n * unat k) :: u64) = n * unat k"
    using b by (simp_all add: unat_of_nat del: of_nat_mult)
  have "checked_mul (of_nat n) k = Some (of_nat (n * unat k))"
    using b(1) by (simp add: checked_mul_def u)
  moreover have "checked_mul (of_nat (n * unat k) :: u64) 1000000000 = Some (of_nat (n * unat k * 10 ^ 9))"
    using assms(4) by (simp add: checked_mul_def u del: of_nat_mult) simp
  moreover have "(of_nat n :: u64) \<noteq> 0" using assms(1) u(1) by (metis not_less0 unat_0)
  moreover have "is_char_boundary (?s @ [u]) (length ?s)"
    using boundary_ascii [of "length ?s" "?s @ [u]"] assms(3) by simp
  ultimately show ?thesis
    using assms(2) parse_u64_digits [OF b(2)] decimal_digits_read [of n]
    by (auto simp: parse_duration_def Let_def list_ex_iff list_all_iff)
qed

text \<open>
  A duration the client writes is the duration the server reads: whole non-zero seconds come back
  as the same number of nanoseconds, in whichever unit they were written, whenever that number fits
  64 bits.
\<close>

theorem duration_round_trip:
  assumes "text_duration d = Some s" and "unat (dur_secs d) * 10 ^ 9 < 2 ^ 64"
  shows "parse_duration s = Ok (of_nat (unat (dur_secs d) * 10 ^ 9))"
proof -
  let ?n = "unat (dur_secs d)"
  have pos: "0 < ?n" using assms(1) by (auto simp: text_duration_def unat_gt_0 split: if_splits)
  have unit: "parse_duration (decimal_digits (?n div m) @ [u]) = Ok (of_nat (?n * 10 ^ 9))"
    if "m dvd ?n" "duration_unit [u] = Ok k" "unat k = m" "ascii u" for m u k
  proof -
    have "?n div m * unat k = ?n" "0 < ?n div m" using that(1,3) pos by (auto elim!: dvdE)
    with parse_duration_read [of "?n div m" u k] that assms(2) show ?thesis by simp
  qed
  consider "86400 dvd ?n" "s = decimal_digits (?n div 86400) @ ''d''"
    | "3600 dvd ?n" "s = decimal_digits (?n div 3600) @ ''h''"
    | "60 dvd ?n" "s = decimal_digits (?n div 60) @ ''m''"
    | "s = decimal_digits ?n @ ''s''"
    using assms(1) by (auto simp: text_duration_def Let_def split: if_splits option.splits)
  then show ?thesis
    by cases (use unit [of 86400 "CHR ''d''" 86400] unit [of 3600 "CHR ''h''" 3600] unit [of 60 "CHR ''m''" 60]
        unit [of 1 "CHR ''s''" 1] in \<open>simp_all add: duration_unit_def ascii_def\<close>)
qed

theorem duration_round_trip_witness:
  "text_duration \<lparr>dur_secs = 7200, dur_nanos = 0\<rparr> = Some ''2h'' \<and> parse_duration ''2h'' = Ok 7200000000000"
proof -
  have t: "text_duration \<lparr>dur_secs = 7200, dur_nanos = 0\<rparr> = Some ''2h''"
    by (simp add: text_duration_def decimal_digits.simps char_eq_char_of eq_commute [of "char_of _"] dvd_eq_mod_eq_0)
  from duration_round_trip [OF t] t show ?thesis by simp
qed

end
