(* ===== verification/Stable_Sort.thy ===== *)
theory Stable_Sort
  imports Comparison "HOL-Library.Multiset"
begin

text \<open>
  The standard library's stable \<^verbatim>\<open>sort_by\<close>, as insertion sort over a comparison: elements that compare
  equal keep their order. The locale collects what a sort by a total comparison gives to its clients,
  chiefly that keeping only the first \<open>k\<close> elements of a sorted part before more arrive does not change
  the first \<open>k\<close> of the whole.
\<close>

primrec insert_by :: "('a \<Rightarrow> 'a \<Rightarrow> ordering) \<Rightarrow> 'a \<Rightarrow> 'a list \<Rightarrow> 'a list" where
  "insert_by cmp x [] = [x]"
| "insert_by cmp x (y # ys) = (if cmp x y = Greater then y # insert_by cmp x ys else x # y # ys)"

definition sort_by :: "('a \<Rightarrow> 'a \<Rightarrow> ordering) \<Rightarrow> 'a list \<Rightarrow> 'a list" where
  "sort_by cmp xs = foldr (insert_by cmp) xs []"

lemma mset_insert_by [simp]: "mset (insert_by cmp x ys) = add_mset x (mset ys)"
  by (induction ys) auto

lemma set_insert_by [simp]: "set (insert_by cmp x ys) = insert x (set ys)"
  by (induction ys) auto

lemma sort_by_simps [simp]: "sort_by cmp [] = []" "sort_by cmp (x # xs) = insert_by cmp x (sort_by cmp xs)"
  by (simp_all add: sort_by_def)

lemma mset_sort_by [simp]: "mset (sort_by cmp xs) = mset xs"
  by (induction xs) simp_all

lemma set_sort_by [simp]: "set (sort_by cmp xs) = set xs"
  by (metis mset_sort_by set_mset_mset)

lemma length_sort_by [simp]: "length (sort_by cmp xs) = length xs"
  by (metis mset_sort_by size_mset)

lemma sort_by_append: "sort_by cmp (xs @ ys) = foldr (insert_by cmp) xs (sort_by cmp ys)"
  by (induction xs) simp_all

abbreviation sorted_by :: "('a \<Rightarrow> 'a \<Rightarrow> ordering) \<Rightarrow> 'a list \<Rightarrow> bool" where
  "sorted_by cmp \<equiv> sorted_wrt (\<lambda>x y. cmp x y \<noteq> Greater)"

text \<open>\<^verbatim>\<open>Iterator::max_by\<close>: of equal elements the last.\<close>

definition max_by :: "('a \<Rightarrow> 'a \<Rightarrow> ordering) \<Rightarrow> 'a list \<Rightarrow> 'a option" where
  "max_by cmp xs =
     (case xs of [] \<Rightarrow> None | x # xs \<Rightarrow> Some (fold (\<lambda>y best. if cmp best y = Greater then best else y) xs x))"

locale total_comparison =
  fixes cmp :: "'a \<Rightarrow> 'a \<Rightarrow> ordering"
  assumes total: "comparison cmp (\<lambda>_. True)"
begin

lemma swap: "cmp y x = reverse (cmp x y)"
  by (rule comparison.swap [OF total]) simp_all

lemma trans: "cmp x y \<noteq> Greater \<Longrightarrow> cmp y z \<noteq> Greater \<Longrightarrow> cmp x z \<noteq> Greater"
  by (rule comparison.trans [OF total]) simp_all

lemma le_refl: "cmp x x \<noteq> Greater"
  using swap [where x = x and y = x] by (cases "cmp x x") simp_all

lemma Greater_le: "cmp x y = Greater \<Longrightarrow> cmp y x \<noteq> Greater"
  using swap [of x y] by simp

lemma Greater_trans: "cmp x y = Greater \<Longrightarrow> cmp y z \<noteq> Less \<Longrightarrow> cmp x z = Greater"
  using comparison.trans_le_Less [OF total, of z y x] swap [of y x] swap [of z y] swap [of z x] by simp

lemma sorted_insert_by: "sorted_by cmp ys \<Longrightarrow> sorted_by cmp (insert_by cmp x ys)"
  by (induction ys) (auto simp: Greater_le dest: trans)

lemma sorted_sort_by: "sorted_by cmp (sort_by cmp xs)"
  by (induction xs) (simp_all add: sorted_insert_by)

lemma insert_by_sorted: "(\<And>y. y \<in> set ys \<Longrightarrow> cmp x y \<noteq> Greater) \<Longrightarrow> insert_by cmp x ys = x # ys"
  by (cases ys) auto

lemma sort_by_sorted: "sorted_by cmp xs \<Longrightarrow> sort_by cmp xs = xs"
  by (induction xs) (simp_all add: insert_by_sorted)

lemma insert_by_commute:
  "cmp x y = Greater \<Longrightarrow> insert_by cmp x (insert_by cmp y zs) = insert_by cmp y (insert_by cmp x zs)"
proof (induction zs)
  case (Cons z zs)
  have "cmp x z = Greater" if "cmp y z = Greater" using Greater_trans [OF Cons.prems, of z] that by simp
  with Cons Greater_le [OF Cons.prems] show ?case by auto
qed (simp add: Greater_le)

lemma foldr_insert_by: "foldr (insert_by cmp) (insert_by cmp x ys) zs = insert_by cmp x (foldr (insert_by cmp) ys zs)"
  by (induction ys) (simp_all add: insert_by_commute)

lemma sort_by_sort_append: "sort_by cmp (sort_by cmp xs @ ys) = sort_by cmp (xs @ ys)"
proof -
  have "foldr (insert_by cmp) (sort_by cmp xs) zs = foldr (insert_by cmp) xs zs" for zs
    by (induction xs) (simp_all add: foldr_insert_by)
  then show ?thesis by (simp add: sort_by_append)
qed

text \<open>An element that follows all of \<open>as\<close> stands behind them in the sorted list.\<close>

lemma insert_by_before:
  assumes "cmp a b \<noteq> Greater" and "\<And>v. v \<in> set vs \<Longrightarrow> cmp b v \<noteq> Greater"
  shows "\<exists>us'. insert_by cmp a (us @ b # vs) = us' @ b # vs \<and> insert_by cmp a (us @ vs) = us' @ vs \<and>
    length us' = Suc (length us)"
proof (induction us)
  case Nil
  have "cmp a v \<noteq> Greater" if "v \<in> set vs" for v using assms trans that by blast
  then have "insert_by cmp a vs = a # vs" by (rule insert_by_sorted)
  with assms(1) show ?case by (intro exI [of _ "[a]"]) simp
next
  case (Cons u us)
  then obtain us' where "insert_by cmp a (us @ b # vs) = us' @ b # vs" "insert_by cmp a (us @ vs) = us' @ vs"
    "length us' = Suc (length us)" by blast
  then show ?case
    by (cases "cmp a u = Greater") (auto intro: exI [of _ "u # us'"] exI [of _ "a # u # us"])
qed

lemma sort_by_behind:
  assumes "\<And>a. a \<in> set as \<Longrightarrow> cmp a b \<noteq> Greater"
  shows "\<exists>us vs. sort_by cmp (as @ b # cs) = us @ b # vs \<and> sort_by cmp (as @ cs) = us @ vs \<and> length as \<le> length us \<and>
    (\<forall>v \<in> set vs. cmp b v \<noteq> Greater)"
  using assms
proof (induction as)
  case Nil
  have "\<exists>us vs. insert_by cmp b zs = us @ b # vs \<and> zs = us @ vs \<and> (\<forall>v \<in> set vs. cmp b v \<noteq> Greater)"
    if "sorted_by cmp zs" for zs
    using that
  proof (induction zs)
    case (Cons z zs)
    then obtain us vs where "insert_by cmp b zs = us @ b # vs" "zs = us @ vs" "\<forall>v \<in> set vs. cmp b v \<noteq> Greater" by auto
    with Cons.prems trans show ?case
      by (cases "cmp b z = Greater") (auto intro: exI [of _ "z # us"] exI [of _ "[]"])
  qed simp
  with sorted_sort_by [of cs] show ?case by fastforce
next
  case (Cons a as)
  then obtain us vs where uv: "sort_by cmp (as @ b # cs) = us @ b # vs" "sort_by cmp (as @ cs) = us @ vs"
    "length as \<le> length us" "\<forall>v \<in> set vs. cmp b v \<noteq> Greater" by auto
  with insert_by_before [of a b vs us] Cons.prems obtain us' where
    "insert_by cmp a (us @ b # vs) = us' @ b # vs" "insert_by cmp a (us @ vs) = us' @ vs" "length us' = Suc (length us)"
    by auto
  with uv show ?case by (intro exI [of _ us'] exI [of _ vs]) simp
qed

lemma take_sort_by_drop:
  assumes "\<And>a b. a \<in> set as \<Longrightarrow> b \<in> set bs \<Longrightarrow> cmp a b \<noteq> Greater"
  shows "take (length as) (sort_by cmp (as @ bs @ cs)) = take (length as) (sort_by cmp (as @ cs))"
  using assms
proof (induction bs)
  case (Cons b bs)
  obtain us vs where "sort_by cmp (as @ b # (bs @ cs)) = us @ b # vs" "sort_by cmp (as @ (bs @ cs)) = us @ vs"
    "length as \<le> length us" using sort_by_behind [of as b "bs @ cs"] Cons.prems by auto
  with Cons show ?case by simp
qed simp

text \<open>Trimming a sorted part to \<open>k\<close> elements keeps the first \<open>k\<close> of the whole.\<close>

lemma take_sort_by_trim:
  "take k (sort_by cmp (take k (sort_by cmp xs) @ ys)) = take k (sort_by cmp (xs @ ys))"
proof (cases "k \<le> length xs")
  case True
  let ?s = "sort_by cmp xs"
  have "sorted_by cmp (take k ?s @ drop k ?s)" using sorted_sort_by by simp
  then have "take (length (take k ?s)) (sort_by cmp (take k ?s @ drop k ?s @ ys)) =
      take (length (take k ?s)) (sort_by cmp (take k ?s @ ys))"
    unfolding sorted_wrt_append by (intro take_sort_by_drop) blast
  moreover have "sort_by cmp (take k ?s @ drop k ?s @ ys) = sort_by cmp (xs @ ys)"
    by (metis append.assoc append_take_drop_id sort_by_sort_append)
  ultimately show ?thesis using True by simp
qed (simp add: sort_by_sort_append)

lemma fold_max:
  "fold (\<lambda>y best. if cmp best y = Greater then best else y) xs x \<in> insert x (set xs) \<and>
   (\<forall>y \<in> insert x (set xs). cmp y (fold (\<lambda>y best. if cmp best y = Greater then best else y) xs x) \<noteq> Greater)"
proof (induction xs arbitrary: x)
  case Nil
  show ?case using le_refl by simp
next
  case (Cons z zs)
  show ?case
  proof (cases "cmp x z = Greater")
    case True
    with Cons [of x] trans [OF Greater_le [OF True]] show ?thesis by auto
  next
    case False
    with Cons [of z] trans [OF False] show ?thesis by auto
  qed
qed

lemma max_by_Some: "max_by cmp xs = Some m \<Longrightarrow> m \<in> set xs \<and> (\<forall>y \<in> set xs. cmp y m \<noteq> Greater)"
  using fold_max by (fastforce simp: max_by_def split: list.splits)

lemma max_by_None: "max_by cmp xs = None \<longleftrightarrow> xs = []"
  by (simp add: max_by_def split: list.splits)

text \<open>A list sorted without ties is the only sorted arrangement of its elements.\<close>

lemma sorted_unique:
  assumes "sorted_by cmp xs" and "sorted_by cmp ys" and "mset xs = mset ys"
    and "\<And>x y. x \<in> set xs \<Longrightarrow> y \<in> set xs \<Longrightarrow> cmp x y = Equal \<Longrightarrow> x = y"
  shows "xs = ys"
  using assms
proof (induction xs arbitrary: ys)
  case (Cons x xs)
  then obtain y ys' where ys: "ys = y # ys'" by (cases ys) auto
  have set: "set (x # xs) = set ys" using Cons.prems(3) by (metis set_mset_mset)
  have "y = x"
  proof (cases "x = y")
    case False
    with set ys have "y \<in> set xs" "x \<in> set ys'" by auto
    with Cons.prems(1,2) ys have "cmp x y \<noteq> Greater" "cmp y x \<noteq> Greater" by auto
    with swap [where x = x and y = y] have "cmp x y = Equal" by (cases "cmp x y") simp_all
    with Cons.prems(4) [of x y] \<open>y \<in> set xs\<close> show ?thesis by simp
  qed simp
  with Cons ys show ?case by simp
qed simp

end

end
