(* ===== verification/Query_Eval.thy ===== *)
theory Query_Eval
  imports Query_Ast Query_Lexer Payload_Index "HOL-Library.Sublist"
begin

text \<open>
  The executor's evaluation of predicates (\<^verbatim>\<open>eventd/src/query/executor.rs\<close>): the literal a field is
  compared with, the operators, glob patterns, the rewriting of log predicates, and the SQL constraints
  a predicate yields. A string slice that is not on a character boundary panics, so the text operators
  and \<open>evaluate\<close> return a result.
\<close>

section \<open>Literals\<close>

datatype namespace = NsEvents | NsLogs | NsMetrics

definition is_hex_guid_body :: "string \<Rightarrow> bool" where
  "is_hex_guid_body body \<longleftrightarrow>
     length body = 36 \<and> list_all (\<lambda>i. body ! i = CHR ''-'') [8, 13, 18, 23] \<and>
     list_all (\<lambda>(i, b). i \<in> set [8, 13, 18, 23] \<or> is_ascii_hexdigit b) (zip [0..<length body] body)"

definition guid_body :: "string \<Rightarrow> string" where
  "guid_body s =
     (if s \<noteq> [] \<and> hd s = CHR ''{'' \<and> tl s \<noteq> [] \<and> last (tl s) = CHR ''}'' then butlast (tl s) else s)"

definition canonical_guid_literal :: "string \<Rightarrow> string option" where
  "canonical_guid_literal s =
     (let body = guid_body s in
      if is_hex_guid_body body then Some (''{'' @ lowercase body @ ''}'') else None)"

definition is_guid_field :: "namespace \<Rightarrow> string \<Rightarrow> bool" where
  "is_guid_field ns field =
     (case ns of
        NsEvents \<Rightarrow> field \<in> set [''emitter.token.guid'', ''emitter.true-token.guid'', ''emitter.process.guid'', ''event.boot.guid'']
      | NsLogs \<Rightarrow> field \<in> set [''boot_id'', ''job_id'']
      | NsMetrics \<Rightarrow> field = ''boot_id'')"

definition class_value :: "string \<Rightarrow> qvalue" where
  "class_value s =
     (let name = lowercase s in
      if name = ''userspace'' then Unsigned 0
      else if name = ''kmes'' then Unsigned 1
      else if name = ''kacs'' then Unsigned 2
      else if name = ''lcs'' then Unsigned 3
      else String s)"

fun literal_value :: "namespace \<Rightarrow> string \<Rightarrow> literal \<Rightarrow> qvalue" where
  "literal_value ns field (LSigned v) = Signed v"
| "literal_value ns field (LUnsigned v) = Unsigned v"
| "literal_value ns field (LFloat v) = Float v"
| "literal_value ns field (LString s) =
     (if ns = NsEvents \<and> field = ''emitter.class'' then class_value s
      else if is_guid_field ns field then
        (case canonical_guid_literal s of None \<Rightarrow> String s | Some g \<Rightarrow> String g)
      else String s)"
| "literal_value ns field (LBinary v) = Binary v"
| "literal_value ns field (LBool v) = Bool v"

section \<open>Operators\<close>

definition numeric_order :: "((qvalue \<times> qvalue) list \<Rightarrow> string) \<Rightarrow> qvalue \<Rightarrow> qvalue \<Rightarrow> ordering \<Rightarrow> bool" where
  "numeric_order debug left right wanted \<longleftrightarrow>
     is_number left \<and> is_number right \<and> \<not> is_nan left \<and> \<not> is_nan right \<and> language_cmp debug left right = wanted"

definition ascii_contains :: "string \<Rightarrow> string \<Rightarrow> bool" where
  "ascii_contains v needle \<longleftrightarrow>
     (let v = map fold_char v; needle = map fold_char needle in
      needle = [] \<or> list_ex (\<lambda>i. take (length needle) (drop i v) = needle) [0..<length v + 1 - length needle])"

definition ascii_starts_with :: "string \<Rightarrow> string \<Rightarrow> panic + bool" where
  "ascii_starts_with v needle =
     (if length v < length needle then Ok False
      else if \<not> is_char_boundary v (length needle) then Err Panic
      else Ok (ascii_equal (take (length needle) v) needle))"

definition ascii_ends_with :: "string \<Rightarrow> string \<Rightarrow> panic + bool" where
  "ascii_ends_with v needle =
     (if length v < length needle then Ok False
      else if \<not> is_char_boundary v (length v - length needle) then Err Panic
      else Ok (ascii_equal (drop (length v - length needle) v) needle))"

definition string_operation :: "qvalue \<Rightarrow> qvalue \<Rightarrow> (string \<Rightarrow> string \<Rightarrow> panic + bool) \<Rightarrow> panic + bool" where
  "string_operation left right operation =
     (case (left, right) of (String l, String r) \<Rightarrow> operation l r | _ \<Rightarrow> Ok False)"

definition array_contains :: "qvalue \<Rightarrow> qvalue \<Rightarrow> bool" where
  "array_contains left right =
     (case left of Array elements \<Rightarrow> list_ex (\<lambda>e. language_equal e right) elements | _ \<Rightarrow> False)"

definition compare_values :: "((qvalue \<times> qvalue) list \<Rightarrow> string) \<Rightarrow> operator \<Rightarrow> qvalue \<Rightarrow> qvalue \<Rightarrow> panic + bool" where
  "compare_values debug op actual expected =
     (case op of
        OpEqual \<Rightarrow> Ok (language_equal actual expected)
      | OpNotEqual \<Rightarrow> Ok (\<not> language_equal actual expected)
      | OpGreater \<Rightarrow> Ok (numeric_order debug actual expected Greater)
      | OpGreaterEqual \<Rightarrow> Ok (numeric_order debug actual expected Greater \<or> numeric_order debug actual expected Equal)
      | OpLess \<Rightarrow> Ok (numeric_order debug actual expected Less)
      | OpLessEqual \<Rightarrow> Ok (numeric_order debug actual expected Less \<or> numeric_order debug actual expected Equal)
      | OpStartsWith \<Rightarrow> string_operation actual expected ascii_starts_with
      | OpEndsWith \<Rightarrow> string_operation actual expected ascii_ends_with
      | OpContains \<Rightarrow> string_operation actual expected (\<lambda>v n. Ok (ascii_contains v n))
      | OpHas \<Rightarrow> Ok (array_contains actual expected))"

text \<open>\<^verbatim>\<open>record.get(field).filter(|value| !matches!(value, Value::Null))\<close>.\<close>

definition present :: "fields \<Rightarrow> string \<Rightarrow> qvalue option" where
  "present record field = (case record field of Some v \<Rightarrow> if v = Null then None else Some v | None \<Rightarrow> None)"

fun evaluate :: "((qvalue \<times> qvalue) list \<Rightarrow> string) \<Rightarrow> namespace \<Rightarrow> expr \<Rightarrow> fields \<Rightarrow> panic + bool" where
  "evaluate debug ns (And left right) record =
     rbind (evaluate debug ns left record) (\<lambda>l. if l then evaluate debug ns right record else Ok False)"
| "evaluate debug ns (Or left right) record =
     rbind (evaluate debug ns left record) (\<lambda>l. if l then Ok True else evaluate debug ns right record)"
| "evaluate debug ns (IsNull field negated) record = Ok ((present record field = None) \<noteq> negated)"
| "evaluate debug ns (In field negated values) record =
     (case present record field of
        None \<Rightarrow> Ok False
      | Some actual \<Rightarrow>
          Ok (list_ex (\<lambda>v. language_equal actual (literal_value ns field v)) values \<noteq> negated))"
| "evaluate debug ns (Compare field op v) record =
     (case present record field of
        None \<Rightarrow> Ok False
      | Some actual \<Rightarrow> compare_values debug op actual (literal_value ns field v))"

definition metric_comparison :: "((qvalue \<times> qvalue) list \<Rightarrow> string) \<Rightarrow> f64 \<Rightarrow> operator \<Rightarrow> literal \<Rightarrow> panic + bool" where
  "metric_comparison debug number op v =
     evaluate debug NsMetrics (Compare ''value'' op v) (Map.empty(''value'' \<mapsto> Float number))"

section \<open>Log predicates\<close>

fun boolean_literal :: "literal \<Rightarrow> literal" where
  "boolean_literal (LSigned n) = (if n = 1 then LBool True else if n = 0 then LBool False else LSigned n)"
| "boolean_literal (LUnsigned n) = (if n = 1 then LBool True else if n = 0 then LBool False else LUnsigned n)"
| "boolean_literal l = l"

fun rewrite_log :: "expr \<Rightarrow> expr" where
  "rewrite_log (Compare field op v) =
     (if field = ''is_error'' then Compare field op (boolean_literal v) else Compare field op v)"
| "rewrite_log (In field negated values) =
     (if field = ''is_error'' then In field negated (map boolean_literal values) else In field negated values)"
| "rewrite_log (And left right) = And (rewrite_log left) (rewrite_log right)"
| "rewrite_log (Or left right) = Or (rewrite_log left) (rewrite_log right)"
| "rewrite_log e = e"

definition log_predicates :: "expr list \<Rightarrow> expr list" where
  "log_predicates predicates = map rewrite_log predicates"

section \<open>Glob patterns\<close>

text \<open>
  The matching loop with its backtracking point, on the folded pattern and value. Whether it ends is
  part of what is shown about it, so a run that does not is the value \<open>None\<close>.
\<close>

definition char_at :: "string \<Rightarrow> nat \<Rightarrow> char option" where
  "char_at s i = (if i < length s then Some (s ! i) else None)"

partial_function (option) glob_loop :: "string \<Rightarrow> string \<Rightarrow> nat \<Rightarrow> nat \<Rightarrow> nat option \<Rightarrow> nat \<Rightarrow> bool option" where
  "glob_loop pat v pat_at v_at star retry =
     (if v_at < length v then
        if char_at pat pat_at = char_at v v_at then glob_loop pat v (pat_at + 1) (v_at + 1) star retry
        else if char_at pat pat_at = Some (CHR ''*'') then glob_loop pat v (pat_at + 1) v_at (Some pat_at) v_at
        else
          case star of
            Some s \<Rightarrow> glob_loop pat v (s + 1) (retry + 1) star (retry + 1)
          | None \<Rightarrow> Some False
      else Some (list_all (\<lambda>c. c = CHR ''*'') (drop pat_at pat)))"

definition glob_matches :: "string \<Rightarrow> string \<Rightarrow> bool option" where
  "glob_matches pat v = glob_loop (map fold_char pat) (map fold_char v) 0 0 None 0"

section \<open>SQL constraints\<close>

datatype sql_value = SqlText string | SqlInteger i64 | SqlBlob "u8 list"

record sql_constraint =
  sc_sql :: string
  sc_value :: "sql_value option"

definition i64_of_u64 :: "u64 \<Rightarrow> i64 option" where
  "i64_of_u64 v = (if unat v < 2 ^ 63 then Some v else None)"

definition comparison_sql :: "operator \<Rightarrow> string option" where
  "comparison_sql op =
     (case op of OpEqual \<Rightarrow> Some '' = ?5'' | OpNotEqual \<Rightarrow> Some '' <> ?5'' | OpGreater \<Rightarrow> Some '' > ?5''
      | OpGreaterEqual \<Rightarrow> Some '' >= ?5'' | OpLess \<Rightarrow> Some '' < ?5'' | OpLessEqual \<Rightarrow> Some '' <= ?5'' | _ \<Rightarrow> None)"

fun sql_header_constraint :: "expr \<Rightarrow> sql_constraint option" where
  "sql_header_constraint (Compare field op v) =
     (if field = ''event.type'' \<and> op = OpEqual then
        (case v of
           LString s \<Rightarrow> Some \<lparr>sc_sql = ''event_type = ?5 COLLATE NOCASE'', sc_value = Some (SqlText s)\<rparr>
         | _ \<Rightarrow> None)
      else if field \<noteq> ''event.cpu'' \<and> field \<noteq> ''emitter.class'' then None
      else
        Option.bind
          (case literal_value NsEvents field v of
             Signed n \<Rightarrow> Some n
           | Unsigned n \<Rightarrow> i64_of_u64 n
           | _ \<Rightarrow> None)
          (\<lambda>n. map_option
             (\<lambda>sql. \<lparr>sc_sql = (if field = ''event.cpu'' then ''cpu_id'' else ''origin_class'') @ sql,
               sc_value = Some (SqlInteger n)\<rparr>)
             (comparison_sql op)))"
| "sql_header_constraint _ = None"

text \<open>
  The key a payload predicate searches the index for: \<open>None\<close> is the search for rows without one. The
  index must exist, which is asked of the database.
\<close>

fun payload_search :: "expr \<Rightarrow> (string \<times> u8 list option) option" where
  "payload_search (Compare field OpEqual v) =
     (case v of
        LBool b \<Rightarrow> Some (field, Some (query_key (PBool b)))
      | LString s \<Rightarrow> Some (field, Some (query_key (PString s)))
      | LBinary b \<Rightarrow> Some (field, Some (query_key (PBinary b)))
      | _ \<Rightarrow> None)"
| "payload_search (IsNull field negated) = (if negated then None else Some (field, None))"
| "payload_search _ = None"

fun sql_payload_constraint :: "(string \<Rightarrow> 'e + bool) \<Rightarrow> expr \<Rightarrow> 'e + sql_constraint option" where
  "sql_payload_constraint material (And left right) =
     rbind (sql_payload_constraint material left) (\<lambda>c.
       case c of Some c \<Rightarrow> Ok (Some c) | None \<Rightarrow> sql_payload_constraint material right)"
| "sql_payload_constraint material e =
     (case payload_search e of
        None \<Rightarrow> Ok None
      | Some (field, key) \<Rightarrow>
          (case payload_index_name field of
             None \<Rightarrow> Ok None
           | Some name \<Rightarrow>
               (case expression field of
                  None \<Rightarrow> Ok None
                | Some index_expression \<Rightarrow>
                    rbind (material name) (\<lambda>exists.
                      if \<not> exists then Ok None
                      else
                        Ok (Some \<lparr>sc_sql = index_expression @ (if key \<noteq> None then '' = ?5'' else '' IS NULL''),
                          sc_value = map_option SqlBlob key\<rparr>)))))"

fun first_payload_constraint :: "(string \<Rightarrow> 'e + bool) \<Rightarrow> expr list \<Rightarrow> 'e + sql_constraint option" where
  "first_payload_constraint material [] = Ok None"
| "first_payload_constraint material (e # es) =
     rbind (sql_payload_constraint material e) (\<lambda>c.
       case c of Some c \<Rightarrow> Ok (Some c) | None \<Rightarrow> first_payload_constraint material es)"

declare glob_loop.simps [code]

section \<open>What a glob pattern means\<close>

fun glob_spec :: "string \<Rightarrow> string \<Rightarrow> bool" where
  "glob_spec [] v \<longleftrightarrow> v = []"
| "glob_spec (p # pat) v \<longleftrightarrow>
     (if p = CHR ''*'' then list_ex (\<lambda>k. glob_spec pat (drop k v)) [0..<length v + 1]
      else v \<noteq> [] \<and> hd v = p \<and> glob_spec pat (tl v))"

declare glob_spec.simps(2) [simp del]

lemma glob_spec_star: "glob_spec (CHR ''*'' # pat) v \<longleftrightarrow> (\<exists>a b. v = a @ b \<and> glob_spec pat b)"
proof -
  have "glob_spec (CHR ''*'' # pat) v \<longleftrightarrow> (\<exists>k \<le> length v. glob_spec pat (drop k v))"
    by (auto simp: glob_spec.simps(2) list_ex_iff less_Suc_eq_le Bex_def simp del: upt_Suc)
  also have "\<dots> \<longleftrightarrow> (\<exists>a b. v = a @ b \<and> glob_spec pat b)"
  proof
    assume "\<exists>k \<le> length v. glob_spec pat (drop k v)"
    then obtain k where "glob_spec pat (drop k v)" by blast
    then show "\<exists>a b. v = a @ b \<and> glob_spec pat b" by (intro exI [of _ "take k v"] exI conjI) simp_all
  next
    assume "\<exists>a b. v = a @ b \<and> glob_spec pat b"
    then obtain a b where "v = a @ b" "glob_spec pat b" by blast
    then show "\<exists>k \<le> length v. glob_spec pat (drop k v)" by (intro exI [of _ "length a"]) simp
  qed
  finally show ?thesis .
qed

lemma glob_spec_char: "p \<noteq> CHR ''*'' \<Longrightarrow> glob_spec (p # pat) v \<longleftrightarrow> (\<exists>v'. v = p # v' \<and> glob_spec pat v')"
  by (cases v) (auto simp: glob_spec.simps(2))

lemma glob_spec_star_skip: "glob_spec pat v \<Longrightarrow> glob_spec (CHR ''*'' # pat) v"
  unfolding glob_spec_star by (rule exI [of _ "[]"]) simp

lemma glob_spec_star_more: "glob_spec (CHR ''*'' # pat) v \<Longrightarrow> glob_spec (CHR ''*'' # pat) (a @ v)"
  unfolding glob_spec_star by (metis (no_types) append.assoc)

lemma glob_spec_same: "glob_spec pat v \<Longrightarrow> glob_spec (c # pat) (c # v)"
  by (cases "c = CHR ''*''") (auto simp: glob_spec_star glob_spec_char intro: exI [of _ "[CHR ''*'']"])

lemma glob_spec_literal:
  "CHR ''*'' \<notin> set lit \<Longrightarrow> glob_spec (lit @ pat) v \<longleftrightarrow> (\<exists>v'. v = lit @ v' \<and> glob_spec pat v')"
  by (induction lit arbitrary: v) (simp, metis append_Cons glob_spec_char list.set_intros)

lemma glob_spec_Nil: "glob_spec pat [] \<longleftrightarrow> list_all (\<lambda>c. c = CHR ''*'') pat"
  by (induction pat) (auto simp: glob_spec.simps(2))

section \<open>The matching loop\<close>

text \<open>
  A rule for the loop: it always returns, since each step either moves the backtracking point on or
  keeps it and moves on in the pattern, and what the steps keep holds of the answer.
\<close>

lemma glob_loop_rule [consumes 1, case_names bound same star again stuck finish]:
  assumes "I p i star retry"
    and bound: "\<And>p i star retry. I p i star retry \<Longrightarrow> retry \<le> i"
    and same: "\<And>p i star retry. I p i star retry \<Longrightarrow> i < length v \<Longrightarrow> p < length pat \<Longrightarrow> pat ! p = v ! i \<Longrightarrow>
      I (p + 1) (i + 1) star retry"
    and star: "\<And>p i star retry. I p i star retry \<Longrightarrow> i < length v \<Longrightarrow> p < length pat \<Longrightarrow> pat ! p \<noteq> v ! i \<Longrightarrow>
      pat ! p = CHR ''*'' \<Longrightarrow> I (p + 1) i (Some p) i"
    and again: "\<And>p i s retry. I p i (Some s) retry \<Longrightarrow> i < length v \<Longrightarrow>
      (p < length pat \<Longrightarrow> pat ! p \<noteq> v ! i \<and> pat ! p \<noteq> CHR ''*'') \<Longrightarrow> I (s + 1) (retry + 1) (Some s) (retry + 1)"
    and stuck: "\<And>p i retry. I p i None retry \<Longrightarrow> i < length v \<Longrightarrow>
      (p < length pat \<Longrightarrow> pat ! p \<noteq> v ! i \<and> pat ! p \<noteq> CHR ''*'') \<Longrightarrow> Q False"
    and final: "\<And>p i star retry. I p i star retry \<Longrightarrow> length v \<le> i \<Longrightarrow> Q (list_all (\<lambda>c. c = CHR ''*'') (drop p pat))"
  shows "\<exists>r. glob_loop pat v p i star retry = Some r \<and> Q r"
  using assms(1)
proof (induction "(length v - retry, length pat - p)" arbitrary: p i star retry
    rule: wf_induct_rule [OF wf_lex_prod [OF wf_less wf_less]])
  case (1 p retry i star)
  show ?case
  proof (cases "i < length v")
    case False
    then show ?thesis using final [OF 1(2)] by (simp add: glob_loop.simps [of pat v p])
  next
    case i: True
    have retry: "retry \<le> i" by (rule bound [OF 1(2)])
    consider "p < length pat" "pat ! p = v ! i" | "p < length pat" "pat ! p \<noteq> v ! i" "pat ! p = CHR ''*''"
      | "p < length pat \<Longrightarrow> pat ! p \<noteq> v ! i \<and> pat ! p \<noteq> CHR ''*''" by blast
    then show ?thesis
    proof cases
      case a: 1
      have "\<exists>r. glob_loop pat v (p + 1) (i + 1) star retry = Some r \<and> Q r"
        by (rule 1(1)) (use a i same [OF 1(2)] in auto)
      with a i show ?thesis by (simp add: glob_loop.simps [of pat v p] char_at_def)
    next
      case b: 2
      have "\<exists>r. glob_loop pat v (p + 1) i (Some p) i = Some r \<and> Q r"
        by (rule 1(1)) (use b i retry star [OF 1(2)] in auto)
      with b i show ?thesis by (simp add: glob_loop.simps [of pat v p] char_at_def)
    next
      case c: 3
      show ?thesis
      proof (cases star)
        case None
        with c i have "glob_loop pat v p i star retry = Some False"
          by (simp add: glob_loop.simps [of pat v p] char_at_def)
        with c i None stuck [of p i retry] 1(2) show ?thesis by blast
      next
        case (Some s)
        have "\<exists>r. glob_loop pat v (s + 1) (retry + 1) star (retry + 1) = Some r \<and> Q r"
          by (rule 1(1)) (use c i retry Some again [of p i s retry] 1(2) in auto)
        with c i Some show ?thesis by (simp add: glob_loop.simps [of pat v p] char_at_def)
      qed
    qed
  qed
qed

text \<open>Whatever the value, a reported match is one.\<close>

lemma glob_loop_sound: "\<exists>r. glob_loop pat v 0 0 None 0 = Some r \<and> (r \<longrightarrow> glob_spec pat v)"
proof -
  define I where "I p i star retry \<longleftrightarrow> retry \<le> i \<and> i \<le> length v \<and>
      (glob_spec (drop p pat) (drop i v) \<longrightarrow> glob_spec pat v) \<and>
      (case star of None \<Rightarrow> True
       | Some s \<Rightarrow> s < length pat \<and> pat ! s = CHR ''*'' \<and> (glob_spec (drop s pat) (drop retry v) \<longrightarrow> glob_spec pat v))"
    for p i star retry
  have less: "glob_spec (drop (Suc s) pat) (drop (Suc k) v) \<Longrightarrow> glob_spec (drop s pat) (drop k v)"
    "glob_spec (drop s pat) (drop (Suc k) v) \<Longrightarrow> glob_spec (drop s pat) (drop k v)"
    if "s < length pat" "pat ! s = CHR ''*''" "k < length v" for s k
    using that glob_spec_star_more [of "drop (Suc s) pat" _ "[v ! k]"]
    by (auto simp: Cons_nth_drop_Suc [symmetric] dest: glob_spec_star_skip)
  have "I 0 0 None 0" by (simp add: I_def)
  then show ?thesis
  proof (induction rule: glob_loop_rule [where I = I])
    case (same p i star retry)
    then show ?case using glob_spec_same [of "drop (Suc p) pat" "drop (Suc i) v" "v ! i"]
      by (auto simp: I_def Cons_nth_drop_Suc [symmetric, of p] Cons_nth_drop_Suc [symmetric, of i]
          split: option.splits)
  next
    case (star p i star retry)
    then show ?case using glob_spec_star_skip [of "drop (Suc p) pat" "drop i v"]
      by (auto simp: I_def Cons_nth_drop_Suc [of p pat, symmetric])
  next
    case (again p i s retry)
    then show ?case using less [of s retry] by (auto simp: I_def)
  qed (auto simp: I_def glob_spec_Nil)
qed

text \<open>
  In a value without an asterisk every match is found: while a star is being stretched, the pattern
  behind it and the value from the backtracking point share the literal text matched so far.
\<close>

lemma glob_spec_stretch:
  "CHR ''*'' \<notin> set lit \<Longrightarrow> glob_spec (CHR ''*'' # lit @ pat) v \<longleftrightarrow> (\<exists>a b. v = a @ lit @ b \<and> glob_spec pat b)"
  by (auto simp: glob_spec_star glob_spec_literal)

lemma stretch_next_star:
  assumes "CHR ''*'' \<notin> set lit" and "glob_spec (CHR ''*'' # lit @ CHR ''*'' # pat) (lit @ v)"
  shows "glob_spec (CHR ''*'' # pat) v"
proof -
  from assms obtain a b where ab: "lit @ v = a @ lit @ b" "glob_spec (CHR ''*'' # pat) b"
    using glob_spec_stretch by blast
  then have "length b \<le> length v" by (metis length_append le_add2 add_le_cancel_left add.left_commute)
  moreover have "suffix b (lit @ v)" using ab(1) by (metis append.assoc suffixI)
  ultimately obtain c where "v = c @ b" by (metis suffix_length_suffix suffixE suffix_append suffix_order.refl)
  with ab(2) show ?thesis using glob_spec_star_more by blast
qed

lemma stretch_again:
  assumes "CHR ''*'' \<notin> set lit" and "glob_spec (CHR ''*'' # lit @ pat) (lit @ v)" and "\<not> glob_spec pat v"
  shows "glob_spec (CHR ''*'' # lit @ pat) (tl (lit @ v))"
proof -
  from assms obtain a b where ab: "lit @ v = a @ lit @ b" "glob_spec pat b"
    using glob_spec_stretch by blast
  with assms(3) obtain x a' where "a = x # a'" by (cases a) auto
  with ab assms(1) show ?thesis by (auto simp: glob_spec_stretch)
qed

lemma stretch_end:
  "CHR ''*'' \<notin> set lit \<Longrightarrow> glob_spec (CHR ''*'' # lit @ pat) lit \<Longrightarrow> glob_spec pat []"
  by (auto simp: glob_spec_stretch dest!: arg_cong [of _ _ length])

lemma glob_loop_complete:
  assumes v: "CHR ''*'' \<notin> set v"
  shows "\<exists>r. glob_loop pat v 0 0 None 0 = Some r \<and> (glob_spec pat v \<longrightarrow> r)"
proof -
  define I where "I p i star retry \<longleftrightarrow> retry \<le> i \<and> i \<le> length v \<and>
      (case star of None \<Rightarrow> glob_spec pat v \<longrightarrow> glob_spec (drop p pat) (drop i v)
       | Some s \<Rightarrow> s < length pat \<and>
           (\<exists>lit. CHR ''*'' \<notin> set lit \<and> drop s pat = CHR ''*'' # lit @ drop p pat \<and> drop retry v = lit @ drop i v) \<and>
           (glob_spec pat v \<longrightarrow> glob_spec (drop s pat) (drop retry v)))"
    for p i star retry
  have vi: "v ! i \<noteq> CHR ''*''" if "i < length v" for i using v that by (metis nth_mem)
  have step: "drop i xs = xs ! i # drop (Suc i) xs" if "i < length xs" for i and xs :: string
    using that by (simp add: Cons_nth_drop_Suc)
  have no_match: "\<not> glob_spec (drop p pat) (drop i v)"
    if "i < length v" "p < length pat \<Longrightarrow> pat ! p \<noteq> v ! i \<and> pat ! p \<noteq> CHR ''*''" for p i
    using that by (cases "p < length pat") (auto simp: step glob_spec_char)
  have "I 0 0 None 0" by (simp add: I_def)
  then show ?thesis
  proof (induction rule: glob_loop_rule [where I = I])
    case (same p i star retry)
    show ?case
    proof (cases star)
      case None
      with same vi [of i] show ?thesis by (simp add: I_def step [of p] step [of i] glob_spec_char)
    next
      case (Some s)
      with same obtain lit where "CHR ''*'' \<notin> set lit" "drop s pat = CHR ''*'' # lit @ drop p pat"
        "drop retry v = lit @ drop i v" by (auto simp: I_def)
      with same vi [of i] have "\<exists>lit. CHR ''*'' \<notin> set lit \<and> drop s pat = CHR ''*'' # lit @ drop (Suc p) pat \<and>
          drop retry v = lit @ drop (Suc i) v"
        by (intro exI [of _ "lit @ [v ! i]"]) (simp add: step [of p] step [of i])
      with same Some show ?thesis by (simp add: I_def)
    qed
  next
    case (star p i star retry)
    have "glob_spec pat v \<longrightarrow> glob_spec (drop p pat) (drop i v)"
    proof (cases star)
      case None
      with star show ?thesis by (simp add: I_def)
    next
      case (Some s)
      with star show ?thesis by (auto simp: I_def step [of p] dest: stretch_next_star)
    qed
    with star show ?case by (auto simp: I_def step [of p])
  next
    case (again p i s retry)
    then obtain lit where lit: "CHR ''*'' \<notin> set lit" "drop s pat = CHR ''*'' # lit @ drop p pat"
      "drop retry v = lit @ drop i v" "glob_spec pat v \<longrightarrow> glob_spec (drop s pat) (drop retry v)"
      "s < length pat" "retry < length v" by (auto simp: I_def)
    then have "glob_spec pat v \<longrightarrow> glob_spec (drop s pat) (drop (Suc retry) v)"
      using stretch_again [OF lit(1) _ no_match [of i p]] again by (metis drop_Suc tl_drop)
    moreover have "drop s pat = CHR ''*'' # drop (Suc s) pat" using lit(2,5) by (simp add: step)
    ultimately show ?case using lit(5,6) by (auto simp: I_def)
  next
    case (stuck p i retry)
    then show ?case using no_match [of i p] by (simp add: I_def)
  next
    case (finish p i star retry)
    then show ?case by (auto simp: I_def glob_spec_Nil split: option.splits dest: stretch_end)
  qed (simp add: I_def)
qed

section \<open>Glob matching is exact on values without an asterisk\<close>

lemma fold_char_star: "fold_char c = CHR ''*'' \<longleftrightarrow> c = CHR ''*''"
  by (auto simp: fold_char_def to_ascii_lowercase_def is_ascii_uppercase_def dest!: arg_cong [of _ _ code])

lemma folded_star: "CHR ''*'' \<in> set (map fold_char v) \<longleftrightarrow> CHR ''*'' \<in> set v"
  by (metis (no_types, lifting) fold_char_star image_iff set_map)

text \<open>
  C25. Matching a pattern always returns, and never reports a match the pattern does not have; in a
  value that contains no asterisk it reports every match the pattern has.
\<close>

theorem glob_matches_exact:
  "\<exists>r. glob_matches pat v = Some r \<and> (r \<longrightarrow> glob_spec (map fold_char pat) (map fold_char v)) \<and>
     (CHR ''*'' \<notin> set v \<longrightarrow> r = glob_spec (map fold_char pat) (map fold_char v))"
proof -
  obtain r where r: "glob_matches pat v = Some r" "r \<longrightarrow> glob_spec (map fold_char pat) (map fold_char v)"
    using glob_loop_sound unfolding glob_matches_def by blast
  moreover have "r = glob_spec (map fold_char pat) (map fold_char v)" if "CHR ''*'' \<notin> set v"
    using glob_loop_complete [of "map fold_char v" "map fold_char pat"] r that
    unfolding glob_matches_def folded_star by auto
  ultimately show ?thesis by blast
qed

theorem glob_matches_exact_witness:
  "glob_matches ''kmes.*.Drop*'' ''KMES.ring.dropped'' = Some True"
proof -
  have "glob_spec (map fold_char ''kmes.*.Drop*'') (map fold_char ''KMES.ring.dropped'')" by code_simp
  then show ?thesis using glob_matches_exact [of "''kmes.*.Drop*''" "''KMES.ring.dropped''"] by auto
qed

text \<open>
  A value that contains an asterisk can be missed: where the pattern's star stands at the value's
  asterisk, the two are taken as the same literal byte and the star is not recorded for backtracking,
  so that the pattern matching everything rejects the value.
\<close>

lemma glob_star_taken_literally:
  "glob_spec (map fold_char ''*'') (map fold_char ''*a'') \<and> glob_matches ''*'' ''*a'' = Some False"
  by code_simp

section \<open>The text operators\<close>

lemma prefix_take: "prefix xs ys \<longleftrightarrow> take (length xs) ys = xs"
  by (auto simp: prefix_def) (metis append_take_drop_id)

lemma suffix_drop: "length xs \<le> length ys \<Longrightarrow> suffix xs ys \<longleftrightarrow> drop (length ys - length xs) ys = xs"
  by (auto simp: suffix_def) (metis append_take_drop_id)

lemma windows_sublist:
  "list_ex (\<lambda>i. take (length n) (drop i v) = n) [0..<length v + 1 - length n] \<longleftrightarrow> sublist n v"
proof
  assume "list_ex (\<lambda>i. take (length n) (drop i v) = n) [0..<length v + 1 - length n]"
  then obtain i where "take (length n) (drop i v) = n" by (auto simp: list_ex_iff)
  then show "sublist n v" by (metis append_take_drop_id sublist_appendI)
next
  assume "sublist n v"
  then obtain a b where "v = a @ n @ b" by (auto simp: sublist_def)
  then show "list_ex (\<lambda>i. take (length n) (drop i v) = n) [0..<length v + 1 - length n]"
    unfolding list_ex_iff by (intro bexI [of _ "length a"]) simp_all
qed

text \<open>Where the text operators would cut the value inside a character.\<close>

definition cuts :: "operator \<Rightarrow> string \<Rightarrow> string \<Rightarrow> bool" where
  "cuts op v needle \<longleftrightarrow>
     length needle \<le> length v \<and>
     (op = OpStartsWith \<and> \<not> is_char_boundary v (length needle) \<or>
      op = OpEndsWith \<and> \<not> is_char_boundary v (length v - length needle))"

lemma ascii_starts_with_eq:
  "ascii_starts_with v needle =
     (if cuts OpStartsWith v needle then Err Panic else Ok (prefix (lowercase needle) (lowercase v)))"
  using prefix_length_le [of "lowercase needle" "lowercase v"]
  by (auto simp: ascii_starts_with_def cuts_def ascii_equal_iff prefix_take take_map)

lemma ascii_ends_with_eq:
  "ascii_ends_with v needle =
     (if cuts OpEndsWith v needle then Err Panic else Ok (suffix (lowercase needle) (lowercase v)))"
  using suffix_length_le [of "lowercase needle" "lowercase v"]
  by (auto simp: ascii_ends_with_def cuts_def ascii_equal_iff suffix_drop drop_map)

lemma ascii_contains_eq: "ascii_contains v needle \<longleftrightarrow> sublist (lowercase needle) (lowercase v)"
  unfolding ascii_contains_def Let_def windows_sublist by (auto simp: fold_char_def [abs_def])

text \<open>
  On text, the three text operators decide prefix, suffix and substring up to the case of ASCII
  letters; the first two panic exactly when the needle's length falls inside a character of the value.
\<close>

theorem text_operators_exact:
  "compare_values d OpStartsWith (String v) (String n) =
     (if cuts OpStartsWith v n then Err Panic else Ok (prefix (lowercase n) (lowercase v))) \<and>
   compare_values d OpEndsWith (String v) (String n) =
     (if cuts OpEndsWith v n then Err Panic else Ok (suffix (lowercase n) (lowercase v))) \<and>
   compare_values d OpContains (String v) (String n) = Ok (sublist (lowercase n) (lowercase v))"
  by (simp add: compare_values_def string_operation_def ascii_starts_with_eq ascii_ends_with_eq ascii_contains_eq)

section \<open>Evaluation\<close>

fun comparisons :: "expr \<Rightarrow> (string \<times> operator \<times> literal) list" where
  "comparisons (And l r) = comparisons l @ comparisons r"
| "comparisons (Or l r) = comparisons l @ comparisons r"
| "comparisons (Compare field op l) = [(field, op, l)]"
| "comparisons _ = []"

definition cut_comparison :: "namespace \<Rightarrow> fields \<Rightarrow> string \<times> operator \<times> literal \<Rightarrow> bool" where
  "cut_comparison ns record = (\<lambda>(field, op, l).
     case (record field, literal_value ns field l) of (Some (String v), String n) \<Rightarrow> cuts op v n | _ \<Rightarrow> False)"

lemma compare_values_Err:
  "compare_values d op a b = Err p \<longleftrightarrow> (\<exists>v n. a = String v \<and> b = String n \<and> cuts op v n)"
  by (cases p; cases op; cases a; cases b) (auto simp: compare_values_def string_operation_def ascii_starts_with_eq
      ascii_ends_with_eq cuts_def)




end
