(* ===== verification/Rows.thy ===== *)
theory Rows
  imports Query_Ast Stable_Sort
begin

text \<open>
  The rows a query works on (\<^verbatim>\<open>eventd/src/query/executor.rs\<close>): their order, pagination, the memory they
  are charged for, and the gathering of a sorted query's rows with its trimming to the best ones. Counts
  and sizes are natural numbers; where the source saturates at the width of \<^verbatim>\<open>usize\<close> so does the model.
\<close>

section \<open>Errors\<close>

text \<open>The payloads of the errors that wrap another library's error are not looked at.\<close>

datatype query_error =
  Sql | Peios | Security | Timeout | InvalidTime | NonFinite | MixedMetricTypes | InvalidMetricType
  | InvalidHistogram | HistogramNeedsPercentile | PercentileNeedsHistogram | RateNeedsCounter
  | MetricNeedsWindow | CrossTypeRangeTooLarge | CrossMetricNeedsSelector | CrossMetricHistogram
  | DistinctStreamLimit | HeldLimit | Delivery

section \<open>Rows and their order\<close>

datatype tie = TieEvent nat i64 | TieSingle i64

record row =
  row_record :: fields
  row_identifier :: string
  row_at :: i64
  row_metric_labels :: "u8 list"
  row_tie :: tie

definition timestamp :: "row \<Rightarrow> i64" where
  "timestamp r = row_at r"

definition i64_cmp :: "i64 \<Rightarrow> i64 \<Rightarrow> ordering" where
  "i64_cmp a b = cmp_ord (sint a) (sint b)"

text \<open>The derived order of \<^verbatim>\<open>Tie\<close>: variants in order, then their fields in order.\<close>

fun tie_ord :: "tie \<Rightarrow> tie \<Rightarrow> ordering" where
  "tie_ord (TieEvent s i) (TieEvent s' i') = then_with (cmp_ord s s') (i64_cmp i i')"
| "tie_ord (TieEvent _ _) (TieSingle _) = Less"
| "tie_ord (TieSingle _) (TieEvent _ _) = Greater"
| "tie_ord (TieSingle i) (TieSingle i') = i64_cmp i i'"

fun tie_break :: "tie \<Rightarrow> tie \<Rightarrow> ordering" where
  "tie_break (TieEvent s i) (TieEvent s' i') = then_with (cmp_ord s s') (i64_cmp i' i)"
| "tie_break (TieSingle l) (TieSingle r) = i64_cmp r l"
| "tie_break l r = tie_ord l r"

definition field_or_null :: "row \<Rightarrow> string \<Rightarrow> qvalue" where
  "field_or_null r field = (case row_record r field of Some v \<Rightarrow> v | None \<Rightarrow> Null)"

fun sort_keys_cmp :: "((qvalue \<times> qvalue) list \<Rightarrow> string) \<Rightarrow> sort_key list \<Rightarrow> row \<Rightarrow> row \<Rightarrow> ordering" where
  "sort_keys_cmp debug [] left right = Equal"
| "sort_keys_cmp debug (key # ks) left right =
     (let res = language_cmp debug (field_or_null left (sk_field key)) (field_or_null right (sk_field key));
          res = (if sk_descending key then reverse res else res) in
      if res \<noteq> Equal then res else sort_keys_cmp debug ks left right)"

definition sort_key_order :: "((qvalue \<times> qvalue) list \<Rightarrow> string) \<Rightarrow> row \<Rightarrow> row \<Rightarrow> query \<Rightarrow> ordering" where
  "sort_key_order debug left right q = sort_keys_cmp debug (q_sort q) left right"

definition row_cmp :: "((qvalue \<times> qvalue) list \<Rightarrow> string) \<Rightarrow> query \<Rightarrow> row \<Rightarrow> row \<Rightarrow> ordering" where
  "row_cmp debug q left right =
     (case sort_keys_cmp debug (q_sort q) left right of
        Equal \<Rightarrow>
          (case i64_cmp (timestamp right) (timestamp left) of
             Equal \<Rightarrow> tie_break (row_tie left) (row_tie right)
           | res \<Rightarrow> res)
      | res \<Rightarrow> res)"

definition sort_rows :: "((qvalue \<times> qvalue) list \<Rightarrow> string) \<Rightarrow> query \<Rightarrow> row list \<Rightarrow> row list" where
  "sort_rows debug q rows = sort_by (row_cmp debug q) rows"

definition apply_record_sort :: "((qvalue \<times> qvalue) list \<Rightarrow> string) \<Rightarrow> query \<Rightarrow> row list \<Rightarrow> row list" where
  "apply_record_sort debug q rows =
     (if q_sort q = [] then rows
      else sort_by (\<lambda>l r. then_with (sort_key_order debug l r q) (tie_ord (row_tie l) (row_tie r))) rows)"

definition apply_pagination :: "query \<Rightarrow> 'a list \<Rightarrow> 'a list" where
  "apply_pagination q rows =
     (let rows = drop (min (unat (q_skip q)) (length rows)) rows in
      case q_take q of Some t \<Rightarrow> take (unat t) rows | None \<Rightarrow> rows)"

definition order_result_rows :: "((qvalue \<times> qvalue) list \<Rightarrow> string) \<Rightarrow> query \<Rightarrow> bool \<Rightarrow> row list \<Rightarrow> row list" where
  "order_result_rows debug q watch rows =
     (if watch then sort_by (\<lambda>l r. tie_ord (row_tie l) (row_tie r)) rows
      else apply_pagination q (sort_rows debug q rows))"

definition project :: "fields \<Rightarrow> string list \<Rightarrow> fields" where
  "project record select = (if select \<noteq> [] then record |` set select else record)"

section \<open>What is held\<close>

definition USIZE_MAX :: nat where
  "USIZE_MAX = 2 ^ 64 - 1"

definition saturating_add :: "nat \<Rightarrow> nat \<Rightarrow> nat" where
  "saturating_add a b = min (a + b) USIZE_MAX"

definition saturating_mul :: "nat \<Rightarrow> nat \<Rightarrow> nat" where
  "saturating_mul a b = min (a * b) USIZE_MAX"

definition div_ceil :: "nat \<Rightarrow> nat \<Rightarrow> nat" where
  "div_ceil a b = (if a mod b = 0 then a div b else a div b + 1)"

text \<open>The sizes of the slots are the compiler's; they are arguments.\<close>

record layout =
  size_of_value :: nat
  size_of_string :: nat
  size_of_row :: nat

definition heap :: "nat \<Rightarrow> nat" where
  "heap len = (if len = 0 then 0 else div_ceil len 16 * 16 + 16)"

fun value_heap :: "layout \<Rightarrow> qvalue \<Rightarrow> nat" where
  "value_heap y (String t) = heap (length t)"
| "value_heap y (Binary bs) = heap (length bs)"
| "value_heap y (Array vs) = heap (length vs * size_of_value y) + sum_list (map (value_heap y) vs)"
| "value_heap y (Map es) =
     heap (length es * 2 * size_of_value y) + sum_list (map (\<lambda>(k, v). value_heap y k + value_heap y v) es)"
| "value_heap y _ = 0"

definition value_size :: "layout \<Rightarrow> qvalue \<Rightarrow> nat" where
  "value_size y v = size_of_value y + value_heap y v"

definition FIELD_SLOT :: "layout \<Rightarrow> nat" where
  "FIELD_SLOT y = (size_of_string y + size_of_value y) * 2"

definition record_size :: "layout \<Rightarrow> fields \<Rightarrow> nat" where
  "record_size y record =
     (\<Sum>field \<in> dom record. FIELD_SLOT y + heap (length field) + value_heap y (the (record field)))"

definition row_size :: "layout \<Rightarrow> row \<Rightarrow> nat" where
  "row_size y r =
     size_of_row y + heap (length (row_identifier r)) + heap (length (row_metric_labels r)) + record_size y (row_record r)"

section \<open>The shared budget\<close>

record held =
  reserved :: nat
  holding :: nat

definition HELD_GRANULE :: nat where
  "HELD_GRANULE = 64 * 1024"

definition held_new :: held where
  "held_new = \<lparr>reserved = 0, holding = 0\<rparr>"

text \<open>\<^verbatim>\<open>AtomicUsize::fetch_sub\<close> wraps.\<close>

definition fetch_sub :: "nat \<Rightarrow> nat \<Rightarrow> nat" where
  "fetch_sub used n = (if n \<le> used then used - n else used + 2 ^ 64 - n)"

definition granules :: "nat \<Rightarrow> nat" where
  "granules bytes = saturating_mul (div_ceil bytes HELD_GRANULE) HELD_GRANULE"

definition held_set :: "nat \<Rightarrow> nat \<Rightarrow> held \<Rightarrow> nat \<Rightarrow> (query_error + unit) \<times> nat \<times> held" where
  "held_set limit used h bytes =
     (let h = h\<lparr>holding := bytes\<rparr>; wanted = granules bytes in
      if reserved h < wanted then
        let more = wanted - reserved h in
        if used + more \<le> USIZE_MAX \<and> used + more \<le> limit
        then (Ok (), used + more, h\<lparr>reserved := wanted\<rparr>)
        else (Err HeldLimit, used, h)
      else if wanted < reserved h then (Ok (), fetch_sub used (reserved h - wanted), h\<lparr>reserved := wanted\<rparr>)
      else (Ok (), used, h\<lparr>reserved := wanted\<rparr>))"

definition held_add :: "nat \<Rightarrow> nat \<Rightarrow> held \<Rightarrow> nat \<Rightarrow> (query_error + unit) \<times> nat \<times> held" where
  "held_add limit used h bytes = held_set limit used h (saturating_add (holding h) bytes)"

definition held_release :: "nat \<Rightarrow> nat \<Rightarrow> held \<Rightarrow> nat \<Rightarrow> nat \<times> held" where
  "held_release limit used h bytes = snd (held_set limit used h (holding h - bytes))"

definition held_drop :: "nat \<Rightarrow> held \<Rightarrow> nat" where
  "held_drop used h = fetch_sub used (reserved h)"

section \<open>Gathering\<close>

definition TRIM_AT :: nat where
  "TRIM_AT = 1024"

record gathering =
  g_rows :: "row list"
  g_held :: held
  g_used :: nat

definition keep_of :: "query \<Rightarrow> bool \<Rightarrow> nat option" where
  "keep_of q watch =
     (if watch then None
      else map_option (\<lambda>t. saturating_add (unat t) (unat (q_skip q))) (q_take q))"

definition gathered_add ::
  "((qvalue \<times> qvalue) list \<Rightarrow> string) \<Rightarrow> layout \<Rightarrow> nat \<Rightarrow> query \<Rightarrow> nat option \<Rightarrow> gathering \<Rightarrow> row \<Rightarrow>
     (query_error + unit) \<times> gathering" where
  "gathered_add debug y limit q keep g r =
     (let (res, used, h) = held_add limit (g_used g) (g_held g) (row_size y r);
          g = g\<lparr>g_held := h, g_used := used\<rparr> in
      case res of
        Err e \<Rightarrow> (Err e, g)
      | Ok _ \<Rightarrow>
          let g = g\<lparr>g_rows := g_rows g @ [r]\<rparr> in
          case keep of
            Some k \<Rightarrow>
              if max (saturating_mul k 2) TRIM_AT \<le> length (g_rows g) then
                let rows = take k (sort_rows debug q (g_rows g));
                    (res, used, h) = held_set limit (g_used g) (g_held g) (sum_list (map (row_size y) rows)) in
                (res, g\<lparr>g_rows := rows, g_held := h, g_used := used\<rparr>)
              else (Ok (), g)
          | None \<Rightarrow> (Ok (), g))"

fun gather ::
  "((qvalue \<times> qvalue) list \<Rightarrow> string) \<Rightarrow> layout \<Rightarrow> nat \<Rightarrow> query \<Rightarrow> nat option \<Rightarrow> gathering \<Rightarrow> row list \<Rightarrow>
     (query_error + unit) \<times> gathering" where
  "gather debug y limit q keep g [] = (Ok (), g)"
| "gather debug y limit q keep g (r # rs) =
     (case gathered_add debug y limit q keep g r of
        (Err e, g) \<Rightarrow> (Err e, g)
      | (Ok _, g) \<Rightarrow> gather debug y limit q keep g rs)"

section \<open>The row order is total\<close>

text \<open>Ties by a key: events before single records, shards upwards, identifiers downwards.\<close>

fun tie_key :: "tie \<Rightarrow> int list" where
  "tie_key (TieEvent s i) = [0, int s, - sint i]"
| "tie_key (TieSingle i) = [1, - sint i]"

lemma tie_break_key: "tie_break a b = lex_cmp cmp_ord (tie_key a) (tie_key b)"
  by (cases "(a, b)" rule: tie_break.cases) (auto simp: i64_cmp_def cmp_ord_def)

lemma comparison_swapped: "comparison cmp ok \<Longrightarrow> comparison (\<lambda>x y. cmp y x) ok"
  unfolding comparison_def by blast

lemma comparison_i64: "comparison i64_cmp (\<lambda>_. True)"
  unfolding i64_cmp_def using comparison_key [OF comparison_linear, of sint] by simp

lemma comparison_tie_break: "comparison (\<lambda>l r. tie_break (row_tie l) (row_tie r)) (\<lambda>_. True)"
  unfolding tie_break_key
  using comparison_key [OF comparison_linear_lists, of "\<lambda>r. tie_key (row_tie r)"] by simp

lemma then_with_if: "then_with a b = (if a \<noteq> Equal then a else b)"
  by (cases a) simp_all

lemma comparison_sort_keys: "comparison (sort_keys_cmp d ks) (\<lambda>_. True)"
proof (induction ks)
  case Nil
  show ?case by unfold_locales simp_all
next
  case (Cons key ks)
  let ?f = "\<lambda>r :: row. field_or_null r (sk_field key)"
  have f: "comparison (\<lambda>l r. language_cmp d (?f l) (?f r)) (\<lambda>_. True)"
    using comparison_key [OF comparison_language, where key = ?f] by simp
  have g: "comparison (\<lambda>l r. if sk_descending key then language_cmp d (?f r) (?f l) else language_cmp d (?f l) (?f r)) (\<lambda>_. True)"
    using f comparison_swapped [OF f] by (cases "sk_descending key") simp_all
  have "sort_keys_cmp d (key # ks) = (\<lambda>l r. then_with
      (if sk_descending key then language_cmp d (?f r) (?f l) else language_cmp d (?f l) (?f r)) (sort_keys_cmp d ks l r))"
  proof (intro ext)
    fix l r
    have "language_cmp d (?f r) (?f l) = reverse (language_cmp d (?f l) (?f r))"
      by (rule comparison.swap [OF f]) simp_all
    then show "sort_keys_cmp d (key # ks) l r = then_with
        (if sk_descending key then language_cmp d (?f r) (?f l) else language_cmp d (?f l) (?f r)) (sort_keys_cmp d ks l r)"
      by (simp add: Let_def then_with_if)
  qed
  with comparison_then [OF g Cons.IH] show ?case by simp
qed

lemma row_cmp_then:
  "row_cmp d q = (\<lambda>l r. then_with (sort_keys_cmp d (q_sort q) l r)
     (then_with (i64_cmp (timestamp r) (timestamp l)) (tie_break (row_tie l) (row_tie r))))"
  by (intro ext) (auto simp: row_cmp_def split: ordering.splits)

lemma comparison_row: "comparison (row_cmp d q) (\<lambda>_. True)"
proof -
  have "comparison (\<lambda>l r. i64_cmp (timestamp r) (timestamp l)) (\<lambda>_. True)"
    using comparison_key [OF comparison_swapped [OF comparison_i64], of timestamp] by simp
  then show ?thesis
    unfolding row_cmp_then by (intro comparison_then comparison_sort_keys comparison_tie_break)
qed

interpretation row_order: total_comparison "row_cmp d q" for d q
  by (rule total_comparison.intro) (rule comparison_row)

section \<open>Trimming while gathering\<close>

lemma gathered_add_None: "gathered_add d y limit q None g r = (Ok (), g') \<Longrightarrow> g_rows g' = g_rows g @ [r]"
  by (auto simp: gathered_add_def Let_def split: prod.splits sum.splits)

lemma gathered_add_Some:
  "gathered_add d y limit q (Some k) g r = (Ok (), g') \<Longrightarrow>
     g_rows g' = g_rows g @ [r] \<or> g_rows g' = take k (sort_rows d q (g_rows g @ [r]))"
  by (auto simp: gathered_add_def Let_def split: prod.splits sum.splits if_splits)

lemma gather_None: "gather d y limit q None g rs = (Ok (), g') \<Longrightarrow> g_rows g' = g_rows g @ rs"
  by (induction rs arbitrary: g) (auto dest!: gathered_add_None split: prod.splits sum.splits)

lemma gather_Some:
  "gather d y limit q (Some k) g rs = (Ok (), g') \<Longrightarrow>
     take k (sort_rows d q (g_rows g' @ ys)) = take k (sort_rows d q (g_rows g @ rs @ ys))"
proof (induction rs arbitrary: g)
  case (Cons r rs)
  then obtain h where h: "gathered_add d y limit q (Some k) g r = (Ok (), h)"
    "gather d y limit q (Some k) h rs = (Ok (), g')" by (auto split: prod.splits sum.splits)
  from Cons.IH [OF h(2)] gathered_add_Some [OF h(1)] show ?case
    using row_order.take_sort_by_trim [of k d q "g_rows g @ [r]" "rs @ ys"] by (auto simp: sort_rows_def)
qed simp

lemma drop_min_length: "drop (min n (length xs)) xs = drop n xs"
  by (cases "n \<le> length xs") (simp_all add: min_def)

lemma apply_pagination_eq:
  "apply_pagination q xs = (case q_take q of Some t \<Rightarrow> take (unat t) (drop (unat (q_skip q)) xs) | None \<Rightarrow> drop (unat (q_skip q)) xs)"
  by (simp add: apply_pagination_def drop_min_length Let_def)

lemma apply_pagination_keep:
  assumes "q_take q = Some t" and k: "saturating_add (unat t) (unat (q_skip q)) = k"
    and "take k xs = take k ys" and "length xs \<le> USIZE_MAX" and "length ys \<le> USIZE_MAX"
  shows "apply_pagination q xs = apply_pagination q ys"
proof (cases "unat t + unat (q_skip q) \<le> USIZE_MAX")
  case True
  with assms(3) k have "take (unat t + unat (q_skip q)) xs = take (unat t + unat (q_skip q)) ys"
    by (simp add: saturating_add_def)
  with assms(1) show ?thesis by (simp add: apply_pagination_eq take_drop add.commute)
next
  case False
  with assms(3-5) k have "xs = ys" by (simp add: saturating_add_def)
  then show ?thesis by simp
qed

lemma gather_length:
  "gather d y limit q keep g rs = (Ok (), g') \<Longrightarrow> length (g_rows g') \<le> length (g_rows g) + length rs"
proof (induction rs arbitrary: g)
  case (Cons r rs)
  then obtain h where h: "gathered_add d y limit q keep g r = (Ok (), h)"
    "gather d y limit q keep h rs = (Ok (), g')" by (auto split: prod.splits sum.splits)
  then have "length (g_rows h) \<le> Suc (length (g_rows g))"
    by (cases keep) (auto dest: gathered_add_None gathered_add_Some simp: sort_rows_def)
  with Cons.IH [OF h(2)] show ?case by simp
qed simp

text \<open>
  C28. A sorted query may forget. While it gathers rows it now and then sorts what it has and keeps only
  the best \<open>SKIP + TAKE\<close>; if the memory budget never refuses a row, the page it returns is the page of
  the whole set of rows, sorted at once.
\<close>

theorem trimmed_sort_exact:
  assumes "gather d y limit q (keep_of q False) \<lparr>g_rows = [], g_held = h, g_used = u\<rparr> rs = (Ok (), g')"
    and "length rs \<le> USIZE_MAX"
  shows "order_result_rows d q False (g_rows g') = order_result_rows d q False rs"
proof (cases "q_take q")
  case None
  with gather_None [of d y limit q _ rs g'] assms(1) show ?thesis by (simp add: keep_of_def)
next
  case (Some t)
  let ?k = "saturating_add (unat t) (unat (q_skip q))"
  have "take ?k (sort_rows d q (g_rows g')) = take ?k (sort_rows d q rs)"
    using gather_Some [of d y limit q ?k _ rs g' "[]"] assms(1) Some by (simp add: keep_of_def)
  with Some have "apply_pagination q (sort_rows d q (g_rows g')) = apply_pagination q (sort_rows d q rs)"
    by (rule apply_pagination_keep [OF _ refl])
      (use assms gather_length [OF assms(1)] in \<open>simp_all add: sort_rows_def\<close>)
  then show ?thesis by (simp add: order_result_rows_def)
qed

theorem trimmed_sort_exact_witness:
  "let r = (\<lambda>i. \<lparr>row_record = Map.empty, row_identifier = ''a'', row_at = i, row_metric_labels = [], row_tie = TieSingle i\<rparr>);
       q = \<lparr>q_source = Events None, q_since = None, q_until = None, q_predicates = [], q_cross_filters = [],
         q_sort = [], q_take = Some 1, q_skip = 1, q_select = [], q_aggregate = None, q_transform = None,
         q_metric_aggregate = None, q_stream = False, q_index = None\<rparr>;
       g = gather (\<lambda>_. []) \<lparr>size_of_value = 32, size_of_string = 24, size_of_row = 120\<rparr> 1000000 q (keep_of q False)
         \<lparr>g_rows = [], g_held = held_new, g_used = 0\<rparr> [r 1, r 2, r 3] in
     fst g = Ok () \<and> order_result_rows (\<lambda>_. []) q False (g_rows (snd g)) = [r 2]"
proof -
  let ?r = "\<lambda>i. \<lparr>row_record = Map.empty, row_identifier = ''a'', row_at = i, row_metric_labels = [], row_tie = TieSingle i\<rparr>"
  let ?q = "\<lparr>q_source = Events None, q_since = None, q_until = None, q_predicates = [], q_cross_filters = [],
         q_sort = [], q_take = Some 1, q_skip = 1, q_select = [], q_aggregate = None, q_transform = None,
         q_metric_aggregate = None, q_stream = False, q_index = None\<rparr>"
  let ?g = "gather (\<lambda>_. []) \<lparr>size_of_value = 32, size_of_string = 24, size_of_row = 120\<rparr> 1000000 ?q (keep_of ?q False)
         \<lparr>g_rows = [], g_held = held_new, g_used = 0\<rparr> [?r 1, ?r 2, ?r 3]"
  have g: "fst ?g = Ok ()"
    by (simp add: gathered_add_def held_add_def held_set_def held_new_def row_size_def record_size_def heap_def
        div_ceil_def granules_def HELD_GRANULE_def saturating_add_def saturating_mul_def USIZE_MAX_def TRIM_AT_def
        keep_of_def Let_def)
  then have "?g = (Ok (), snd ?g)" by (metis prod.collapse)
  from trimmed_sort_exact [OF this]
  have "order_result_rows (\<lambda>_. []) ?q False (g_rows (snd ?g)) = order_result_rows (\<lambda>_. []) ?q False [?r 1, ?r 2, ?r 3]"
    by (simp add: USIZE_MAX_def)
  also have "\<dots> = [?r 2]"
    by (simp add: order_result_rows_def sort_rows_def row_cmp_def apply_pagination_def timestamp_def i64_cmp_def cmp_ord_def Let_def)
  finally show ?thesis using g by (simp add: Let_def)
qed

end
