(* ===== verification/Held_Budget.thy ===== *)
theory Held_Budget
  imports Rows
begin

text \<open>
  The memory budget every running query shares (\<^verbatim>\<open>eventd/src/query/executor.rs\<close>, \<^verbatim>\<open>Held\<close> over \<^verbatim>\<open>HeldBudget\<close>),
  as the steps of any number of queries on one counter. Each update of the counter is one atomic
  operation, so the interleavings of the threads are the interleavings of the steps. A query that is
  refused more memory ends; until it does, what it has reserved stays reserved.
\<close>

section \<open>Steps\<close>

text \<open>The counter, and for each query what it holds and whether it still runs.\<close>

type_synonym budget = "nat \<times> (held \<times> bool) list"

inductive budget_step :: "nat \<Rightarrow> budget \<Rightarrow> budget \<Rightarrow> bool" for limit where
  start: "budget_step limit (used, qs) (used, qs @ [(held_new, True)])"
| change: "i < length qs \<Longrightarrow> qs ! i = (h, True) \<Longrightarrow> bytes \<le> USIZE_MAX \<Longrightarrow>
     held_set limit used h bytes = (res, used', h') \<Longrightarrow>
     budget_step limit (used, qs) (used', qs[i := (h', res = Ok ())])"
| finish: "i < length qs \<Longrightarrow>
     budget_step limit (used, qs) (held_drop used (fst (qs ! i)), take i qs @ drop (Suc i) qs)"

inductive reachable_budget :: "nat \<Rightarrow> budget \<Rightarrow> bool" for limit where
  initial: "reachable_budget limit (0, [])"
| step: "reachable_budget limit b \<Longrightarrow> budget_step limit b b' \<Longrightarrow> reachable_budget limit b'"

inductive_cases budget_stepE: "budget_step limit b b'"

section \<open>The invariant\<close>

definition total_reserved :: "(held \<times> bool) list \<Rightarrow> nat" where
  "total_reserved qs = sum_list (map (\<lambda>(h, _). reserved h) qs)"

definition total_held :: "(held \<times> bool) list \<Rightarrow> nat" where
  "total_held qs = sum_list (map (\<lambda>(h, running). if running then holding h else 0) qs)"

definition held_ok :: "held \<Rightarrow> bool" where
  "held_ok h \<longleftrightarrow> reserved h = granules (holding h) \<and> holding h \<le> USIZE_MAX"

definition budget_inv :: "nat \<Rightarrow> budget \<Rightarrow> bool" where
  "budget_inv limit = (\<lambda>(used, qs).
     used = total_reserved qs \<and> used \<le> limit \<and> list_all (\<lambda>(h, running). running \<longrightarrow> held_ok h) qs)"

lemma div_ceil_bound: "0 < g \<Longrightarrow> b \<le> div_ceil b g * g"
  using dividend_less_div_times [of g b] by (auto simp: div_ceil_def dvd_div_mult_self mod_eq_0_iff_dvd)

lemma granules_bound: "b \<le> USIZE_MAX \<Longrightarrow> b \<le> granules b"
  using div_ceil_bound [of HELD_GRANULE b] by (simp add: granules_def saturating_mul_def HELD_GRANULE_def)

lemma div_ceil_mono: "0 < g \<Longrightarrow> a \<le> b \<Longrightarrow> div_ceil a g \<le> div_ceil b g"
proof -
  assume g: "0 < g" and ab: "a \<le> b"
  have eq: "div_ceil n g = (n + (g - 1)) div g" for n
  proof -
    have "n + (g - 1) = (n div g) * g + (n mod g + (g - 1))" by simp
    then have "(n + (g - 1)) div g = n div g + (n mod g + (g - 1)) div g"
      using g by (metis div_mult_self3 mult.commute less_not_refl)
    moreover have "(n mod g + (g - 1)) div g = (if n mod g = 0 then 0 else 1)"
      using g mod_less_divisor [OF g, of n] by (auto intro: div_nat_eqI)
    ultimately show ?thesis by (simp add: div_ceil_def)
  qed
  show ?thesis unfolding eq using ab by (intro div_le_mono) simp
qed

lemma granules_mono: "a \<le> b \<Longrightarrow> granules a \<le> granules b"
  using div_ceil_mono [of HELD_GRANULE a b]
  by (auto simp: granules_def saturating_mul_def HELD_GRANULE_def min_def)

lemma total_reserved_update:
  "i < length qs \<Longrightarrow> total_reserved (qs[i := (h', a)]) + reserved (fst (qs ! i)) = total_reserved qs + reserved h'"
  by (induction qs arbitrary: i) (auto simp: total_reserved_def split: nat.splits)

lemma total_reserved_remove:
  "i < length qs \<Longrightarrow> total_reserved (take i qs @ drop (Suc i) qs) + reserved (fst (qs ! i)) = total_reserved qs"
  using arg_cong [OF id_take_nth_drop, of i qs total_reserved] by (simp add: total_reserved_def case_prod_beta)

lemma held_set_effect:
  assumes "held_set limit used h bytes = (res, used', h')" and "reserved h \<le> used" and "used \<le> limit"
  shows "used' + reserved h = used + reserved h'" and "used' \<le> limit"
    and "res = Ok () \<Longrightarrow> reserved h' = granules bytes \<and> holding h' = bytes"
  using assms by (auto simp: held_set_def Let_def fetch_sub_def split: if_splits)

lemma shrinking_succeeds: "held_ok h \<Longrightarrow> bytes \<le> holding h \<Longrightarrow> fst (held_set limit used h bytes) = Ok ()"
  using granules_mono [of bytes "holding h"] by (auto simp: held_ok_def held_set_def Let_def)

lemma budget_step_inv: "budget_inv limit b \<Longrightarrow> budget_step limit b b' \<Longrightarrow> budget_inv limit b'"
proof (erule budget_stepE)
  fix used qs
  assume "budget_inv limit b" "b = (used, qs)" "b' = (used, qs @ [(held_new, True)])"
  then show ?thesis
    by (simp add: budget_inv_def total_reserved_def held_ok_def held_new_def granules_def div_ceil_def saturating_mul_def)
next
  fix i qs h bytes used res used' h'
  assume inv: "budget_inv limit b" and b: "b = (used, qs)" "b' = (used', qs[i := (h', res = Ok ())])"
    and i: "i < length qs" "qs ! i = (h, True)" and bytes: "bytes \<le> USIZE_MAX"
    and set: "held_set limit used h bytes = (res, used', h')"
  have "reserved h \<le> used"
    using inv b total_reserved_remove [OF i(1)] i(2) by (simp add: budget_inv_def)
  with inv b have e: "used' + reserved h = used + reserved h'" "used' \<le> limit"
    "res = Ok () \<Longrightarrow> reserved h' = granules bytes \<and> holding h' = bytes"
    using held_set_effect [OF set] by (auto simp: budget_inv_def)
  have "used' = total_reserved (qs[i := (h', res = Ok ())])"
    using total_reserved_update [OF i(1), of h' "res = Ok ()"] e(1) inv b i(2) by (simp add: budget_inv_def)
  moreover have "res = Ok () \<longrightarrow> held_ok h'" using e(3) bytes by (simp add: held_ok_def)
  ultimately show ?thesis using inv b e(2)
    by (auto simp: budget_inv_def list_all_iff dest!: set_update_subset_insert [THEN subsetD])
next
  fix i qs used
  assume inv: "budget_inv limit b" and b: "b = (used, qs)" "b' = (held_drop used (fst (qs ! i)), take i qs @ drop (Suc i) qs)"
    and i: "i < length qs"
  then show ?thesis using total_reserved_remove [OF i]
    by (auto simp: budget_inv_def held_drop_def fetch_sub_def list_all_iff dest: in_set_takeD in_set_dropD)
qed

lemma reachable_budget_inv: "reachable_budget limit b \<Longrightarrow> budget_inv limit b"
  by (induction rule: reachable_budget.induct) (simp add: budget_inv_def total_reserved_def, rule budget_step_inv)

lemma total_held_reserved:
  "list_all (\<lambda>(h, running). running \<longrightarrow> held_ok h) qs \<Longrightarrow> total_held qs \<le> total_reserved qs"
  by (induction qs) (auto simp: total_held_def total_reserved_def held_ok_def dest: granules_bound intro: add_mono)

section \<open>Properties\<close>

text \<open>
  C29. The budget holds however many queries run. After any sequence of steps of any number of queries
  the shared counter is exactly what the queries have reserved, it is within the limit, and so is all
  the memory the running queries hold together; and giving memory back is never refused.
\<close>

theorem held_within_limit:
  "reachable_budget limit (used, qs) \<Longrightarrow>
     used = total_reserved qs \<and> total_held qs \<le> used \<and> used \<le> limit \<and>
     (\<forall>h bytes. (h, True) \<in> set qs \<longrightarrow> bytes \<le> holding h \<longrightarrow> fst (held_set limit used h bytes) = Ok ())"
  using reachable_budget_inv [of limit "(used, qs)"] total_held_reserved [of qs]
  by (auto simp: budget_inv_def list_all_iff intro: shrinking_succeeds)

theorem held_within_limit_witness:
  "let h = \<lparr>reserved = 131072, holding = 70000\<rparr> in
     reachable_budget 200000 (131072, [(h, True), (\<lparr>reserved = 0, holding = 100000\<rparr>, False)]) \<and>
     total_held [(h, True), (\<lparr>reserved = 0, holding = 100000\<rparr>, False)] \<le> 200000"
proof -
  let ?h = "\<lparr>reserved = 131072, holding = 70000\<rparr>" and ?k = "\<lparr>reserved = 0, holding = 100000\<rparr>"
  have a: "reachable_budget 200000 (0, [(held_new, True), (held_new, True)])"
    using reachable_budget.step [OF reachable_budget.step [OF reachable_budget.initial budget_step.start] budget_step.start]
    by simp
  have "held_set 200000 0 held_new 70000 = (Ok (), 131072, ?h)"
    by (simp add: held_set_def held_new_def granules_def div_ceil_def saturating_mul_def HELD_GRANULE_def USIZE_MAX_def Let_def)
  from reachable_budget.step [OF a budget_step.change [OF _ _ _ this, of 0 "[(held_new, True), (held_new, True)]"]]
  have b: "reachable_budget 200000 (131072, [(?h, True), (held_new, True)])" by (simp add: USIZE_MAX_def)
  have "held_set 200000 131072 held_new 100000 = (Err HeldLimit, 131072, ?k)"
    by (simp add: held_set_def held_new_def granules_def div_ceil_def saturating_mul_def HELD_GRANULE_def USIZE_MAX_def Let_def)
  from reachable_budget.step [OF b budget_step.change [OF _ _ _ this, of 1 "[(?h, True), (held_new, True)]"]]
  have c: "reachable_budget 200000 (131072, [(?h, True), (?k, False)])" by (simp add: USIZE_MAX_def)
  with held_within_limit [OF c] show ?thesis by (simp add: Let_def)
qed

end
