(* ===== verification/Row_Access.thy ===== *)
theory Row_Access
  imports Rows Query_Eval "HOL-Library.List_Lexorder" "HOL-Library.Char_ord"
begin

text \<open>
  Access control on the rows of a query (\<^verbatim>\<open>eventd/src/query/executor.rs\<close>): the fields a query refers to,
  the per-query cache of the authorizer's answers, and the authorization of a row, which drops a row
  that has a denied field the query refers to and removes every other denied field. The authorizer
  itself asks the kernel; its answers, which depend on the generation of the security descriptors,
  the record's identifier and the fields, are an argument.
\<close>

section \<open>The fields a query refers to\<close>

definition source_fields :: "source \<Rightarrow> string list" where
  "source_fields src =
     (case src of
        Logs _ error_only containing \<Rightarrow>
          (if error_only then [''is_error''] else []) @ (if containing \<noteq> None then [''message''] else [])
      | Metric _ (Some labels) \<Rightarrow> fold expr_fields labels []
      | _ \<Rightarrow> [])"

definition aggregate_fields :: "record_aggregate \<Rightarrow> string list" where
  "aggregate_fields a =
     (case a of
        CountBy field \<Rightarrow> [field]
      | Distinct field \<Rightarrow> [field]
      | TopBy _ field \<Rightarrow> [field]
      | Group groups f \<Rightarrow>
          groups @ (case f of GSum field \<Rightarrow> [field] | GAvg field \<Rightarrow> [field] | GMin field \<Rightarrow> [field] | GMax field \<Rightarrow> [field] | GCount \<Rightarrow> []))"

definition referenced_fields :: "query \<Rightarrow> string list" where
  "referenced_fields q =
     (let fs = source_fields (q_source q);
          fs = fold expr_fields (q_predicates q) fs;
          fs = fold push_field (map sk_field (q_sort q)) fs;
          fs = fs @ (case q_aggregate q of Some a \<Rightarrow> aggregate_fields a | None \<Rightarrow> []);
          fs = fs @ (if q_transform q \<noteq> None \<or> q_metric_aggregate q \<noteq> None then [''value''] else []) in
      remdups (sort fs))"

section \<open>The cache\<close>

type_synonym access = "string list option"
type_synonym authorizer = "u64 \<Rightarrow> string \<Rightarrow> string list \<Rightarrow> query_error + access"

record authorization_cache =
  ac_generation :: u64
  ac_entries :: "string \<times> string list \<Rightarrow> access option"
  ac_identifiers :: "string \<times> string list \<Rightarrow> bool option"

definition cache_new :: "u64 \<Rightarrow> authorization_cache" where
  "cache_new generation = \<lparr>ac_generation = generation, ac_entries = Map.empty, ac_identifiers = Map.empty\<rparr>"

definition cache_refresh :: "u64 \<Rightarrow> authorization_cache \<Rightarrow> authorization_cache" where
  "cache_refresh generation c =
     (if ac_generation c \<noteq> generation
      then \<lparr>ac_generation = generation, ac_entries = Map.empty, ac_identifiers = Map.empty\<rparr> else c)"

text \<open>
  A question asks for the generation first and then, if the answer is not cached, the authorizer; the
  descriptors may change in between, so the two generations are separate arguments.
\<close>

definition cache_may_read ::
  "(u64 \<Rightarrow> string \<Rightarrow> string list \<Rightarrow> query_error + bool) \<Rightarrow> u64 \<Rightarrow> u64 \<Rightarrow> authorization_cache \<Rightarrow> string \<Rightarrow> string list \<Rightarrow>
     (query_error + bool) \<times> authorization_cache" where
  "cache_may_read may_read generation answering c identifier fs =
     (let c = cache_refresh generation c in
      case ac_identifiers c (identifier, fs) of
        Some visible \<Rightarrow> (Ok visible, c)
      | None \<Rightarrow>
          (case may_read answering identifier fs of
             Err e \<Rightarrow> (Err e, c)
           | Ok visible \<Rightarrow> (Ok visible, c\<lparr>ac_identifiers := (ac_identifiers c)((identifier, fs) \<mapsto> visible)\<rparr>)))"

definition cache_check ::
  "authorizer \<Rightarrow> u64 \<Rightarrow> u64 \<Rightarrow> authorization_cache \<Rightarrow> string \<Rightarrow> string list \<Rightarrow> (query_error + access) \<times> authorization_cache" where
  "cache_check check generation answering c identifier fs =
     (let c = cache_refresh generation c in
      case ac_entries c (identifier, fs) of
        Some allowed \<Rightarrow> (Ok allowed, c)
      | None \<Rightarrow>
          (case check answering identifier fs of
             Err e \<Rightarrow> (Err e, c)
           | Ok allowed \<Rightarrow> (Ok allowed, c\<lparr>ac_entries := (ac_entries c)((identifier, fs) \<mapsto> allowed)\<rparr>)))"

section \<open>Rows\<close>

text \<open>The record's fields and the referenced ones, sorted, each once.\<close>

definition asked_fields :: "fields \<Rightarrow> string list \<Rightarrow> string list" where
  "asked_fields record referenced = sorted_list_of_set (dom record \<union> set referenced)"

definition authorize_row ::
  "authorizer \<Rightarrow> u64 \<Rightarrow> u64 \<Rightarrow> row \<Rightarrow> string list \<Rightarrow> authorization_cache \<Rightarrow> (query_error + row option) \<times> authorization_cache" where
  "authorize_row check generation answering r referenced c =
     (case cache_check check generation answering c (row_identifier r) (asked_fields (row_record r) referenced) of
        (Err e, c) \<Rightarrow> (Err e, c)
      | (Ok None, c) \<Rightarrow> (Ok None, c)
      | (Ok (Some allowed), c) \<Rightarrow>
          if list_ex (\<lambda>field. field \<notin> set allowed) referenced then (Ok None, c)
          else (Ok (Some (r\<lparr>row_record := row_record r |` set allowed\<rparr>)), c))"

text \<open>
  The identifiers whose records may be visible, asked before any is read, and all under one generation:
  the loop starts again when the descriptors changed meanwhile. The generations it observes, one after
  the other, are an argument. It need not end, so that a run that does not is the value \<open>None\<close>.
\<close>

fun may_read_all ::
  "(u64 \<Rightarrow> string \<Rightarrow> string list \<Rightarrow> query_error + bool) \<Rightarrow> (nat \<Rightarrow> u64) \<Rightarrow> string list \<Rightarrow> string list \<Rightarrow> authorization_cache \<Rightarrow>
     nat \<Rightarrow> (query_error + string list) \<times> authorization_cache \<times> nat" where
  "may_read_all may_read gen [] fs c t = (Ok [], c, t)"
| "may_read_all may_read gen (i # ids) fs c t =
     (case cache_may_read may_read (gen t) (gen (t + 1)) c i fs of
        (Err e, c) \<Rightarrow> (Err e, c, t + 2)
      | (Ok visible, c) \<Rightarrow>
          (case may_read_all may_read gen ids fs c (t + 2) of
             (Err e, c, t) \<Rightarrow> (Err e, c, t)
           | (Ok allowed, c, t) \<Rightarrow> (Ok (if visible then i # allowed else allowed), c, t)))"

partial_function (option) authorize_identifiers ::
  "(u64 \<Rightarrow> string \<Rightarrow> string list \<Rightarrow> query_error + bool) \<Rightarrow> (nat \<Rightarrow> u64) \<Rightarrow> string list \<Rightarrow> string list \<Rightarrow> authorization_cache \<Rightarrow>
     nat \<Rightarrow> ((query_error + string list) \<times> authorization_cache \<times> nat) option" where
  "authorize_identifiers may_read gen ids fs c t =
     (let c = cache_refresh (gen t) c; generation = gen (t + 1) in
      case may_read_all may_read gen (sort ids) fs c (t + 2) of
        (Err e, c, t) \<Rightarrow> Some (Err e, c, t)
      | (Ok allowed, c, t) \<Rightarrow>
          if gen t = generation then Some (Ok allowed, c, t + 1)
          else authorize_identifiers may_read gen ids fs c (t + 1))"

section \<open>Evaluation sees only the fields a predicate names\<close>

lemma evaluate_agree:
  "(\<And>field. field \<in> fields_in e \<Longrightarrow> r field = r' field) \<Longrightarrow> evaluate d ns e r = evaluate d ns e r'"
  by (induction e) (auto simp: present_def cong: if_cong)

lemma set_fold_expr_fields: "set (fold expr_fields es out) = set out \<union> (\<Union>e \<in> set es. fields_in e)"
  by (induction es arbitrary: out) auto

lemma set_fold_push_field: "set (fold push_field fs out) = set out \<union> set fs"
  by (induction fs arbitrary: out) (auto simp: push_field_def)

lemma predicates_referenced: "e \<in> set (q_predicates q) \<Longrightarrow> fields_in e \<subseteq> set (referenced_fields q)"
  by (auto simp: referenced_fields_def Let_def set_fold_expr_fields set_fold_push_field)

section \<open>The cache is up to date\<close>

text \<open>
  An entry answers for a generation from the cache's own up to the present one; once the cache has been
  refreshed the two are the same.
\<close>

definition answered :: "(u64 \<Rightarrow> 'k \<Rightarrow> query_error + 'a) \<Rightarrow> u64 \<Rightarrow> u64 \<Rightarrow> ('k \<Rightarrow> 'a option) \<Rightarrow> bool" where
  "answered ask from now m \<longleftrightarrow>
     from \<le> now \<and> (\<forall>k a. m k = Some a \<longrightarrow> (\<exists>g. from \<le> g \<and> g \<le> now \<and> ask g k = Ok a))"

lemma answered_later: "answered ask from now m \<Longrightarrow> now \<le> later \<Longrightarrow> answered ask from later m"
  unfolding answered_def by (meson order.trans)

lemma answered_now: "answered ask g g m \<Longrightarrow> m k = Some a \<Longrightarrow> ask g k = Ok a"
  unfolding answered_def by (metis order.antisym)

lemma answered_empty [simp]: "answered ask g g Map.empty"
  by (simp add: answered_def)

lemma answered_insert:
  "answered ask from now m \<Longrightarrow> Ok a = ask now k \<Longrightarrow> answered ask from now (m(k \<mapsto> a))"
  by (auto simp: answered_def dest: sym)

definition cache_ok ::
  "authorizer \<Rightarrow> (u64 \<Rightarrow> string \<Rightarrow> string list \<Rightarrow> query_error + bool) \<Rightarrow> u64 \<Rightarrow> authorization_cache \<Rightarrow> bool" where
  "cache_ok check may_read now c \<longleftrightarrow>
     answered (\<lambda>g (i, fs). check g i fs) (ac_generation c) now (ac_entries c) \<and>
     answered (\<lambda>g (i, fs). may_read g i fs) (ac_generation c) now (ac_identifiers c)"

lemma cache_new_ok: "cache_ok check may_read g (cache_new g)"
  by (simp add: cache_ok_def cache_new_def)

lemma cache_refresh_ok:
  "cache_ok check may_read now c \<Longrightarrow> now \<le> g \<Longrightarrow>
     cache_ok check may_read g (cache_refresh g c) \<and> ac_generation (cache_refresh g c) = g"
  by (auto simp: cache_ok_def cache_refresh_def dest: answered_later)

lemma cache_ok_later: "cache_ok check may_read now c \<Longrightarrow> now \<le> later \<Longrightarrow> cache_ok check may_read later c"
  by (auto simp: cache_ok_def dest: answered_later)

lemma cache_check_ok:
  assumes "cache_ok check may_read now c" and "now \<le> g" and "g \<le> h" and "cache_check check g h c i fs = (res, c')"
  shows "(res = check g i fs \<or> res = check h i fs) \<and> cache_ok check may_read h c'"
proof -
  let ?c = "cache_refresh g c"
  have ok: "cache_ok check may_read g ?c" "ac_generation ?c = g" using cache_refresh_ok [OF assms(1,2)] by auto
  show ?thesis
  proof (cases "ac_entries ?c (i, fs)")
    case (Some a)
    then have "check g i fs = Ok a" using ok answered_now [of "\<lambda>g (i, fs). check g i fs"] by (fastforce simp: cache_ok_def)
    with Some assms(3,4) ok show ?thesis by (auto simp: cache_check_def Let_def intro: cache_ok_later)
  next
    case None
    with assms(3,4) ok cache_ok_later [OF ok(1) assms(3)] show ?thesis
      by (auto simp: cache_check_def Let_def cache_ok_def intro!: answered_insert split: sum.splits)
  qed
qed

lemma cache_may_read_ok:
  assumes "cache_ok check may_read now c" and "now \<le> g" and "g \<le> h" and "cache_may_read may_read g h c i fs = (res, c')"
  shows "(res = may_read g i fs \<or> res = may_read h i fs) \<and> cache_ok check may_read h c'"
proof -
  let ?c = "cache_refresh g c"
  have ok: "cache_ok check may_read g ?c" "ac_generation ?c = g" using cache_refresh_ok [OF assms(1,2)] by auto
  show ?thesis
  proof (cases "ac_identifiers ?c (i, fs)")
    case (Some a)
    then have "may_read g i fs = Ok a" using ok answered_now [of "\<lambda>g (i, fs). may_read g i fs"] by (fastforce simp: cache_ok_def)
    with Some assms(3,4) ok show ?thesis by (auto simp: cache_may_read_def Let_def intro: cache_ok_later)
  next
    case None
    with assms(3,4) ok cache_ok_later [OF ok(1) assms(3)] show ?thesis
      by (auto simp: cache_may_read_def Let_def cache_ok_def intro!: answered_insert split: sum.splits)
  qed
qed

section \<open>Identifiers under one generation\<close>

lemma may_read_all_ok:
  assumes mono: "\<And>s t. s \<le> t \<Longrightarrow> gen s \<le> (gen t :: u64)"
    and "cache_ok check may_read now c" and "now \<le> gen t" and "may_read_all may_read gen ids fs c t = (res, c', t')"
  shows "t \<le> t' \<and> (\<exists>now'. cache_ok check may_read now' c' \<and> now' \<le> gen t') \<and>
    (\<forall>allowed. res = Ok allowed \<longrightarrow> gen t = gen t' \<longrightarrow> allowed = filter (\<lambda>i. may_read (gen t) i fs = Ok True) ids)"
  using assms(2-)
proof (induction ids arbitrary: c t now res c' t')
  case (Cons i ids)
  obtain r1 c1 where r1: "cache_may_read may_read (gen t) (gen (t + 1)) c i fs = (r1, c1)" by fastforce
  from cache_may_read_ok [OF Cons.prems(1,2) mono r1]
  have ok1: "r1 = may_read (gen t) i fs \<or> r1 = may_read (gen (t + 1)) i fs" "cache_ok check may_read (gen (t + 1)) c1" by auto
  show ?case
  proof (cases r1)
    case (Inl e)
    with r1 Cons.prems(3) ok1(2) mono [of "t + 1" "t + 2"] show ?thesis by auto
  next
    case (Inr visible)
    obtain r2 c2 t2 where r2: "may_read_all may_read gen ids fs c1 (t + 2) = (r2, c2, t2)"
      by (cases "may_read_all may_read gen ids fs c1 (t + 2)")
    from Cons.IH [OF ok1(2) mono r2] have IH: "t + 2 \<le> t2"
      "\<exists>now'. cache_ok check may_read now' c2 \<and> now' \<le> gen t2"
      "\<And>allowed. r2 = Ok allowed \<Longrightarrow> gen (t + 2) = gen t2 \<Longrightarrow>
         allowed = filter (\<lambda>i. may_read (gen (t + 2)) i fs = Ok True) ids"
      by auto
    have "t' = t2" "c' = c2" using Cons.prems(3) r1 r2 Inr by (auto split: sum.splits)
    moreover have "gen (t + 1) = gen t \<and> gen (t + 2) = gen t" if "gen t = gen t2"
      using that IH(1) mono [of t "t + 1"] mono [of "t + 1" "t + 2"] mono [of "t + 2" t2] by auto
    ultimately show ?thesis using IH Cons.prems(3) r1 r2 Inr ok1(1) by (auto split: sum.splits)
  qed
qed auto

lemma authorize_identifiers_returns:
  assumes mono: "\<And>s t. s \<le> t \<Longrightarrow> gen s \<le> (gen t :: u64)" and stable: "\<And>t. n \<le> t \<Longrightarrow> gen t = gen n"
  shows "cache_ok check may_read now c \<Longrightarrow> now \<le> gen t \<Longrightarrow>
    \<exists>res c' t'. authorize_identifiers may_read gen ids fs c t = Some (res, c', t') \<and>
      (\<forall>allowed. res = Ok allowed \<longrightarrow>
         (\<exists>s < t'. allowed = filter (\<lambda>i. may_read (gen s) i fs = Ok True) (sort ids)))"
proof (induction "n - t" arbitrary: c t now rule: less_induct)
  case less
  let ?c = "cache_refresh (gen t) c"
  have c: "cache_ok check may_read (gen t) ?c" using cache_refresh_ok [OF less.prems] by simp
  obtain r2 c2 t2 where r2: "may_read_all may_read gen (sort ids) fs ?c (t + 2) = (r2, c2, t2)"
    by (cases "may_read_all may_read gen (sort ids) fs ?c (t + 2)")
  from may_read_all_ok [OF mono c mono r2] obtain now2 where ok: "t + 2 \<le> t2" "cache_ok check may_read now2 c2" "now2 \<le> gen t2"
    "\<And>a. r2 = Ok a \<Longrightarrow> gen (t + 2) = gen t2 \<Longrightarrow> a = filter (\<lambda>i. may_read (gen (t + 2)) i fs = Ok True) (sort ids)"
    by auto
  note unfold = authorize_identifiers.simps [of may_read gen ids fs c t, unfolded Let_def r2]
  show ?case
  proof (cases r2)
    case (Inl e)
    with unfold show ?thesis by simp
  next
    case (Inr allowed)
    show ?thesis
    proof (cases "gen t2 = gen (t + 1)")
      case True
      with mono [of "t + 1" "t + 2"] mono [of "t + 2" t2] ok(1) have "gen (t + 2) = gen t2" by auto
      with ok(4) [OF Inr] ok(1) have "\<exists>s < t2 + 1. allowed = filter (\<lambda>i. may_read (gen s) i fs = Ok True) (sort ids)"
        by (intro exI [of _ "t + 2"]) simp
      with unfold Inr True show ?thesis by simp
    next
      case False
      then have "\<not> n \<le> t + 1" using stable [of "t + 1"] stable [of t2] ok(1) by force
      then have "n - (t2 + 1) < n - t" using ok(1) by linarith
      moreover have "now2 \<le> gen (t2 + 1)" using ok(3) mono [of t2 "t2 + 1"] by (simp add: order.trans)
      ultimately show ?thesis using less.hyps [of "t2 + 1" now2 c2] ok(2) unfold Inr False by simp
    qed
  qed
qed

section \<open>Questions in sequence\<close>

text \<open>Questions put to one cache, each with the generation it sees and the one it is answered under.\<close>

fun run_checks ::
  "authorizer \<Rightarrow> authorization_cache \<Rightarrow> (u64 \<times> u64 \<times> string \<times> string list) list \<Rightarrow> (query_error + access) list" where
  "run_checks check c [] = []"
| "run_checks check c ((g, h, i, fs) # calls) =
     (let (res, c) = cache_check check g h c i fs in res # run_checks check c calls)"

fun advancing :: "u64 \<Rightarrow> (u64 \<times> u64 \<times> string \<times> string list) list \<Rightarrow> bool" where
  "advancing now [] \<longleftrightarrow> True"
| "advancing now ((g, h, _, _) # calls) \<longleftrightarrow> now \<le> g \<and> g \<le> h \<and> advancing h calls"

lemma run_checks_ok:
  "cache_ok check may_read now c \<Longrightarrow> advancing now calls \<Longrightarrow>
     list_all2 (\<lambda>(g, h, i, fs) res. res = check g i fs \<or> res = check h i fs) calls (run_checks check c calls)"
proof (induction calls arbitrary: c now)
  case (Cons call calls)
  obtain g h i fs where call: "call = (g, h, i, fs)" by (cases call)
  obtain res c1 where r: "cache_check check g h c i fs = (res, c1)" by fastforce
  from Cons.prems call have le: "now \<le> g" "g \<le> h" by auto
  from cache_check_ok [OF Cons.prems(1) le r] Cons.IH Cons.prems(2) call r show ?case by auto
qed simp

section \<open>Properties\<close>

text \<open>
  C31. The cache never gives a stale answer. Whatever a query asks in whatever order, and however the
  security descriptors change while it runs, each answer is one the authorizer gives under a
  generation of the descriptors that was current during that question.
\<close>

theorem authorization_cache_current:
  "advancing g calls \<Longrightarrow>
     list_all2 (\<lambda>(g, h, i, fs) res. res = check g i fs \<or> res = check h i fs) calls (run_checks check (cache_new g) calls)"
  by (rule run_checks_ok [OF cache_new_ok])

theorem authorization_cache_current_witness:
  "run_checks (\<lambda>g i fs. Ok (if g = 0 then Some fs else None)) (cache_new 0)
     [(0, 0, ''a'', [''x'']), (0, 0, ''a'', [''x'']), (1, 1, ''a'', [''x''])] = [Ok (Some [''x'']), Ok (Some [''x'']), Ok None]"
  using authorization_cache_current [of 0 "[(0, 0, ''a'', [''x'']), (0, 0, ''a'', [''x'']), (1, 1, ''a'', [''x''])]"
      "\<lambda>g i fs. Ok (if g = 0 then Some fs else None)"]
  by (auto simp: list_all2_Cons1)

text \<open>
  The identifiers a query may read are decided under one generation of the descriptors, however
  they change while the question is put for each; and the decision is reached once they stop changing.
\<close>

theorem identifiers_under_one_generation:
  assumes "mono gen" and "\<And>t. n \<le> t \<Longrightarrow> gen t = gen n"
  shows "\<exists>res c' t'. authorize_identifiers may_read gen ids fs (cache_new (gen 0)) 1 = Some (res, c', t') \<and>
    (\<forall>allowed. res = Ok allowed \<longrightarrow>
       (\<exists>s < t'. allowed = filter (\<lambda>i. may_read (gen s) i fs = Ok True) (sort ids)))"
  using authorize_identifiers_returns [of gen n _ may_read "gen 0" "cache_new (gen 0)" 1 ids fs, OF _ assms(2) cache_new_ok] assms(1)
  by (simp add: mono_def)

theorem identifiers_under_one_generation_witness:
  "\<exists>y. authorize_identifiers (\<lambda>g i fs. Ok (g = 2)) (\<lambda>t. if t < 4 then 1 else 2) [''b'', ''a''] [] (cache_new 1) 1 = Some y"
proof -
  let ?gen = "\<lambda>t :: nat. if t < 4 then 1 else 2 :: u64"
  have "mono ?gen" by (simp add: mono_def)
  from identifiers_under_one_generation [OF this, of 4 "\<lambda>g i fs. Ok (g = 2)" "[''b'', ''a'']" "[]"] show ?thesis by auto
qed

text \<open>
  C30. A denied field cannot be probed. A row that is let through shows exactly the allowed fields of
  the stored record, all the fields the query refers to are among them, and each predicate of the query
  has the value it has on the stored record; a row with a denied field the query refers to is dropped.
\<close>

theorem authorized_rows:
  assumes "cache_ok check may_read g c" and "authorize_row check g g r (referenced_fields q) c = (Ok shown, c')"
  shows "case check g (row_identifier r) (asked_fields (row_record r) (referenced_fields q)) of
      Ok (Some allowed) \<Rightarrow>
        if set (referenced_fields q) \<subseteq> set allowed then
          shown = Some (r\<lparr>row_record := row_record r |` set allowed\<rparr>) \<and>
          (\<forall>e \<in> set (q_predicates q).
             evaluate d ns e (row_record r |` set allowed) = evaluate d ns e (row_record r))
        else shown = None
    | Ok None \<Rightarrow> shown = None
    | Err e \<Rightarrow> False"
proof -
  obtain res c1 where rc: "cache_check check g g c (row_identifier r)
      (asked_fields (row_record r) (referenced_fields q)) = (res, c1)" by fastforce
  have "evaluate d ns e (row_record r |` set allowed) = evaluate d ns e (row_record r)"
    if "e \<in> set (q_predicates q)" "set (referenced_fields q) \<subseteq> set allowed" for e allowed
    using predicates_referenced [OF that(1)] that(2) by (intro evaluate_agree) auto
  with cache_check_ok [OF assms(1) order.refl order.refl rc] rc assms(2) show ?thesis
    by (auto simp: authorize_row_def list_ex_iff subset_iff split: sum.splits option.splits if_splits)
qed

theorem authorized_rows_witness:
  "let r = \<lparr>row_record = [''name'' \<mapsto> String ''a'', ''secret'' \<mapsto> Bool True], row_identifier = ''boot'', row_at = 1,
         row_metric_labels = [], row_tie = TieSingle 1\<rparr>;
       q = \<lparr>q_source = Events None, q_since = None, q_until = None, q_predicates = [Compare ''name'' OpEqual (LString ''A'')],
         q_cross_filters = [], q_sort = [], q_take = None, q_skip = 0, q_select = [], q_aggregate = None, q_transform = None,
         q_metric_aggregate = None, q_stream = False, q_index = None\<rparr> in
     fst (authorize_row (\<lambda>g i fs. Ok (Some [''name''])) 0 0 r (referenced_fields q) (cache_new 0)) =
       Ok (Some (r\<lparr>row_record := [''name'' \<mapsto> String ''a'']\<rparr>))"
proof -
  let ?r = "\<lparr>row_record = [''name'' \<mapsto> String ''a'', ''secret'' \<mapsto> Bool True], row_identifier = ''boot'', row_at = 1,
         row_metric_labels = [], row_tie = TieSingle 1\<rparr>"
  let ?q = "\<lparr>q_source = Events None, q_since = None, q_until = None, q_predicates = [Compare ''name'' OpEqual (LString ''A'')],
         q_cross_filters = [], q_sort = [], q_take = None, q_skip = 0, q_select = [], q_aggregate = None, q_transform = None,
         q_metric_aggregate = None, q_stream = False, q_index = None\<rparr>"
  let ?a = "authorize_row (\<lambda>g i fs. Ok (Some [''name''])) 0 0 ?r (referenced_fields ?q) (cache_new 0)"
  have fs: "referenced_fields ?q = [''name'']"
    by (simp add: referenced_fields_def source_fields_def push_field_def)
  have rec: "row_record ?r |` {''name''} = [''name'' \<mapsto> String ''a'']" by (simp add: restrict_map_def fun_eq_iff)
  obtain shown c' where a: "?a = (Ok shown, c')"
    by (simp add: authorize_row_def cache_check_def cache_refresh_def cache_new_def Let_def fs)
  from authorized_rows [OF cache_new_ok [of _ "\<lambda>g i fs. Ok True" 0] a]
  have "shown = Some (?r\<lparr>row_record := row_record ?r |` {''name''}\<rparr>)" unfolding fs by simp
  with a rec show ?thesis by (simp add: Let_def)
qed

end
