(* ===== verification/Time_Ranges.thy ===== *)
theory Time_Ranges
  imports Rows Query_Eval "HOL-Library.Signed_Division"
begin

text \<open>
  The time ranges of a query (\<^verbatim>\<open>eventd/src/query/executor.rs\<close>): the narrowing of the range the stores are
  read over, and the ranges in which the conditions on other record types hold, as sorted lists of
  half-open ranges. A 64-bit time is an integer here, and saturating operations are written out. A range
  list stands for a set of times: merging is union, intersecting is intersection, and the binary search
  is membership.
\<close>

section \<open>Ranges\<close>

definition I64_MIN :: int where "I64_MIN = - (2 ^ 63)"
definition I64_MAX :: int where "I64_MAX = 2 ^ 63 - 1"

definition saturate :: "int \<Rightarrow> int" where
  "saturate t = max I64_MIN (min I64_MAX t)"

record time_range =
  tr_start :: int
  tr_end :: int

definition split_window :: "int \<Rightarrow> int \<times> int" where
  "split_window window = (let lower = window sdiv 2 in (lower, window - lower))"

definition range_order :: "time_range \<Rightarrow> time_range \<Rightarrow> ordering" where
  "range_order a b = then_with (cmp_ord (tr_start a) (tr_start b)) (cmp_ord (tr_end a) (tr_end b))"

definition merge_step :: "time_range list \<Rightarrow> time_range \<Rightarrow> time_range list" where
  "merge_step merged r =
     (if merged \<noteq> [] \<and> tr_start r \<le> tr_end (last merged)
      then butlast merged @ [(last merged)\<lparr>tr_end := max (tr_end (last merged)) (tr_end r)\<rparr>]
      else merged @ [r])"

definition merge_ranges :: "time_range list \<Rightarrow> time_range list" where
  "merge_ranges ranges = foldl merge_step [] (sort_by range_order ranges)"

definition existence_ranges :: "int list \<Rightarrow> int \<Rightarrow> int \<Rightarrow> int \<Rightarrow> int \<Rightarrow> time_range list" where
  "existence_ranges timestamps since until lower upper =
     merge_ranges (List.map_filter (\<lambda>t.
       let start = max (saturate (t - lower)) since; finish = min (saturate (t + upper)) until in
       if start < finish then Some \<lparr>tr_start = start, tr_end = finish\<rparr> else None) timestamps)"

fun intersect_ranges :: "time_range list \<Rightarrow> time_range list \<Rightarrow> time_range list" where
  "intersect_ranges (l # ls) (r # rs) =
     (let start = max (tr_start l) (tr_start r); finish = min (tr_end l) (tr_end r) in
      (if start < finish then [\<lparr>tr_start = start, tr_end = finish\<rparr>] else []) @
      (if tr_end l \<le> tr_end r then intersect_ranges ls (r # rs) else intersect_ranges (l # ls) rs))"
| "intersect_ranges _ _ = []"

text \<open>\<^verbatim>\<open>partition_point\<close> on ranges whose starts ascend: how many start by then.\<close>

definition range_contains :: "time_range list \<Rightarrow> int \<Rightarrow> bool" where
  "range_contains ranges t =
     (let index = length (takeWhile (\<lambda>r. tr_start r \<le> t) ranges) in
      index \<noteq> 0 \<and> t < tr_end (ranges ! (index - 1)))"

section \<open>The range the stores are read over\<close>

definition clamp :: "int \<Rightarrow> int" where
  "clamp v = (if I64_MIN \<le> v \<and> v \<le> I64_MAX then v else if v < 0 then I64_MIN else I64_MAX)"

definition time_bounds :: "operator \<Rightarrow> int \<Rightarrow> int option \<times> int option" where
  "time_bounds op bound =
     (case op of
        OpLess \<Rightarrow> (None, Some bound)
      | OpLessEqual \<Rightarrow> (None, Some (bound + 1))
      | OpGreater \<Rightarrow> (Some (bound + 1), None)
      | OpGreaterEqual \<Rightarrow> (Some bound, None)
      | OpEqual \<Rightarrow> (Some bound, Some (bound + 1))
      | _ \<Rightarrow> (None, None))"

definition narrow_step :: "string \<Rightarrow> expr \<Rightarrow> int \<times> int \<Rightarrow> int \<times> int" where
  "narrow_step time_field e = (\<lambda>(since, until).
     case e of
       Compare field op v \<Rightarrow>
         if field \<noteq> time_field then (since, until)
         else
           (case (case v of LSigned n \<Rightarrow> Some (sint n) | LUnsigned n \<Rightarrow> Some (uint n) | _ \<Rightarrow> None) of
              None \<Rightarrow> (since, until)
            | Some bound \<Rightarrow>
                (let (lower, upper) = time_bounds op bound in
                 (case lower of Some l \<Rightarrow> max since (clamp l) | None \<Rightarrow> since,
                  case upper of Some u \<Rightarrow> if u \<le> I64_MAX then min until (clamp u) else until | None \<Rightarrow> until)))
     | _ \<Rightarrow> (since, until))"

definition narrow_by_timestamp :: "expr list \<Rightarrow> string \<Rightarrow> int \<Rightarrow> int \<Rightarrow> int \<times> int" where
  "narrow_by_timestamp predicates time_field since until = fold (narrow_step time_field) predicates (since, until)"

section \<open>Conditions on a metric\<close>

definition f64_is_finite :: "f64 \<Rightarrow> bool" where
  "f64_is_finite w \<longleftrightarrow> f64_exponent w \<noteq> 2047"

text \<open>
  The ranges in which a metric's latest sample satisfies the comparison, from its samples in time order:
  each counts until the next one. The first may be the one that precedes the range.
\<close>

fun sample_ranges ::
  "((qvalue \<times> qvalue) list \<Rightarrow> string) \<Rightarrow> operator \<Rightarrow> literal \<Rightarrow> int \<Rightarrow> int \<Rightarrow> (int \<times> f64) list \<Rightarrow>
     query_error abort + time_range list" where
  "sample_ranges debug op v since until [] = Ok []"
| "sample_ranges debug op v since until ((t, number) # samples) =
     (if \<not> f64_is_finite number then Err (Raised NonFinite)
      else
        let start = max t since;
            finish = min (case samples of (next, _) # _ \<Rightarrow> next | [] \<Rightarrow> until) until in
        case (if start < finish then metric_comparison debug number op v else Ok False) of
          Err _ \<Rightarrow> Err Panicked
        | Ok holds \<Rightarrow>
            rbind (sample_ranges debug op v since until samples) (\<lambda>ranges.
              Ok (if holds then \<lparr>tr_start = start, tr_end = finish\<rparr> # ranges else ranges)))"

definition metric_true_ranges ::
  "((qvalue \<times> qvalue) list \<Rightarrow> string) \<Rightarrow> operator \<Rightarrow> literal \<Rightarrow> int \<Rightarrow> int \<Rightarrow> (int \<times> f64) option \<Rightarrow> (int \<times> f64) list \<Rightarrow>
     query_error abort + time_range list" where
  "metric_true_ranges debug op v since until preceding samples =
     rbind (sample_ranges debug op v since until
       ((if I64_MIN < since then (case preceding of Some s \<Rightarrow> [s] | None \<Rightarrow> []) else []) @ samples)) (\<lambda>ranges.
       Ok (merge_ranges ranges))"

definition metric_condition_at ::
  "((qvalue \<times> qvalue) list \<Rightarrow> string) \<Rightarrow> operator \<Rightarrow> literal \<Rightarrow> f64 option \<Rightarrow> query_error abort + bool" where
  "metric_condition_at debug op v sample =
     (case sample of
        Some number \<Rightarrow>
          if f64_is_finite number then
            (case metric_comparison debug number op v of Ok b \<Rightarrow> Ok b | Err _ \<Rightarrow> Err Panicked)
          else Err (Raised NonFinite)
      | None \<Rightarrow> Ok False)"

section \<open>Combining the conditions\<close>

text \<open>The ranges of each condition come from the stores; a failure ends the query.\<close>

fun combine_ranges :: "(cross_filter \<Rightarrow> query_error abort + time_range list) \<Rightarrow> cross_filter list \<Rightarrow> time_range list \<Rightarrow>
    query_error abort + time_range list" where
  "combine_ranges filter_ranges [] combined = Ok combined"
| "combine_ranges filter_ranges (f # fs) combined =
     rbind (filter_ranges f) (\<lambda>ranges.
       let combined = intersect_ranges combined ranges in
       if combined = [] then Ok combined else combine_ranges filter_ranges fs combined)"

definition cross_type_ranges :: "(cross_filter \<Rightarrow> query_error abort + time_range list) \<Rightarrow> cross_filter list \<Rightarrow> int \<Rightarrow> int \<Rightarrow>
    query_error abort + time_range list" where
  "cross_type_ranges filter_ranges filters since until =
     combine_ranges filter_ranges filters [\<lparr>tr_start = since, tr_end = until\<rparr>]"

section \<open>Range lists as sets of times\<close>

definition times_of :: "time_range \<Rightarrow> int set" where
  "times_of r = {tr_start r..<tr_end r}"

definition times :: "time_range list \<Rightarrow> int set" where
  "times ranges = (\<Union>r \<in> set ranges. times_of r)"

text \<open>In order, none empty, and with a gap between any two.\<close>

definition separated :: "time_range list \<Rightarrow> bool" where
  "separated ranges \<longleftrightarrow>
     sorted_wrt (\<lambda>a b. tr_end a < tr_start b) ranges \<and> list_all (\<lambda>r. tr_start r < tr_end r) ranges"

lemma times_simps [simp]:
  "times [] = {}" "times (r # rs) = times_of r \<union> times rs" "times (xs @ ys) = times xs \<union> times ys"
  by (auto simp: times_def)

lemma separated_simps [simp]:
  "separated []"
  "separated (r # rs) \<longleftrightarrow> (\<forall>s \<in> set rs. tr_end r < tr_start s) \<and> tr_start r < tr_end r \<and> separated rs"
  by (auto simp: separated_def)

lemma separated_append:
  "separated (xs @ ys) \<longleftrightarrow> separated xs \<and> separated ys \<and> (\<forall>x \<in> set xs. \<forall>y \<in> set ys. tr_end x < tr_start y)"
  by (auto simp: separated_def sorted_wrt_append)

lemma range_contains_Cons:
  "range_contains (r # rs) t \<longleftrightarrow>
     tr_start r \<le> t \<and> (if range_contains rs t \<or> (rs \<noteq> [] \<and> tr_start (hd rs) \<le> t) then range_contains rs t else t < tr_end r)"
  by (cases rs) (auto simp: range_contains_def Let_def nth_Cons')

lemma range_contains_iff: "separated ranges \<Longrightarrow> range_contains ranges t \<longleftrightarrow> t \<in> times ranges"
proof (induction ranges)
  case Nil
  show ?case by (simp add: range_contains_def)
next
  case (Cons r rs)
  have later: "tr_end r < t" if "t \<in> times rs" using that Cons.prems by (force simp: times_def times_of_def)
  show ?case
  proof (cases "t \<in> times rs")
    case True
    with Cons later show ?thesis by (auto simp: range_contains_Cons)
  next
    case False
    have "\<not> t < tr_end r" if "rs \<noteq> []" "tr_start (hd rs) \<le> t" using Cons.prems that by (cases rs) auto
    with False Cons show ?thesis by (auto simp: range_contains_Cons times_of_def)
  qed
qed

section \<open>Merging is union\<close>

lemma merge_step_ok:
  assumes "separated m" and "tr_start r < tr_end r" and "m \<noteq> [] \<Longrightarrow> tr_start (last m) \<le> tr_start r"
  shows "separated (merge_step m r) \<and> times (merge_step m r) = times m \<union> times_of r \<and>
    merge_step m r \<noteq> [] \<and> tr_start (last (merge_step m r)) \<le> tr_start r"
proof (cases "m = []")
  case True
  with assms(2) show ?thesis by (simp add: merge_step_def)
next
  case False
  then obtain ms p where m: "m = ms @ [p]" by (metis append_butlast_last_id)
  with assms have p: "tr_start p \<le> tr_start r" "tr_start p < tr_end p" "separated ms" "\<forall>x \<in> set ms. tr_end x < tr_start p"
    by (auto simp: separated_append)
  show ?thesis
  proof (cases "tr_start r \<le> tr_end p")
    case True
    then have "times_of (p\<lparr>tr_end := max (tr_end p) (tr_end r)\<rparr>) = times_of p \<union> times_of r"
      using p(1,2) by (auto simp: times_of_def)
    with True m p show ?thesis by (auto simp: merge_step_def separated_append)
  next
    case False
    have "\<forall>x \<in> set ms. tr_end x < tr_start r" using p(1,4) by auto
    with False m p assms(2) show ?thesis by (auto simp: merge_step_def separated_append)
  qed
qed

lemma foldl_merge_step:
  assumes "separated m" and "\<forall>r \<in> set rs. tr_start r < tr_end r" and "sorted_wrt (\<lambda>a b. tr_start a \<le> tr_start b) rs"
    and "m \<noteq> [] \<Longrightarrow> \<forall>r \<in> set rs. tr_start (last m) \<le> tr_start r"
  shows "separated (foldl merge_step m rs) \<and> times (foldl merge_step m rs) = times m \<union> times rs"
  using assms
proof (induction rs arbitrary: m)
  case (Cons r rs)
  have step: "separated (merge_step m r)" "times (merge_step m r) = times m \<union> times_of r"
    "tr_start (last (merge_step m r)) \<le> tr_start r"
    using merge_step_ok [of m r] Cons.prems by auto
  have "separated (foldl merge_step (merge_step m r) rs) \<and>
      times (foldl merge_step (merge_step m r) rs) = times (merge_step m r) \<union> times rs"
    by (rule Cons.IH) (use Cons.prems step in fastforce)+
  with step(2) show ?case by auto
qed simp

lemma comparison_range_order: "comparison range_order (\<lambda>_. True)"
proof -
  have "comparison (\<lambda>a b. cmp_ord (key a) (key b)) (\<lambda>_. True)" for key :: "time_range \<Rightarrow> int"
    using comparison_key [OF comparison_linear, of key] by simp
  then show ?thesis unfolding range_order_def by (intro comparison_then)
qed

interpretation range_sort: total_comparison range_order
  by (rule total_comparison.intro) (rule comparison_range_order)

lemma merge_ranges_ok:
  assumes "\<forall>r \<in> set rs. tr_start r < tr_end r"
  shows "separated (merge_ranges rs) \<and> times (merge_ranges rs) = times rs"
proof -
  have "tr_start a \<le> tr_start b" if "range_order a b \<noteq> Greater" for a b
    using that by (auto simp: range_order_def cmp_ord_def split: if_splits)
  then have "sorted_wrt (\<lambda>a b. tr_start a \<le> tr_start b) (sort_by range_order rs)"
    by (intro sorted_wrt_mono_rel [OF _ range_sort.sorted_sort_by])
  with foldl_merge_step [of "[]" "sort_by range_order rs"] assms show ?thesis
    by (simp add: merge_ranges_def times_def)
qed

section \<open>Intersecting is intersection\<close>

lemma intersect_ranges_starts:
  "x \<in> set (intersect_ranges ls rs) \<Longrightarrow> \<exists>l \<in> set ls. \<exists>r \<in> set rs. tr_start x = max (tr_start l) (tr_start r)"
proof (induction ls rs rule: intersect_ranges.induct)
  case (1 l ls r rs)
  then show ?case by (cases "tr_end l \<le> tr_end r") (auto simp: Let_def split: if_splits)
qed auto

lemma intersect_ranges_after:
  "\<forall>x \<in> set ls. b < tr_start x \<Longrightarrow> \<forall>x \<in> set (intersect_ranges ls rs). b < tr_start x"
  "\<forall>x \<in> set rs. b < tr_start x \<Longrightarrow> \<forall>x \<in> set (intersect_ranges ls rs). b < tr_start x"
  by (force dest!: intersect_ranges_starts)+

lemma intersect_ranges_ok:
  "separated ls \<Longrightarrow> separated rs \<Longrightarrow>
     separated (intersect_ranges ls rs) \<and> times (intersect_ranges ls rs) = times ls \<inter> times rs"
proof (induction ls rs rule: intersect_ranges.induct)
  case (1 l ls r rs)
  let ?start = "max (tr_start l) (tr_start r)" and ?finish = "min (tr_end l) (tr_end r)"
  let ?head = "if ?start < ?finish then [\<lparr>tr_start = ?start, tr_end = ?finish\<rparr>] else []"
  have head: "times ?head = times_of l \<inter> times_of r" by (auto simp: times_of_def)
  have sep: "separated ?head" by simp
  have ls: "\<forall>x \<in> set ls. tr_end l < tr_start x" and rs: "\<forall>x \<in> set rs. tr_end r < tr_start x" using 1 by auto
  show ?case
  proof (cases "tr_end l \<le> tr_end r")
    case True
    have "times_of l \<inter> times rs = {}" using True rs by (force simp: times_def times_of_def)
    moreover have "\<forall>x \<in> set (intersect_ranges ls (r # rs)). tr_end l < tr_start x" using ls by (rule intersect_ranges_after)
    ultimately show ?thesis using True 1 head sep by (auto simp: Let_def separated_append)
  next
    case False
    have "times ls \<inter> times_of r = {}" using False ls by (force simp: times_def times_of_def)
    moreover have "\<forall>x \<in> set (intersect_ranges (l # ls) rs). tr_end r < tr_start x" using rs by (rule intersect_ranges_after)
    ultimately show ?thesis using False 1 head sep by (auto simp: Let_def separated_append)
  qed
qed auto

section \<open>Sets of times with an intersection\<close>

text \<open>What the combination of conditions relies on, whatever represents the sets.\<close>

locale time_sets =
  fixes wf :: "'r \<Rightarrow> bool" and elements :: "'r \<Rightarrow> int set" and inter :: "'r \<Rightarrow> 'r \<Rightarrow> 'r"
  assumes inter_wf: "wf a \<Longrightarrow> wf b \<Longrightarrow> wf (inter a b)"
    and inter_elements: "wf a \<Longrightarrow> wf b \<Longrightarrow> elements (inter a b) = elements a \<inter> elements b"
begin

primrec combine :: "('f \<Rightarrow> 'e + 'r) \<Rightarrow> ('r \<Rightarrow> bool) \<Rightarrow> 'f list \<Rightarrow> 'r \<Rightarrow> 'e + 'r" where
  "combine look stop [] a = Ok a"
| "combine look stop (f # fs) a =
     rbind (look f) (\<lambda>r. if stop (inter a r) then Ok (inter a r) else combine look stop fs (inter a r))"

lemma combine_elements:
  assumes "\<And>f r. look f = Ok r \<Longrightarrow> wf r" and "\<And>r. stop r \<Longrightarrow> elements r = {}"
  shows "wf a \<Longrightarrow> combine look stop fs a = Ok c \<Longrightarrow>
    wf c \<and> elements c = {t \<in> elements a. \<forall>f \<in> set fs. \<forall>r. look f = Ok r \<longrightarrow> t \<in> elements r}"
proof (induction fs arbitrary: a)
  case (Cons f fs)
  then obtain r where r: "look f = Ok r" "if stop (inter a r) then c = inter a r else combine look stop fs (inter a r) = Ok c"
    by (auto simp: rbind_Ok_iff split: if_splits)
  have wf: "wf (inter a r)" "elements (inter a r) = elements a \<inter> elements r"
    using inter_wf inter_elements assms(1) [OF r(1)] Cons.prems(1) by auto
  show ?case
  proof (cases "stop (inter a r)")
    case True
    with r assms(2) wf show ?thesis by auto
  next
    case False
    with Cons.IH [OF wf(1)] r wf(2) show ?thesis by auto
  qed
qed auto

end

interpretation ranges: time_sets separated times intersect_ranges
  by unfold_locales (simp_all add: intersect_ranges_ok)

lemma combine_ranges_eq:
  "combine_ranges filter_ranges fs combined = ranges.combine filter_ranges (\<lambda>r. r = []) fs combined"
  by (induction fs arbitrary: combined) (simp_all add: Let_def cong: rbind_cong if_cong)

section \<open>The latest sample\<close>

fun latest :: "int \<Rightarrow> (int \<times> f64) list \<Rightarrow> f64 option" where
  "latest t [] = None"
| "latest t ((s, v) # samples) = (case latest t samples of Some w \<Rightarrow> Some w | None \<Rightarrow> if s \<le> t then Some v else None)"

lemma latest_None: "(\<And>s v. (s, v) \<in> set samples \<Longrightarrow> t < s) \<Longrightarrow> latest t samples = None"
  by (induction samples) (force split: option.splits)+

lemma latest_Some: "(s, v) \<in> set samples \<Longrightarrow> s \<le> t \<Longrightarrow> latest t samples \<noteq> None"
  by (induction samples) (auto split: option.splits)

lemma metric_comparison_Ok: "\<exists>b. metric_comparison d number op v = Ok b"
  by (cases op; cases v) (auto simp: metric_comparison_def present_def compare_values_def string_operation_def)

lemma sample_ranges_ok:
  "sample_ranges d op v since until samples = Ok rs \<Longrightarrow> sorted (map fst samples) \<Longrightarrow>
     (\<forall>r \<in> set rs. tr_start r < tr_end r) \<and>
     (t \<in> times rs \<longleftrightarrow> since \<le> t \<and> t < until \<and> (\<exists>w. latest t samples = Some w \<and> metric_comparison d w op v = Ok True))"
proof (induction samples arbitrary: rs)
  case (Cons sample samples)
  obtain s w where sample: "sample = (s, w)" by (cases sample)
  let ?finish = "min (case samples of (next, _) # _ \<Rightarrow> next | [] \<Rightarrow> until) until"
  from Cons.prems sample obtain holds rs' where rs':
    "sample_ranges d op v since until samples = Ok rs'"
    "(if max s since < ?finish then metric_comparison d w op v else Ok False) = Ok holds"
    "rs = (if holds then \<lparr>tr_start = max s since, tr_end = ?finish\<rparr> # rs' else rs')"
    by (auto simp: Let_def rbind_Ok_iff split: if_splits sum.splits)
  have IH: "\<forall>r \<in> set rs'. tr_start r < tr_end r"
    "t \<in> times rs' \<longleftrightarrow> since \<le> t \<and> t < until \<and> (\<exists>w. latest t samples = Some w \<and> metric_comparison d w op v = Ok True)"
    using Cons.IH [OF rs'(1)] Cons.prems(2) by auto
  have span: "max s since < ?finish" if holds using rs'(2) that by (auto split: if_splits)
  show ?case
  proof (cases "samples = [] \<or> t < fst (hd samples)")
    case True
    with Cons.prems(2) have "latest t samples = None" by (intro latest_None) (cases samples; force)
    moreover have "t < until \<longrightarrow> t < ?finish" using True by (cases samples) auto
    ultimately show ?thesis using IH rs'(2,3) span sample
      by (auto simp: times_of_def split: if_splits)
  next
    case False
    then obtain next_t next_v rest where n: "samples = (next_t, next_v) # rest" "next_t \<le> t" by (cases samples) auto
    with latest_Some [of next_t next_v samples t] obtain u where "latest t samples = Some u" by auto
    with n IH rs'(3) span sample show ?thesis by (auto simp: times_of_def)
  qed
qed simp

lemma sample_ranges_no_panic: "sample_ranges d op v since until samples \<noteq> Err Panicked"
proof (induction samples)
  case (Cons sample samples)
  obtain s w where "sample = (s, w)" by (cases sample)
  with Cons metric_comparison_Ok [of d w op v] show ?case by (auto simp: Let_def rbind_Err_iff split: sum.splits if_splits)
qed simp

section \<open>Bounds a predicate puts on the time\<close>

lemma integer_compare:
  assumes "compare_values d op (Signed moment) (literal_value ns field v) = Ok True"
    and "(case v of LSigned n \<Rightarrow> Some (sint n) | LUnsigned n \<Rightarrow> Some (uint n) | _ \<Rightarrow> None) = Some bound"
    and "time_bounds op bound = (lower, upper)"
  shows "(case lower of Some l \<Rightarrow> l \<le> sint moment | None \<Rightarrow> True) \<and> (case upper of Some u \<Rightarrow> sint moment < u | None \<Rightarrow> True)"
proof -
  have number: "number_key (literal_value ns field v) = Some (Fin (rat_int bound))" "is_number (literal_value ns field v)"
    using assms(2) by (cases v; auto)+
  then have kind: "kind (literal_value ns field v) = 2" by (cases "literal_value ns field v") auto
  have "numeric_cmp (Signed moment) (literal_value ns field v) = Some (cmp_ord (sint moment) bound)"
    using number by (simp add: numeric_cmp_exact)
  then have eq: "language_equal (Signed moment) (literal_value ns field v) \<longleftrightarrow> sint moment = bound"
    by (subst language_equal.simps) simp
  have cmp: "language_cmp d (Signed moment) (literal_value ns field v) = cmp_ord (sint moment) bound"
    using number kind by (simp add: language_cmp_graded same_kind_cmp_def)
  show ?thesis using assms(1,3)
    by (cases op) (auto simp: compare_values_def time_bounds_def numeric_order_def cmp cmp_ord_def eq string_operation_def
        split: if_splits)
qed

lemma clamp_lower: "l \<le> t \<Longrightarrow> I64_MIN \<le> t \<Longrightarrow> clamp l \<le> t"
  by (auto simp: clamp_def I64_MIN_def I64_MAX_def)

lemma clamp_upper: "t < u \<Longrightarrow> u \<le> I64_MAX \<Longrightarrow> I64_MIN \<le> t \<Longrightarrow> t < clamp u"
  by (auto simp: clamp_def I64_MIN_def I64_MAX_def)

lemma sint_I64: "I64_MIN \<le> sint (moment :: i64)" "sint (moment :: i64) \<le> I64_MAX"
  using sint_ge [of moment] sint_lt [of moment] by (simp_all add: I64_MIN_def I64_MAX_def)

lemma narrow_step_keeps:
  assumes "evaluate d ns e record = Ok True" and "record time_field = Some (Signed moment)"
    and "since \<le> sint moment" and "sint moment < until" and "narrow_step time_field e (since, until) = (since', until')"
  shows "since \<le> since' \<and> until' \<le> until \<and> since' \<le> sint moment \<and> sint moment < until'"
proof (cases "\<exists>op v bound. e = Compare time_field op v \<and>
    (case v of LSigned n \<Rightarrow> Some (sint n) | LUnsigned n \<Rightarrow> Some (uint n) | _ \<Rightarrow> None) = Some bound")
  case True
  then obtain op v bound where e: "e = Compare time_field op v"
    "(case v of LSigned n \<Rightarrow> Some (sint n) | LUnsigned n \<Rightarrow> Some (uint n) | _ \<Rightarrow> None) = Some bound" by blast
  obtain lower upper where b: "time_bounds op bound = (lower, upper)" by fastforce
  have "compare_values d op (Signed moment) (literal_value ns time_field v) = Ok True"
    using assms(1,2) e(1) by (simp add: present_def)
  from integer_compare [OF this e(2) b] assms(3-5) e b sint_I64 [of moment] show ?thesis
    by (auto simp: narrow_step_def split: option.splits if_splits dest: clamp_lower clamp_upper)
next
  case False
  then have "narrow_step time_field e (since, until) = (since, until)"
    by (cases e) (auto simp: narrow_step_def split: option.splits)
  with assms show ?thesis by simp
qed

section \<open>Properties\<close>

text \<open>
  C32. Narrowing the range the stores are read over loses nothing: a record in the query's range that
  satisfies every predicate lies in the narrowed range, which is part of the query's range.
\<close>

theorem narrowing_keeps_rows:
  assumes "\<And>e. e \<in> set predicates \<Longrightarrow> evaluate d ns e record = Ok True" and "record time_field = Some (Signed moment)"
    and "since \<le> sint moment" and "sint moment < until"
    and "narrow_by_timestamp predicates time_field since until = (since', until')"
  shows "since \<le> since' \<and> until' \<le> until \<and> since' \<le> sint moment \<and> sint moment < until'"
  using assms
proof (induction predicates arbitrary: since until)
  case (Cons e predicates)
  obtain s u where su: "narrow_step time_field e (since, until) = (s, u)" by fastforce
  with narrow_step_keeps [of d ns e "record" time_field moment since until s u] Cons.prems(1) [of e] Cons.prems(2-4)
  have step: "since \<le> s" "u \<le> until" "s \<le> sint moment" "sint moment < u" by auto
  from Cons.IH [of s u] Cons.prems(1,2,5) su step show ?case by (fastforce simp: narrow_by_timestamp_def)
qed (simp add: narrow_by_timestamp_def)

theorem narrowing_keeps_rows_witness:
  "narrow_by_timestamp [Compare ''event.time'' OpLessEqual (LUnsigned 9), Compare ''event.time'' OpGreater (LSigned 3)]
     ''event.time'' 0 100 = (4, 10) \<and> (4 :: int) \<le> sint (7 :: i64)"
proof -
  let ?ps = "[Compare ''event.time'' OpLessEqual (LUnsigned 9), Compare ''event.time'' OpGreater (LSigned 3)]"
  have n: "narrow_by_timestamp ?ps ''event.time'' 0 100 = (4, 10)"
    by (simp add: narrow_by_timestamp_def narrow_step_def time_bounds_def clamp_def I64_MIN_def I64_MAX_def)
  have "evaluate (\<lambda>_. []) NsEvents e [''event.time'' \<mapsto> Signed 7] = Ok True" if "e \<in> set ?ps" for e
    using that by (auto simp: present_def compare_values_def numeric_order_def language_cmp.simps numeric_cmp_def
        compare_i64_u64_def cmp_ord_def)
  from narrowing_keeps_rows [OF this _ _ _ n, of 7] n show ?thesis by simp
qed

text \<open>
  A condition on another record type restricts a query to times near such a record: the ranges
  computed from the records' times are exactly the times of the query's range from \<open>lower\<close> before such
  a record up to \<open>upper\<close> after it, also where these sums leave the 64-bit range.
\<close>

theorem existence_ranges_exact:
  assumes "I64_MIN \<le> since" and "until \<le> I64_MAX"
  shows "range_contains (existence_ranges ts since until lower upper) t \<longleftrightarrow>
    since \<le> t \<and> t < until \<and> (\<exists>e \<in> set ts. e - lower \<le> t \<and> t < e + upper)"
proof -
  let ?range = "\<lambda>e. let start = max (saturate (e - lower)) since; finish = min (saturate (e + upper)) until in
       if start < finish then Some \<lparr>tr_start = start, tr_end = finish\<rparr> else None"
  let ?rs = "List.map_filter ?range ts"
  have mem: "r \<in> set ?rs \<longleftrightarrow> (\<exists>e \<in> set ts. ?range e = Some r)" for r by (rule in_set_map_filter)
  have one: "(\<exists>r. ?range e = Some r \<and> t \<in> times_of r) \<longleftrightarrow> since \<le> t \<and> t < until \<and> e - lower \<le> t \<and> t < e + upper" for e
    using assms by (auto simp: Let_def times_of_def saturate_def I64_MIN_def I64_MAX_def)
  have "\<forall>r \<in> set ?rs. tr_start r < tr_end r"
  proof
    fix r assume "r \<in> set ?rs"
    then obtain e where "?range e = Some r" using mem by blast
    then show "tr_start r < tr_end r" by (auto simp: Let_def split: if_splits)
  qed
  from merge_ranges_ok [OF this] have "range_contains (existence_ranges ts since until lower upper) t \<longleftrightarrow> t \<in> times ?rs"
    by (simp add: existence_ranges_def range_contains_iff)
  also have "\<dots> \<longleftrightarrow> (\<exists>e \<in> set ts. \<exists>r. ?range e = Some r \<and> t \<in> times_of r)" unfolding times_def using mem by blast
  finally show ?thesis unfolding one by blast
qed

theorem existence_ranges_exact_witness:
  "range_contains (existence_ranges [5, 30, 33] 0 100 2 3) 31"
  using existence_ranges_exact [of 0 100 "[5, 30, 33]" 2 3 31] by (simp add: I64_MIN_def I64_MAX_def)

text \<open>
  A condition on a metric holds at a time when the metric's latest sample at or before that time
  satisfies the comparison: the ranges computed from the samples are exactly these times, and of samples
  of one time the last counts.
\<close>

theorem metric_true_ranges_exact:
  assumes "metric_true_ranges d op v since until preceding samples = Ok rs"
    and "sorted (map fst samples)" and "case preceding of Some (t, _) \<Rightarrow> I64_MIN < since \<and> (\<forall>s \<in> set samples. t \<le> fst s) | None \<Rightarrow> True"
  shows "range_contains rs t \<longleftrightarrow> since \<le> t \<and> t < until \<and>
    (\<exists>w. latest t ((case preceding of Some s \<Rightarrow> [s] | None \<Rightarrow> []) @ samples) = Some w \<and> metric_comparison d w op v = Ok True)"
proof -
  let ?all = "(case preceding of Some s \<Rightarrow> [s] | None \<Rightarrow> []) @ samples"
  obtain rs' where rs': "sample_ranges d op v since until ?all = Ok rs'" "rs = merge_ranges rs'"
    using assms(1,3) by (auto simp: metric_true_ranges_def rbind_Ok_iff split: option.splits if_splits)
  have "sorted (map fst ?all)" using assms(2,3) by (auto split: option.splits)
  from sample_ranges_ok [OF rs'(1) this] merge_ranges_ok [of rs'] show ?thesis
    by (auto simp: rs'(2) range_contains_iff)
qed

theorem metric_true_ranges_exact_witness:
  "let rs = [\<lparr>tr_start = 20, tr_end = 40\<rparr>] in
     metric_true_ranges (\<lambda>_. []) OpGreater (LSigned 0) 10 50 (Some (3, 0)) [(20, 1), (40, 0)] = Ok rs \<and>
     range_contains rs 25 \<and> \<not> range_contains rs 40"
proof -
  have r: "metric_true_ranges (\<lambda>_. []) OpGreater (LSigned 0) 10 50 (Some (3, 0)) [(20, 1), (40, 0)] = Ok [\<lparr>tr_start = 20, tr_end = 40\<rparr>]"
    if "metric_comparison (\<lambda>_. []) 1 OpGreater (LSigned 0) = Ok True" "metric_comparison (\<lambda>_. []) 0 OpGreater (LSigned 0) = Ok False"
    using that by (simp add: metric_true_ranges_def merge_ranges_def merge_step_def f64_is_finite_def f64_exponent_def I64_MIN_def Let_def)
  have c: "metric_comparison (\<lambda>_. []) 1 OpGreater (LSigned 0) = Ok True" "metric_comparison (\<lambda>_. []) 0 OpGreater (LSigned 0) = Ok False"
    by (simp_all add: metric_comparison_def present_def compare_values_def numeric_order_def language_cmp_graded same_kind_cmp_def
        f64_is_nan_def f64_exponent_def ext_of_f64_def f64_is_infinite_def fval_def magnitude_def f64_mantissa_def f64_negative_def
        rat_int_def cmp_ord_def)
  from metric_true_ranges_exact [OF r [OF c], of 25] metric_true_ranges_exact [OF r [OF c], of 40] r [OF c] c show ?thesis
    by (simp add: Let_def I64_MIN_def)
qed

text \<open>
  C33. A query with several conditions on other record types selects the times at which all of them
  hold: when the ranges of each condition are in order and apart, the combined ranges contain exactly
  the times of the query's range that the ranges of every condition contain.
\<close>

theorem cross_type_ranges_exact:
  assumes "since < until" and "\<And>f rs. filter_ranges f = Ok rs \<Longrightarrow> separated rs"
    and "cross_type_ranges filter_ranges filters since until = Ok rs"
  shows "range_contains rs t \<longleftrightarrow> since \<le> t \<and> t < until \<and>
    (\<forall>f \<in> set filters. \<forall>rs'. filter_ranges f = Ok rs' \<longrightarrow> range_contains rs' t)"
proof -
  have "separated rs \<and> times rs = {t \<in> times [\<lparr>tr_start = since, tr_end = until\<rparr>].
      \<forall>f \<in> set filters. \<forall>rs'. filter_ranges f = Ok rs' \<longrightarrow> t \<in> times rs'}"
    using assms(3) unfolding cross_type_ranges_def combine_ranges_eq
    by (rule ranges.combine_elements [rotated 3]) (use assms(1,2) in auto)
  with assms(2) show ?thesis by (auto simp: range_contains_iff times_of_def)
qed

theorem cross_type_ranges_exact_witness:
  "let find_ranges = (\<lambda>f. Ok (if f = EventExists ''a'' then [\<lparr>tr_start = 2, tr_end = 9\<rparr>] else [\<lparr>tr_start = 5, tr_end = 20\<rparr>])) in
     cross_type_ranges find_ranges [EventExists ''a'', EventExists ''b''] 0 100 = Ok [\<lparr>tr_start = 5, tr_end = 9\<rparr>] \<and>
     range_contains [\<lparr>tr_start = 5, tr_end = 9\<rparr>] 7"
proof -
  let ?find = "\<lambda>f. Ok (if f = EventExists ''a'' then [\<lparr>tr_start = 2, tr_end = 9\<rparr>] else [\<lparr>tr_start = 5, tr_end = 20\<rparr>])"
  have r: "cross_type_ranges ?find [EventExists ''a'', EventExists ''b''] 0 100 = Ok [\<lparr>tr_start = 5, tr_end = 9\<rparr>]"
    by (simp add: cross_type_ranges_def Let_def)
  have "separated rs" if "?find f = Ok rs" for f rs using that by (auto split: if_splits)
  from cross_type_ranges_exact [OF _ this r, where t = 7] r show ?thesis
    by (simp add: Let_def range_contains_def)
qed

end
