(* ===== verification/Row_Scan.thy ===== *)
theory Row_Scan
  imports Row_Access Time_Ranges
begin

text \<open>
  Reading rows out of the stores (\<^verbatim>\<open>eventd/src/query/executor.rs\<close>): a shard's event rows and the log rows
  as records, the SELECT each is read with, the two orders of a scan, and the filter a row passes. The
  database is an argument that answers a SELECT with its rows, each possibly a failure, and whether the
  deadline has passed is an argument too, a function of the number of rows read so far. The columns are
  as the database library's typed getters return them.
\<close>

section \<open>Records\<close>

record event_row =
  er_id :: i64
  er_boot_id :: "u8 list"
  er_timestamp :: i64
  er_cpu_id :: "u64 option"
  er_sequence :: "u64 option"
  er_origin_class :: "u64 option"
  er_event_type :: string
  er_effective_token_guid :: "u8 list option"
  er_true_token_guid :: "u8 list option"
  er_process_guid :: "u8 list option"
  er_payload :: "u8 list option"

definition option_unsigned :: "u64 option \<Rightarrow> qvalue" where
  "option_unsigned v = (case v of None \<Rightarrow> Null | Some u \<Rightarrow> Unsigned u)"

definition option_guid :: "u8 list option \<Rightarrow> qvalue" where
  "option_guid v = (case Option.bind v guid_string of None \<Rightarrow> Null | Some s \<Rightarrow> String s)"

definition event_header :: "event_row \<Rightarrow> fields" where
  "event_header e = Map.empty(
     ''event.time'' \<mapsto> Signed (er_timestamp e),
     ''event.cpu'' \<mapsto> option_unsigned (er_cpu_id e),
     ''event.sequence'' \<mapsto> option_unsigned (er_sequence e),
     ''emitter.class'' \<mapsto> option_unsigned (er_origin_class e),
     ''event.type'' \<mapsto> String (er_event_type e),
     ''emitter.token.guid'' \<mapsto> option_guid (er_effective_token_guid e),
     ''emitter.true-token.guid'' \<mapsto> option_guid (er_true_token_guid e),
     ''emitter.process.guid'' \<mapsto> option_guid (er_process_guid e),
     ''event.boot.guid'' \<mapsto> option_guid (Some (er_boot_id e)))"

definition event_record :: "(u8 list \<Rightarrow> 'e + qvalue) \<Rightarrow> event_row \<Rightarrow> fields" where
  "event_record decode e =
     (case er_payload e of
        Some payload \<Rightarrow> flatten_event_payload decode payload (event_header e)
      | None \<Rightarrow> event_header e)"

definition event_result_row :: "(u8 list \<Rightarrow> 'e + qvalue) \<Rightarrow> nat \<Rightarrow> event_row \<Rightarrow> row" where
  "event_result_row decode shard e =
     \<lparr>row_record = event_record decode e, row_identifier = er_event_type e, row_at = er_timestamp e,
      row_metric_labels = [], row_tie = TieEvent shard (er_id e)\<rparr>"

record log_row =
  lr_id :: i64
  lr_boot_id :: "u8 list"
  lr_timestamp :: i64
  lr_origin :: string
  lr_is_error :: bool
  lr_message :: string
  lr_job_id :: "u8 list option"

definition log_record :: "log_row \<Rightarrow> fields" where
  "log_record l = Map.empty(
     ''timestamp'' \<mapsto> Signed (lr_timestamp l),
     ''origin'' \<mapsto> String (lr_origin l),
     ''is_error'' \<mapsto> Bool (lr_is_error l),
     ''message'' \<mapsto> String (lr_message l),
     ''boot_id'' \<mapsto> option_guid (Some (lr_boot_id l)),
     ''job_id'' \<mapsto> option_guid (lr_job_id l))"

definition log_result_row :: "log_row \<Rightarrow> row" where
  "log_result_row l =
     \<lparr>row_record = log_record l, row_identifier = lr_origin l, row_at = lr_timestamp l,
      row_metric_labels = [], row_tie = TieSingle (lr_id l)\<rparr>"

section \<open>Reading rows\<close>

datatype scan_order = Stored | Newest

datatype flow = More | Enough

definition DEADLINE_CHECK_ROWS :: nat where
  "DEADLINE_CHECK_ROWS = 1024"

type_synonym 'r stream = "(query_error + 'r) list"

fun next_event ::
  "(nat \<Rightarrow> bool) \<Rightarrow> string list \<Rightarrow> (u8 list \<Rightarrow> 'e + qvalue) \<Rightarrow> nat \<Rightarrow> event_row stream \<Rightarrow> nat \<Rightarrow>
     query_error + row option \<times> event_row stream \<times> nat" where
  "next_event late allowed decode shard [] rd = Ok (None, [], rd)"
| "next_event late allowed decode shard (Err e # rows) rd = Err e"
| "next_event late allowed decode shard (Ok r # rows) rd =
     (let rd = rd + 1 in
      if rd mod DEADLINE_CHECK_ROWS = 0 \<and> late rd then Err Timeout
      else if er_event_type r \<notin> set allowed then next_event late allowed decode shard rows rd
      else Ok (Some (event_result_row decode shard r), rows, rd))"

lemma next_event_length:
  "next_event late allowed decode shard rows rd = Ok (r, rows', rd') \<Longrightarrow>
     length rows' \<le> length rows \<and> (r \<noteq> None \<longrightarrow> length rows' < length rows)"
  by (induction late allowed decode shard rows rd rule: next_event.induct) (auto simp: Let_def split: if_splits)

text \<open>A visitor of rows has a state of its own; it may fail, panic or have seen enough.\<close>

type_synonym 's visit = "'s \<Rightarrow> row \<Rightarrow> (query_error abort + flow) \<times> 's"

function visit_stored ::
  "(nat \<Rightarrow> bool) \<Rightarrow> string list \<Rightarrow> (u8 list \<Rightarrow> 'e + qvalue) \<Rightarrow> nat \<Rightarrow> event_row stream \<Rightarrow> nat \<Rightarrow> 's visit \<Rightarrow> 's \<Rightarrow>
     (query_error abort + flow \<times> nat) \<times> 's" where
  "visit_stored late allowed decode shard rows rd visit s =
     (case next_event late allowed decode shard rows rd of
        Err e \<Rightarrow> (Err (Raised e), s)
      | Ok (None, _, rd) \<Rightarrow> (Ok (More, rd), s)
      | Ok (Some r, rows, rd) \<Rightarrow>
          (case visit s r of
             (Err e, s) \<Rightarrow> (Err e, s)
           | (Ok Enough, s) \<Rightarrow> (Ok (Enough, rd), s)
           | (Ok More, s) \<Rightarrow> visit_stored late allowed decode shard rows rd visit s))"
  by pat_completeness auto
termination
  by (relation "measure (\<lambda>(_, _, _, _, rows, _, _, _). length rows)") (auto dest: next_event_length)

declare visit_stored.simps [simp del]

definition head_cmp :: "nat \<times> i64 \<Rightarrow> nat \<times> i64 \<Rightarrow> ordering" where
  "head_cmp = (\<lambda>(left_shard, left) (right_shard, right).
     then_with (i64_cmp left right) (cmp_ord right_shard left_shard))"

definition newest_head :: "row option list \<Rightarrow> nat option" where
  "newest_head heads =
     map_option fst (max_by head_cmp
       (List.map_filter (\<lambda>(shard, head). map_option (\<lambda>r. (shard, timestamp r)) head) (enumerate 0 heads)))"

lemma comparison_head: "comparison head_cmp (\<lambda>_. True)"
proof -
  have a: "comparison (\<lambda>a b. i64_cmp (snd a) (snd b)) (\<lambda>_ :: nat \<times> i64. True)"
    using comparison_key [OF comparison_i64, of snd] by simp
  have b: "comparison (\<lambda>a b. cmp_ord (fst b) (fst a)) (\<lambda>_ :: nat \<times> i64. True)"
    using comparison_key [OF comparison_swapped [OF comparison_linear], of fst] by simp
  have "head_cmp = (\<lambda>a b. then_with (i64_cmp (snd a) (snd b)) (cmp_ord (fst b) (fst a)))"
    by (simp add: head_cmp_def fun_eq_iff)
  with comparison_then [OF a b] show ?thesis by simp
qed

interpretation head_order: total_comparison head_cmp
  by (rule total_comparison.intro) (rule comparison_head)

lemma heads_iff:
  "(i, t) \<in> set (List.map_filter (\<lambda>(shard, head). map_option (\<lambda>r. (shard, timestamp r)) head) (enumerate 0 heads)) \<longleftrightarrow>
     i < length heads \<and> (\<exists>r. heads ! i = Some r \<and> t = timestamp r)"
  by (auto simp: in_set_map_filter in_set_enumerate_eq) (force intro: bexI [of _ "(i, heads ! i)"] simp: in_set_enumerate_eq)

lemma newest_head_Some:
  assumes "newest_head heads = Some i"
  shows "i < length heads \<and> (\<exists>r. heads ! i = Some r \<and>
    (\<forall>j r'. j < length heads \<longrightarrow> heads ! j = Some r' \<longrightarrow> head_cmp (j, timestamp r') (i, timestamp r) \<noteq> Greater))"
proof -
  obtain t where "max_by head_cmp
      (List.map_filter (\<lambda>(shard, head). map_option (\<lambda>r. (shard, timestamp r)) head) (enumerate 0 heads)) = Some (i, t)"
    using assms by (auto simp: newest_head_def)
  from head_order.max_by_Some [OF this] show ?thesis unfolding heads_iff by (force simp: heads_iff)
qed

lemma newest_head_None: "newest_head heads = None \<Longrightarrow> i < length heads \<Longrightarrow> heads ! i = None"
  using heads_iff [of i _ heads] by (cases "heads ! i") (auto simp: newest_head_def head_order.max_by_None)

text \<open>A lane is a shard's first row that has not been visited and its rows behind that.\<close>

type_synonym lane = "row option \<times> event_row stream"

definition lane_size :: "lane \<Rightarrow> nat" where
  "lane_size l = (if fst l = None then 0 else 1) + length (snd l)"

lemma lanes_smaller:
  assumes "i < length lanes" and "lane_size l < lane_size (lanes ! i)"
  shows "sum_list (map lane_size (lanes[i := l])) < sum_list (map lane_size lanes)"
  using assms by (induction lanes arbitrary: i) (auto split: nat.splits)

function visit_newest ::
  "(nat \<Rightarrow> bool) \<Rightarrow> string list \<Rightarrow> (u8 list \<Rightarrow> 'e + qvalue) \<Rightarrow> lane list \<Rightarrow> nat \<Rightarrow> 's visit \<Rightarrow> 's \<Rightarrow>
     (query_error abort + unit) \<times> 's" where
  "visit_newest late allowed decode lanes rd visit s =
     (case newest_head (map fst lanes) of
        None \<Rightarrow> (Ok (), s)
      | Some shard \<Rightarrow>
          (case next_event late allowed decode shard (snd (lanes ! shard)) rd of
             Err e \<Rightarrow> (Err (Raised e), s)
           | Ok (head, rows, rd) \<Rightarrow>
               (case visit s (the (fst (lanes ! shard))) of
                  (Err e, s) \<Rightarrow> (Err e, s)
                | (Ok Enough, s) \<Rightarrow> (Ok (), s)
                | (Ok More, s) \<Rightarrow> visit_newest late allowed decode (lanes[shard := (head, rows)]) rd visit s)))"
  by pat_completeness auto
termination
proof (relation "measure (\<lambda>(_, _, _, lanes, _, _, _). sum_list (map lane_size lanes))", goal_cases)
  case (2 late allowed decode lanes rd visit s shard res head rest rows rd' out fl s')
  from newest_head_Some [OF 2(1)] obtain r where r: "shard < length lanes" "fst (lanes ! shard) = Some r" by auto
  have "lane_size (head, rows) < lane_size (lanes ! shard)"
    using next_event_length [of late allowed decode shard "snd (lanes ! shard)" rd head rows rd'] 2 r(2)
    by (auto simp: lane_size_def)
  from lanes_smaller [OF r(1) this] show ?case by simp
qed simp

declare visit_newest.simps [simp del]

text \<open>The first row of every shard.\<close>

fun first_heads ::
  "(nat \<Rightarrow> bool) \<Rightarrow> string list \<Rightarrow> (u8 list \<Rightarrow> 'e + qvalue) \<Rightarrow> nat \<Rightarrow> event_row stream list \<Rightarrow> nat \<Rightarrow>
     query_error + lane list \<times> nat" where
  "first_heads late allowed decode shard [] rd = Ok ([], rd)"
| "first_heads late allowed decode shard (rows # others) rd =
     rbind (next_event late allowed decode shard rows rd) (\<lambda>(head, rows, rd).
     rbind (first_heads late allowed decode (shard + 1) others rd) (\<lambda>(lanes, rd).
       Ok ((head, rows) # lanes, rd)))"

section \<open>The SELECT of a shard\<close>

record event_database =
  db_index :: "nat \<Rightarrow> string \<Rightarrow> query_error + bool"
  db_events :: "nat \<Rightarrow> string \<Rightarrow> sql_value list \<Rightarrow> query_error + event_row stream"

fun find_map :: "('a \<Rightarrow> 'b option) \<Rightarrow> 'a list \<Rightarrow> 'b option" where
  "find_map f [] = None"
| "find_map f (x # xs) = (case f x of Some y \<Rightarrow> Some y | None \<Rightarrow> find_map f xs)"

definition shard_constraint :: "event_database \<Rightarrow> expr list \<Rightarrow> nat \<Rightarrow> query_error + sql_constraint option" where
  "shard_constraint db predicates shard =
     (case find_map sql_header_constraint predicates of
        Some c \<Rightarrow> Ok (Some c)
      | None \<Rightarrow> first_payload_constraint (db_index db shard) predicates)"

definition event_select ::
  "i64 \<Rightarrow> i64 \<Rightarrow> i64 \<Rightarrow> i64 \<Rightarrow> scan_order \<Rightarrow> sql_constraint option \<Rightarrow> string \<times> sql_value list" where
  "event_select since until lower upper order c =
     (let sql = ''SELECT id, boot_id, timestamp, cpu_id, sequence, origin_class, event_type, '' @
            ''effective_token_guid, true_token_guid, process_guid, payload '' @
            ''FROM events WHERE timestamp >= ?1 AND timestamp < ?2 AND id > ?3 AND id <= ?4'';
          values = [SqlInteger since, SqlInteger until, SqlInteger lower, SqlInteger upper];
          sql = (case c of Some c \<Rightarrow> sql @ '' AND '' @ sc_sql c | None \<Rightarrow> sql);
          values = (case c of Some c \<Rightarrow> values @ (case sc_value c of Some v \<Rightarrow> [v] | None \<Rightarrow> []) | None \<Rightarrow> values);
          sql = (if order = Newest then sql @ '' ORDER BY timestamp DESC, id DESC'' else sql) in
      (sql, values))"

definition open_shard ::
  "event_database \<Rightarrow> expr list \<Rightarrow> i64 \<Rightarrow> i64 \<Rightarrow> i64 list \<Rightarrow> i64 list \<Rightarrow> scan_order \<Rightarrow> nat \<Rightarrow> query_error + event_row stream" where
  "open_shard db predicates since until lower_ids upper_ids order shard =
     rbind (shard_constraint db predicates shard) (\<lambda>c.
       let (sql, values) = event_select since until (lower_ids ! shard) (upper_ids ! shard) order c in
       db_events db shard sql values)"

section \<open>Scans\<close>

fun scan_stored ::
  "(nat \<Rightarrow> bool) \<Rightarrow> string list \<Rightarrow> (u8 list \<Rightarrow> 'e + qvalue) \<Rightarrow> (nat \<Rightarrow> query_error + event_row stream) \<Rightarrow> nat list \<Rightarrow> nat \<Rightarrow>
     's visit \<Rightarrow> 's \<Rightarrow> (query_error abort + unit) \<times> 's" where
  "scan_stored late allowed decode opened [] rd visit s = (Ok (), s)"
| "scan_stored late allowed decode opened (shard # shards) rd visit s =
     (if late rd then (Err (Raised Timeout), s)
      else
        case opened shard of
          Err e \<Rightarrow> (Err (Raised e), s)
        | Ok rows \<Rightarrow>
            (case visit_stored late allowed decode shard rows rd visit s of
               (Err e, s) \<Rightarrow> (Err e, s)
             | (Ok (Enough, _), s) \<Rightarrow> (Ok (), s)
             | (Ok (More, rd), s) \<Rightarrow> scan_stored late allowed decode opened shards rd visit s))"

fun all_ok :: "('e + 'a) list \<Rightarrow> 'e + 'a list" where
  "all_ok [] = Ok []"
| "all_ok (x # xs) = rbind x (\<lambda>a. rbind (all_ok xs) (\<lambda>as. Ok (a # as)))"

definition scan_events ::
  "event_database \<Rightarrow> nat \<Rightarrow> (nat \<Rightarrow> bool) \<Rightarrow> (u8 list \<Rightarrow> 'e + qvalue) \<Rightarrow> string list \<Rightarrow> expr list \<Rightarrow> i64 \<Rightarrow> i64 \<Rightarrow>
     i64 list \<Rightarrow> i64 list \<Rightarrow> scan_order \<Rightarrow> 's visit \<Rightarrow> 's \<Rightarrow> (query_error abort + unit) \<times> 's" where
  "scan_events db shards late decode allowed predicates since until lower_ids upper_ids order visit s =
     (if allowed = [] then (Ok (), s)
      else
        let opened = open_shard db predicates since until lower_ids upper_ids order in
        case order of
          Stored \<Rightarrow> scan_stored late allowed decode opened [0..<shards] 0 visit s
        | Newest \<Rightarrow>
            if shards \<noteq> 0 \<and> late 0 then (Err (Raised Timeout), s)
            else
              case all_ok (map opened [0..<shards]) of
                Err e \<Rightarrow> (Err (Raised e), s)
              | Ok streams \<Rightarrow>
                  (case first_heads late allowed decode 0 streams 0 of
                     Err e \<Rightarrow> (Err (Raised e), s)
                   | Ok (lanes, rd) \<Rightarrow> visit_newest late allowed decode lanes rd visit s))"

fun scan_logs ::
  "(nat \<Rightarrow> bool) \<Rightarrow> string list \<Rightarrow> bool \<Rightarrow> string option \<Rightarrow> log_row stream \<Rightarrow> nat \<Rightarrow> 's visit \<Rightarrow> 's \<Rightarrow>
     (query_error abort + unit) \<times> 's" where
  "scan_logs late allowed error_only containing [] rd visit s = (Ok (), s)"
| "scan_logs late allowed error_only containing (Err e # rows) rd visit s = (Err (Raised e), s)"
| "scan_logs late allowed error_only containing (Ok l # rows) rd visit s =
     (let rd = rd + 1 in
      if rd mod DEADLINE_CHECK_ROWS = 0 \<and> late rd then (Err (Raised Timeout), s)
      else if lr_origin l \<notin> set allowed \<or> error_only \<and> \<not> lr_is_error l \<or>
        (case containing of Some needle \<Rightarrow> \<not> ascii_contains (lr_message l) needle | None \<Rightarrow> False)
      then scan_logs late allowed error_only containing rows rd visit s
      else
        case visit s (log_result_row l) of
          (Err e, s) \<Rightarrow> (Err e, s)
        | (Ok Enough, s) \<Rightarrow> (Ok (), s)
        | (Ok More, s) \<Rightarrow> scan_logs late allowed error_only containing rows rd visit s)"

section \<open>What a query in the default order does with a row\<close>

fun all_hold :: "((qvalue \<times> qvalue) list \<Rightarrow> string) \<Rightarrow> namespace \<Rightarrow> expr list \<Rightarrow> fields \<Rightarrow> panic + bool" where
  "all_hold debug ns [] record = Ok True"
| "all_hold debug ns (e # es) record =
     rbind (evaluate debug ns e record) (\<lambda>b. if b then all_hold debug ns es record else Ok False)"

text \<open>The running query: its cache, the rows still to skip and to emit, and what it has emitted.\<close>

record page =
  p_cache :: authorization_cache
  p_asked :: nat
  p_skip :: u64
  p_remaining :: "u64 option"
  p_emitted :: "fields list"

text \<open>
  Whether a row is visible to the query, the shown row if it is. The generations its two questions see
  are arguments, one pair for each row asked about.
\<close>

definition visible_row ::
  "((qvalue \<times> qvalue) list \<Rightarrow> string) \<Rightarrow> namespace \<Rightarrow> query \<Rightarrow> authorizer \<Rightarrow> (nat \<Rightarrow> u64 \<times> u64) \<Rightarrow> time_range list option \<Rightarrow>
     page \<Rightarrow> row \<Rightarrow> (query_error abort + row option) \<times> page" where
  "visible_row debug ns q check gens ranges p r =
     (if (case ranges of Some rs \<Rightarrow> \<not> range_contains rs (sint (timestamp r)) | None \<Rightarrow> False) then (Ok None, p)
      else
        let (generation, answering) = gens (p_asked p);
            (res, c) = authorize_row check generation answering r (referenced_fields q) (p_cache p);
            p = p\<lparr>p_cache := c, p_asked := p_asked p + 1\<rparr>;
            predicates = (case q_source q of Logs _ _ _ \<Rightarrow> log_predicates (q_predicates q) | _ \<Rightarrow> q_predicates q) in
        case res of
          Err e \<Rightarrow> (Err (Raised e), p)
        | Ok None \<Rightarrow> (Ok None, p)
        | Ok (Some shown) \<Rightarrow>
            (case all_hold debug ns predicates (row_record shown) of
               Err _ \<Rightarrow> (Err Panicked, p)
             | Ok b \<Rightarrow> (Ok (if b then Some shown else None), p)))"

definition visit_page ::
  "((qvalue \<times> qvalue) list \<Rightarrow> string) \<Rightarrow> namespace \<Rightarrow> query \<Rightarrow> authorizer \<Rightarrow> (nat \<Rightarrow> u64 \<times> u64) \<Rightarrow> time_range list option \<Rightarrow>
     page visit" where
  "visit_page debug ns q check gens ranges p r =
     (case visible_row debug ns q check gens ranges p r of
        (Err e, p) \<Rightarrow> (Err e, p)
      | (Ok None, p) \<Rightarrow> (Ok More, p)
      | (Ok (Some shown), p) \<Rightarrow>
          if 0 < p_skip p then (Ok More, p\<lparr>p_skip := p_skip p - 1\<rparr>)
          else
            let p = p\<lparr>p_emitted := p_emitted p @ [project (row_record shown) (q_select q)]\<rparr> in
            case p_remaining p of
              None \<Rightarrow> (Ok More, p)
            | Some left \<Rightarrow> (Ok (if left - 1 = 0 then Enough else More), p\<lparr>p_remaining := Some (left - 1)\<rparr>))"

definition new_page :: "u64 \<Rightarrow> query \<Rightarrow> page" where
  "new_page generation q =
     \<lparr>p_cache = cache_new generation, p_asked = 0, p_skip = q_skip q, p_remaining = q_take q, p_emitted = []\<rparr>"

end
