(* ===== verification/Row_Merge.thy ===== *)
theory Row_Merge
  imports Row_Scan
begin

text \<open>
  The default order of a query. The scan reads every shard newest first and always visits the newest
  first row of all shards; this is shown to visit the rows of all shards in the order a sort of them all
  would give, and the page a query then emits to be the page of the sorted visible rows.
\<close>

section \<open>Visiting a list of rows\<close>

fun visit_all :: "'s visit \<Rightarrow> row list \<Rightarrow> 's \<Rightarrow> (query_error abort + unit) \<times> 's" where
  "visit_all visit [] s = (Ok (), s)"
| "visit_all visit (r # rs) s =
     (case visit s r of
        (Err e, s) \<Rightarrow> (Err e, s)
      | (Ok Enough, s) \<Rightarrow> (Ok (), s)
      | (Ok More, s) \<Rightarrow> visit_all visit rs s)"

text \<open>The rows of a shard, from its stored events.\<close>

definition shard_rows :: "string list \<Rightarrow> (u8 list \<Rightarrow> 'e + qvalue) \<Rightarrow> nat \<Rightarrow> event_row list \<Rightarrow> row list" where
  "shard_rows allowed decode shard es = map (event_result_row decode shard) (filter (\<lambda>e. er_event_type e \<in> set allowed) es)"

lemma shard_rows_simps [simp]:
  "shard_rows allowed decode shard [] = []"
  "shard_rows allowed decode shard (e # es) =
     (if er_event_type e \<in> set allowed then event_result_row decode shard e # shard_rows allowed decode shard es
      else shard_rows allowed decode shard es)"
  by (simp_all add: shard_rows_def)

definition lane_of :: "string list \<Rightarrow> (u8 list \<Rightarrow> 'e + qvalue) \<Rightarrow> nat \<Rightarrow> lane \<Rightarrow> row list \<Rightarrow> bool" where
  "lane_of allowed decode shard l rows \<longleftrightarrow>
     (\<exists>es. snd l = map Ok es \<and>
        (case fst l of None \<Rightarrow> rows = [] | Some r \<Rightarrow> rows = r # shard_rows allowed decode shard es))"

lemma next_event_lane:
  assumes "\<And>n. \<not> late n"
  shows "\<exists>h rest. lane_of allowed decode shard (h, rest) (shard_rows allowed decode shard es) \<and>
    (\<forall>rd. \<exists>rd'. next_event late allowed decode shard (map Ok es) rd = Ok (h, rest, rd'))"
proof (induction es)
  case Nil
  show ?case by (simp add: lane_of_def)
next
  case (Cons e es)
  show ?case
  proof (cases "er_event_type e \<in> set allowed")
    case True
    with assms show ?thesis by (auto simp: lane_of_def Let_def)
  next
    case False
    with Cons assms show ?thesis by (simp add: Let_def) blast
  qed
qed

section \<open>The order of the visits\<close>

abbreviation newest_first :: "query \<Rightarrow> bool" where
  "newest_first q \<equiv> q_sort q = []"

lemma row_cmp_default:
  "newest_first q \<Longrightarrow> row_cmp d q l r = then_with (i64_cmp (timestamp r) (timestamp l)) (tie_break (row_tie l) (row_tie r))"
  by (simp add: row_cmp_then)

lemma head_before:
  assumes "newest_first q" and "row_tie r = TieEvent i a" and "row_tie r' = TieEvent j b" and "i \<noteq> j"
    and "head_cmp (j, timestamp r') (i, timestamp r) \<noteq> Greater"
  shows "row_cmp d q r r' \<noteq> Greater"
  using assms by (auto simp: row_cmp_default head_cmp_def i64_cmp_def cmp_ord_def split: if_splits)

definition lanes_of :: "string list \<Rightarrow> (u8 list \<Rightarrow> 'e + qvalue) \<Rightarrow> query \<Rightarrow> ((qvalue \<times> qvalue) list \<Rightarrow> string) \<Rightarrow> lane list \<Rightarrow> row list list \<Rightarrow> bool" where
  "lanes_of allowed decode q d lanes rowss \<longleftrightarrow>
     length lanes = length rowss \<and>
     (\<forall>i < length rowss. lane_of allowed decode i (lanes ! i) (rowss ! i) \<and> sorted_by (row_cmp d q) (rowss ! i) \<and>
        (\<forall>r \<in> set (rowss ! i). \<exists>a. row_tie r = TieEvent i a))"

lemma in_concat_nth: "x \<in> set (concat xss) \<Longrightarrow> \<exists>j < length xss. x \<in> set (xss ! j)"
  by (metis UN_E in_set_conv_nth set_concat)

lemma mset_concat_update:
  "i < length xss \<Longrightarrow> xss ! i = x # xs \<Longrightarrow> mset (concat xss) = add_mset x (mset (concat (xss[i := xs])))"
  by (induction xss arbitrary: i) (auto split: nat.splits)

lemma head_is_first:
  assumes q: "newest_first q" and lanes: "lanes_of allowed decode q d lanes rowss"
    and i: "newest_head (map fst lanes) = Some i"
  shows "\<exists>r rest. i < length rowss \<and> fst (lanes ! i) = Some r \<and> rowss ! i = r # rest \<and>
    (\<forall>x \<in> set (concat rowss). row_cmp d q r x \<noteq> Greater)"
proof -
  from newest_head_Some [OF i] lanes obtain r where r: "i < length rowss" "fst (lanes ! i) = Some r"
    "\<And>j r'. j < length rowss \<Longrightarrow> fst (lanes ! j) = Some r' \<Longrightarrow> head_cmp (j, timestamp r') (i, timestamp r) \<noteq> Greater"
    by (auto simp: lanes_of_def)
  with lanes obtain rest where rest: "rowss ! i = r # rest" by (auto simp: lanes_of_def lane_of_def)
  have "row_cmp d q r x \<noteq> Greater" if "x \<in> set (concat rowss)" for x
  proof -
    from in_concat_nth [OF that] obtain j where j: "j < length rowss" "x \<in> set (rowss ! j)" by blast
    have "lane_of allowed decode j (lanes ! j) (rowss ! j)" using lanes j(1) by (simp add: lanes_of_def)
    then obtain r' rest' where j': "fst (lanes ! j) = Some r'" "rowss ! j = r' # rest'"
      using j(2) by (auto simp: lane_of_def split: option.splits)
    have sorted: "sorted_by (row_cmp d q) (r' # rest')" using lanes j(1) j'(2) by (metis lanes_of_def)
    have refl: "row_cmp d q r' r' \<noteq> Greater" by (rule row_order.le_refl)
    have r'x: "row_cmp d q r' x \<noteq> Greater" using sorted refl j(2) j'(2) by auto
    show ?thesis
    proof (cases "i = j")
      case True
      with r(2) j' r'x show ?thesis by simp
    next
      case False
      obtain a b where "row_tie r = TieEvent i a" "row_tie r' = TieEvent j b"
        using lanes r(1) rest j(1) j'(2) by (fastforce simp: lanes_of_def)
      with head_before [OF q _ _ False r(3) [OF j(1) j'(1)]] have "row_cmp d q r r' \<noteq> Greater" by blast
      with r'x row_order.trans show ?thesis by blast
    qed
  qed
  with r(1,2) rest show ?thesis by blast
qed

lemma lanes_of_step:
  assumes "lanes_of allowed decode q d lanes rowss" and "i < length rowss" and "rowss ! i = r # rest"
    and "lane_of allowed decode i l rest"
  shows "lanes_of allowed decode q d (lanes[i := l]) (rowss[i := rest])"
  using assms by (auto simp: lanes_of_def nth_list_update)

lemma visit_newest_sorted:
  assumes q: "newest_first q" and late: "\<And>n. \<not> late n"
  shows "lanes_of allowed decode q d lanes rowss \<Longrightarrow>
    \<exists>rows. mset rows = mset (concat rowss) \<and> sorted_by (row_cmp d q) rows \<and>
      (\<forall>(visit :: 's visit) s rd. visit_newest late allowed decode lanes rd visit s = visit_all visit rows s)"
proof (induction "length (concat rowss)" arbitrary: lanes rowss)
  case 0
  have "fst (lanes ! i) = None" if "i < length lanes" for i
  proof -
    have "rowss ! i = []" using 0(1) that 0(2) by (auto simp: lanes_of_def)
    with 0(2) that show ?thesis by (auto simp: lanes_of_def lane_of_def split: option.splits)
  qed
  then have "newest_head (map fst lanes) = None"
    using newest_head_Some [of "map fst lanes"] by (cases "newest_head (map fst lanes)") auto
  with 0(1) show ?case by (intro exI [of _ "[]"]) (auto simp: visit_newest.simps [of late allowed decode lanes])
next
  case (Suc n)
  have "newest_head (map fst lanes) \<noteq> None"
  proof
    assume none: "newest_head (map fst lanes) = None"
    from Suc(2) obtain x where "x \<in> set (concat rowss)" by (cases "concat rowss") auto
    then obtain j where "j < length rowss" "rowss ! j \<noteq> []" by (metis in_concat_nth empty_iff list.set(1))
    with Suc(3) newest_head_None [OF none, of j] show False by (auto simp: lanes_of_def lane_of_def)
  qed
  then obtain i where i: "newest_head (map fst lanes) = Some i" by blast
  from head_is_first [OF q Suc(3) this] obtain r rest where r: "i < length rowss" "fst (lanes ! i) = Some r"
    "rowss ! i = r # rest" "\<And>x. x \<in> set (concat rowss) \<Longrightarrow> row_cmp d q r x \<noteq> Greater" by blast
  with Suc(3) obtain es where es: "snd (lanes ! i) = map Ok es" "rest = shard_rows allowed decode i es"
    by (auto simp: lanes_of_def lane_of_def)
  from next_event_lane [of late allowed decode i es, OF late] es(2) obtain h st where
    lane: "lane_of allowed decode i (h, st) rest"
    and next_ev: "\<And>rd. \<exists>rd'. next_event late allowed decode i (map Ok es) rd = Ok (h, st, rd')" by blast
  have m: "mset (concat rowss) = add_mset r (mset (concat (rowss[i := rest])))"
    by (rule mset_concat_update [OF r(1,3)])
  then have "n = length (concat (rowss[i := rest]))" using Suc(2) by (metis Suc_inject size_add_mset size_mset)
  from Suc(1) [OF this lanes_of_step [OF Suc(3) r(1,3) lane]] obtain rows where
    rows: "mset rows = mset (concat (rowss[i := rest]))" "sorted_by (row_cmp d q) rows"
      "\<And>(visit :: 's visit) s rd. visit_newest late allowed decode (lanes[i := (h, st)]) rd visit s = visit_all visit rows s" by blast
  have "set rows \<subseteq> set (concat rowss)" using rows(1) m by (metis set_mset_add_mset_insert set_mset_mset subset_insertI)
  then have "\<forall>x \<in> set rows. row_cmp d q r x \<noteq> Greater" using r(4) by blast
  with rows(2) have "sorted_by (row_cmp d q) (r # rows)" by simp
  moreover have "visit_newest late allowed decode lanes rd visit s = visit_all visit (r # rows) s" for visit :: "'s visit" and s rd
  proof -
    obtain rd' where "next_event late allowed decode i (map Ok es) rd = Ok (h, st, rd')" using next_ev by blast
    then show ?thesis
      by (simp add: visit_newest.simps [of late allowed decode lanes] i es(1) r(2) rows(3) split: prod.splits sum.splits flow.splits)
  qed
  ultimately show ?case using m rows(1) by (intro exI [of _ "r # rows"]) simp
qed

section \<open>The scan of all shards\<close>

text \<open>What the SELECT's \<open>ORDER BY timestamp DESC, id DESC\<close> promises of a shard's rows.\<close>

definition newer :: "event_row \<Rightarrow> event_row \<Rightarrow> bool" where
  "newer a b \<longleftrightarrow> sint (er_timestamp b) < sint (er_timestamp a) \<or>
     er_timestamp a = er_timestamp b \<and> sint (er_id b) < sint (er_id a)"

lemma newer_row_cmp:
  "newest_first q \<Longrightarrow> newer a b \<Longrightarrow> row_cmp d q (event_result_row decode i a) (event_result_row decode i b) = Less"
  by (auto simp: newer_def row_cmp_default event_result_row_def timestamp_def i64_cmp_def cmp_ord_def)

lemma shard_rows_sorted:
  assumes "newest_first q" and "sorted_wrt newer es"
  shows "sorted_wrt (\<lambda>a b. row_cmp d q a b = Less) (shard_rows allowed decode i es)"
  using assms(2) by (induction es) (auto simp: shard_rows_def newer_row_cmp [OF assms(1)])

lemma first_heads_lanes:
  assumes "\<And>n. \<not> late n"
  shows "\<exists>lanes rd'. first_heads late allowed decode k (map (map Ok) ess) rd = Ok (lanes, rd') \<and> length lanes = length ess \<and>
    (\<forall>i < length ess. lane_of allowed decode (k + i) (lanes ! i) (shard_rows allowed decode (k + i) (ess ! i)))"
proof (induction ess arbitrary: k rd)
  case (Cons es ess)
  from next_event_lane [of late allowed decode k es, OF assms] obtain h rest where
    l: "lane_of allowed decode k (h, rest) (shard_rows allowed decode k es)"
    and n: "\<exists>rd'. next_event late allowed decode k (map Ok es) rd = Ok (h, rest, rd')" by blast
  from n obtain rd1 where rd1: "next_event late allowed decode k (map Ok es) rd = Ok (h, rest, rd1)" by blast
  from Cons [of "k + 1" rd1] obtain lanes rd' where lanes:
    "first_heads late allowed decode (k + 1) (map (map Ok) ess) rd1 = Ok (lanes, rd')" "length lanes = length ess"
    "\<forall>i < length ess. lane_of allowed decode (k + 1 + i) (lanes ! i) (shard_rows allowed decode (k + 1 + i) (ess ! i))" by blast
  have "lane_of allowed decode (k + i) (((h, rest) # lanes) ! i) (shard_rows allowed decode (k + i) ((es # ess) ! i))"
    if "i < length (es # ess)" for i
    using that l lanes(3) by (cases i) auto
  with rd1 lanes(1,2) show ?case by (intro exI [of _ "(h, rest) # lanes"] exI [of _ rd']) simp
qed simp

lemma row_cmp_Equal_shards:
  assumes "newest_first q" and "\<forall>i < length ess. sorted_wrt newer (ess ! i)"
    and "x \<in> set (concat (map (\<lambda>i. shard_rows allowed decode i (ess ! i)) [0..<length ess]))"
    and "y \<in> set (concat (map (\<lambda>i. shard_rows allowed decode i (ess ! i)) [0..<length ess]))"
    and "row_cmp d q x y = Equal"
  shows "x = y"
proof -
  from assms(3,4) obtain i j where i: "i < length ess" "x \<in> set (shard_rows allowed decode i (ess ! i))"
    and j: "j < length ess" "y \<in> set (shard_rows allowed decode j (ess ! j))" by auto
  then obtain a b where ab: "x = event_result_row decode i a" "a \<in> set (ess ! i)" "y = event_result_row decode j b" "b \<in> set (ess ! j)"
    by (auto simp: shard_rows_def)
  with assms(1,5) have eq: "i = j" "sint (er_timestamp a) = sint (er_timestamp b)" "sint (er_id a) = sint (er_id b)"
    by (auto simp: row_cmp_default event_result_row_def i64_cmp_def timestamp_def)
  then have "\<not> newer a b" "\<not> newer b a" by (auto simp: newer_def)
  moreover have "newer a b \<or> newer b a \<or> a = b"
    using assms(2) i(1) ab(2,4) eq(1) by (metis in_set_conv_nth linorder_neqE_nat sorted_wrt_nth_less)
  ultimately show ?thesis using ab eq(1) by simp
qed

lemma all_ok_map: "(\<And>x. x \<in> set xs \<Longrightarrow> f x = Ok (g x)) \<Longrightarrow> all_ok (map f xs) = Ok (map g xs)"
  by (induction xs) simp_all

lemma newest_scan_rows:
  fixes visit :: "'s visit"
  assumes "newest_first q" and "\<And>n. \<not> late n" and "allowed \<noteq> []"
    and "\<And>i. i < shards \<Longrightarrow> open_shard db predicates since until lower_ids upper_ids Newest i = Ok (map Ok (events i))"
    and "\<And>i. i < shards \<Longrightarrow> sorted_wrt newer (events i)"
  shows "scan_events db shards late decode allowed predicates since until lower_ids upper_ids Newest visit s =
    visit_all visit (sort_rows d q (concat (map (\<lambda>i. shard_rows allowed decode i (events i)) [0..<shards]))) s"
proof -
  let ?ess = "map events [0..<shards]"
  let ?rowss = "map (\<lambda>i. shard_rows allowed decode i (events i)) [0..<shards]"
  have opened: "all_ok (map (open_shard db predicates since until lower_ids upper_ids Newest) [0..<shards]) = Ok (map (map Ok) ?ess)"
    using assms(4) by (subst all_ok_map) (auto simp: comp_def)
  obtain lanes rd where lanes: "first_heads late allowed decode 0 (map (map Ok) ?ess) 0 = Ok (lanes, rd)" "length lanes = shards"
    "\<forall>i < shards. lane_of allowed decode i (lanes ! i) (shard_rows allowed decode i (events i))"
    using first_heads_lanes [of late allowed decode 0 ?ess 0, OF assms(2)] by auto
  have less: "sorted_wrt (\<lambda>a b. row_cmp d q a b = Less) (shard_rows allowed decode i (events i))" if "i < shards" for i
    by (rule shard_rows_sorted [OF assms(1) assms(5) [OF that]])
  have "sorted_by (row_cmp d q) (shard_rows allowed decode i (events i))" if "i < shards" for i
    by (rule sorted_wrt_mono_rel [OF _ less [OF that]]) simp
  moreover have "\<exists>a. row_tie r = TieEvent i a" if "r \<in> set (shard_rows allowed decode i (events i))" for i r
    using that by (auto simp: shard_rows_def event_result_row_def)
  ultimately have "lanes_of allowed decode q d lanes ?rowss"
    unfolding lanes_of_def using lanes(2,3) by simp
  then have "\<exists>rows. mset rows = mset (concat ?rowss) \<and> sorted_by (row_cmp d q) rows \<and>
      (\<forall>(visit :: 's visit) s rd. visit_newest late allowed decode lanes rd visit s = visit_all visit rows s)"
    by (rule visit_newest_sorted [OF assms(1,2)])
  then obtain rows where rows: "mset rows = mset (concat ?rowss)" "sorted_by (row_cmp d q) rows"
      "visit_newest late allowed decode lanes rd visit s = visit_all visit rows s" by (elim exE conjE) simp
  have set: "set rows = set (concat ?rowss)" using rows(1) by (metis set_mset_mset)
  have "rows = sort_rows d q (concat ?rowss)" unfolding sort_rows_def
  proof (rule row_order.sorted_unique [OF rows(2) row_order.sorted_sort_by])
    show "mset rows = mset (sort_by (row_cmp d q) (concat ?rowss))" using rows(1) by simp
    show "x = y" if "x \<in> set rows" "y \<in> set rows" "row_cmp d q x y = Equal" for x y
      using row_cmp_Equal_shards [OF assms(1), of ?ess x allowed decode y d] that assms(5) set by (simp cong: map_cong)
  qed
  with rows(3) assms(2,3) opened lanes(1) show ?thesis by (simp add: scan_events_def Let_def)
qed

text \<open>
  The merge of the shards is a sort. When every shard's rows come newest first and nothing fails or
  runs out of time, reading them through the frontier of one row per shard visits exactly the readable
  events of all shards, in the order a sort of them all gives: newest first, ties by shard and then by
  identifier downwards. The visitor may stop the scan anywhere.
\<close>

theorem newest_scan_sorted:
  assumes "newest_first q" and "\<And>n. \<not> late n" and "allowed \<noteq> []"
    and "\<And>i. i < shards \<Longrightarrow> open_shard db predicates since until lower_ids upper_ids Newest i = Ok (map Ok (events i))"
    and "\<And>i. i < shards \<Longrightarrow> sorted_wrt newer (events i)"
  shows "scan_events db shards late decode allowed predicates since until lower_ids upper_ids Newest visit s =
    visit_all visit (sort_rows d q (concat (map (\<lambda>i. shard_rows allowed decode i (events i)) [0..<shards]))) s"
  by (rule newest_scan_rows) (use assms in auto)

theorem newest_scan_sorted_witness:
  "let e = (\<lambda>i t. \<lparr>er_id = i, er_boot_id = [], er_timestamp = t, er_cpu_id = None, er_sequence = None, er_origin_class = None,
         er_event_type = ''a'', er_effective_token_guid = None, er_true_token_guid = None, er_process_guid = None, er_payload = None\<rparr>);
       db = \<lparr>db_index = (\<lambda>_ _. Ok False),
         db_events = (\<lambda>shard _ _. Ok (map Ok (if shard = 0 then [e 2 8, e 1 3] else [e 1 5])))\<rparr> in
     scan_events db 2 (\<lambda>_. False) (\<lambda>_. Err ()) [''a''] [] 0 100 [0, 0] [9, 9] Newest (\<lambda>s r. (Ok More, s @ [row_at r])) [] =
       (Ok (), [8, 5, 3])"
proof -
  let ?e = "\<lambda>i t. \<lparr>er_id = i, er_boot_id = [], er_timestamp = t, er_cpu_id = None, er_sequence = None, er_origin_class = None,
         er_event_type = ''a'', er_effective_token_guid = None, er_true_token_guid = None, er_process_guid = None, er_payload = None\<rparr>"
  let ?events = "\<lambda>shard :: nat. if shard = 0 then [?e 2 8, ?e 1 3] else [?e 1 5]"
  let ?db = "\<lparr>db_index = (\<lambda>_ _. Ok False), db_events = (\<lambda>shard _ _. Ok (map Ok (?events shard)))\<rparr>"
  let ?q = "\<lparr>q_source = Events None, q_since = None, q_until = None, q_predicates = [], q_cross_filters = [],
         q_sort = [], q_take = None, q_skip = 0, q_select = [], q_aggregate = None, q_transform = None,
         q_metric_aggregate = None, q_stream = False, q_index = None\<rparr>"
  let ?visit = "\<lambda>s r. (Ok More, s @ [row_at r])"
  have o: "open_shard ?db [] 0 100 [0, 0] [9, 9] Newest i = Ok (map Ok (?events i))" for i
    by (simp add: open_shard_def shard_constraint_def event_select_def Let_def)
  have n: "sorted_wrt newer (?events i)" for i by (simp add: newer_def)
  have "scan_events ?db 2 (\<lambda>_. False) (\<lambda>_. Err ()) [''a''] [] 0 100 [0, 0] [9, 9] Newest ?visit [] =
      visit_all ?visit (sort_rows (\<lambda>_. []) ?q (concat (map (\<lambda>i. shard_rows [''a''] (\<lambda>_. Err ()) i (?events i)) [0..<2]))) []"
    by (rule newest_scan_sorted) (simp_all add: o n)
  also have "\<dots> = (Ok (), [8, 5, 3])"
    by (simp add: sort_rows_def row_cmp_def event_result_row_def timestamp_def i64_cmp_def cmp_ord_def upt_rec [of 0] numeral_2_eq_2)
  finally show ?thesis by (simp add: Let_def)
qed

section \<open>The page of a query in the default order\<close>

text \<open>What a row shows to the query while the descriptors do not change.\<close>

definition shown_row ::
  "((qvalue \<times> qvalue) list \<Rightarrow> string) \<Rightarrow> namespace \<Rightarrow> query \<Rightarrow> authorizer \<Rightarrow> u64 \<Rightarrow> time_range list option \<Rightarrow> row \<Rightarrow>
     query_error abort + row option" where
  "shown_row d ns q check g ranges r =
     (if (case ranges of Some rs \<Rightarrow> \<not> range_contains rs (sint (timestamp r)) | None \<Rightarrow> False) then Ok None
      else
        case check g (row_identifier r) (asked_fields (row_record r) (referenced_fields q)) of
          Err e \<Rightarrow> Err (Raised e)
        | Ok None \<Rightarrow> Ok None
        | Ok (Some allowed) \<Rightarrow>
            if \<not> set (referenced_fields q) \<subseteq> set allowed then Ok None
            else
              case all_hold d ns (case q_source q of Logs _ _ _ \<Rightarrow> log_predicates (q_predicates q) | _ \<Rightarrow> q_predicates q)
                  (row_record r |` set allowed) of
                Err _ \<Rightarrow> Err Panicked
              | Ok b \<Rightarrow> Ok (if b then Some (r\<lparr>row_record := row_record r |` set allowed\<rparr>) else None))"

lemma visible_row_shown:
  assumes "cache_ok check may_read g (p_cache p)"
  shows "\<exists>c n. visible_row d ns q check (\<lambda>_. (g, g)) ranges p r =
    (shown_row d ns q check g ranges r, p\<lparr>p_cache := c, p_asked := n\<rparr>) \<and> cache_ok check may_read g c"
proof (cases "case ranges of Some rs \<Rightarrow> \<not> range_contains rs (sint (timestamp r)) | None \<Rightarrow> False")
  case True
  with assms show ?thesis
    by (intro exI [of _ "p_cache p"] exI [of _ "p_asked p"]) (simp add: visible_row_def shown_row_def)
next
  case False
  obtain res c where rc: "cache_check check g g (p_cache p) (row_identifier r) (asked_fields (row_record r) (referenced_fields q)) = (res, c)"
    by fastforce
  from cache_check_ok [OF assms order.refl order.refl rc] have res:
    "res = check g (row_identifier r) (asked_fields (row_record r) (referenced_fields q))" "cache_ok check may_read g c" by auto
  show ?thesis
    by (intro exI [of _ c] exI [of _ "p_asked p + 1"])
      (use False rc res in \<open>auto simp: visible_row_def shown_row_def authorize_row_def Let_def list_ex_iff subset_iff
        split: sum.splits option.splits if_splits\<close>)
qed

definition take_opt :: "u64 option \<Rightarrow> 'a list \<Rightarrow> 'a list" where
  "take_opt n xs = (case n of None \<Rightarrow> xs | Some n \<Rightarrow> take (unat n) xs)"

lemma unat_Suc_pred: "(w :: u64) \<noteq> 0 \<Longrightarrow> unat w = Suc (unat (w - 1))"
  using unat_minus_one [of w] unat_eq_zero [of w] by (cases "unat w") simp_all

lemma visit_page_rows:
  assumes shown: "\<And>r. r \<in> set rows \<Longrightarrow> shown_row d ns q check g ranges r = Ok (f r)"
    and "cache_ok check may_read g (p_cache p)" and "p_remaining p \<noteq> Some 0"
  shows "\<exists>p'. visit_all (visit_page d ns q check (\<lambda>_. (g, g)) ranges) rows p = (Ok (), p') \<and>
    p_emitted p' = p_emitted p @ map (\<lambda>r. project (row_record r) (q_select q))
      (take_opt (p_remaining p) (drop (unat (p_skip p)) (List.map_filter f rows)))"
  using assms
proof (induction rows arbitrary: p)
  case Nil
  show ?case by (simp add: List.map_filter_def take_opt_def split: option.splits)
next
  case (Cons r rows)
  from visible_row_shown [OF Cons.prems(2), of d ns q ranges r] Cons.prems(1) [of r] obtain c n where
    v: "visible_row d ns q check (\<lambda>_. (g, g)) ranges p r = (Ok (f r), p\<lparr>p_cache := c, p_asked := n\<rparr>)"
      "cache_ok check may_read g c" by auto
  let ?p = "p\<lparr>p_cache := c, p_asked := n\<rparr>"
  note IH = Cons.IH [OF Cons.prems(1)]
  show ?case
  proof (cases "f r")
    case None
    with IH [of ?p] v Cons.prems(3) show ?thesis by (simp add: visit_page_def map_filter_simps)
  next
    case (Some x)
    show ?thesis
    proof (cases "p_skip p = 0")
      case False
      with IH [of "?p\<lparr>p_skip := p_skip p - 1\<rparr>"] v Some Cons.prems(3) show ?thesis
        by (simp add: visit_page_def map_filter_simps unat_Suc_pred [OF False] word_gt_0)
    next
      case skip: True
      let ?e = "?p\<lparr>p_emitted := p_emitted p @ [project (row_record x) (q_select q)]\<rparr>"
      show ?thesis
      proof (cases "p_remaining p")
        case None
        with IH [of ?e] v Some skip show ?thesis by (simp add: visit_page_def map_filter_simps take_opt_def)
      next
        case (Some left)
        with Cons.prems(3) have "left \<noteq> 0" by simp
        with IH [of "?e\<lparr>p_remaining := Some (left - 1)\<rparr>"] v Some \<open>f r = Some x\<close> skip unat_Suc_pred [OF this] show ?thesis
          by (simp add: visit_page_def map_filter_simps take_opt_def)
      qed
    qed
  qed
qed

lemma shown_row_key:
  "shown_row d ns q check g ranges r = Ok (Some x) \<Longrightarrow> timestamp x = timestamp r \<and> row_tie x = row_tie r"
  by (auto simp: shown_row_def timestamp_def split: if_splits sum.splits option.splits)

lemma mset_map_filter: "mset (List.map_filter f xs) = image_mset (the \<circ> f) (filter_mset (\<lambda>x. f x \<noteq> None) (mset xs))"
  by (simp add: List.map_filter_def)

lemma row_cmp_same_key:
  "newest_first q \<Longrightarrow> timestamp x = timestamp r \<Longrightarrow> row_tie x = row_tie r \<Longrightarrow> timestamp y = timestamp s \<Longrightarrow> row_tie y = row_tie s \<Longrightarrow>
     row_cmp d q x y = row_cmp d q r s"
  by (simp add: row_cmp_default)

lemma map_filter_sorted:
  assumes "newest_first q" and "\<And>r x. r \<in> set rows \<Longrightarrow> f r = Some x \<Longrightarrow> timestamp x = timestamp r \<and> row_tie x = row_tie r"
    and "sorted_by (row_cmp d q) rows"
  shows "sorted_by (row_cmp d q) (List.map_filter f rows)"
  using assms(2,3)
proof (induction rows)
  case (Cons r rows)
  have IH: "sorted_by (row_cmp d q) (List.map_filter f rows)"
    by (rule Cons.IH [OF Cons.prems(1)]) (use Cons.prems(2) in simp_all)
  show ?case
  proof (cases "f r")
    case None
    with IH show ?thesis by (simp add: map_filter_simps)
  next
    case (Some x)
    have "row_cmp d q x y \<noteq> Greater" if "y \<in> set (List.map_filter f rows)" for y
    proof -
      from that obtain s where s: "s \<in> set rows" "f s = Some y" by (auto simp: in_set_map_filter)
      have "row_cmp d q x y = row_cmp d q r s"
        using Cons.prems(1) [of r x] Cons.prems(1) [of s y] s Some by (intro row_cmp_same_key [OF assms(1)]) auto
      with Cons.prems(2) s(1) show ?thesis by simp
    qed
    with IH Some show ?thesis by (simp add: map_filter_simps)
  qed
qed (simp add: map_filter_simps)

lemma map_filter_sort_rows:
  assumes q: "newest_first q" and key: "\<And>r x. r \<in> set rows \<Longrightarrow> f r = Some x \<Longrightarrow> timestamp x = timestamp r \<and> row_tie x = row_tie r"
    and unique: "\<And>x y. x \<in> set rows \<Longrightarrow> y \<in> set rows \<Longrightarrow> row_cmp d q x y = Equal \<Longrightarrow> x = y"
  shows "List.map_filter f (sort_rows d q rows) = sort_rows d q (List.map_filter f rows)"
  unfolding sort_rows_def
proof (rule row_order.sorted_unique [OF _ row_order.sorted_sort_by])
  show "sorted_by (row_cmp d q) (List.map_filter f (sort_by (row_cmp d q) rows))"
    by (rule map_filter_sorted [OF q _ row_order.sorted_sort_by]) (rule key, simp_all)
  show "mset (List.map_filter f (sort_by (row_cmp d q) rows)) = mset (sort_by (row_cmp d q) (List.map_filter f rows))"
    by (simp add: mset_map_filter)
next
  fix x y
  assume "x \<in> set (List.map_filter f (sort_by (row_cmp d q) rows))"
    "y \<in> set (List.map_filter f (sort_by (row_cmp d q) rows))" and eq: "row_cmp d q x y = Equal"
  then obtain r s where r: "r \<in> set rows" "f r = Some x" and s: "s \<in> set rows" "f s = Some y"
    by (auto simp: in_set_map_filter)
  have "row_cmp d q x y = row_cmp d q r s"
    using key [OF r] key [OF s] by (intro row_cmp_same_key [OF q]) auto
  with unique [OF r(1) s(1)] eq r(2) s(2) show "x = y" by simp
qed

text \<open>
  C34. A query in the default order emits the page it promises, although it holds no more than one row
  per shard. While the descriptors do not change and nothing fails, the records it emits are the page
  that gathering all visible rows, sorting them and cutting out \<open>SKIP\<close> and \<open>TAKE\<close> would give, each
  reduced to the selected fields.
\<close>

theorem default_order_page:
  assumes "newest_first q" and "q_take q \<noteq> Some 0" and "\<And>n. \<not> late n" and "allowed \<noteq> []"
    and "\<And>i. i < shards \<Longrightarrow> open_shard db predicates since until lower_ids upper_ids Newest i = Ok (map Ok (events i))"
    and "\<And>i. i < shards \<Longrightarrow> sorted_wrt newer (events i)"
    and rows: "rows = concat (map (\<lambda>i. shard_rows allowed decode i (events i)) [0..<shards])"
    and shown: "\<And>r. r \<in> set rows \<Longrightarrow> shown_row d ns q check g ranges r = Ok (f r)"
  shows "\<exists>p. scan_events db shards late decode allowed predicates since until lower_ids upper_ids Newest
      (visit_page d ns q check (\<lambda>_. (g, g)) ranges) (new_page g q) = (Ok (), p) \<and>
    p_emitted p = map (\<lambda>r. project (row_record r) (q_select q))
      (order_result_rows d q False (List.map_filter f rows))"
proof -
  have sorted: "scan_events db shards late decode allowed predicates since until lower_ids upper_ids Newest
      (visit_page d ns q check (\<lambda>_. (g, g)) ranges) (new_page g q) =
      visit_all (visit_page d ns q check (\<lambda>_. (g, g)) ranges) (sort_rows d q rows) (new_page g q)"
    unfolding rows by (rule newest_scan_rows) (use assms(1,3-6) in auto)
  have map_filter_eq: "List.map_filter f (sort_rows d q rows) = sort_rows d q (List.map_filter f rows)"
  proof (rule map_filter_sort_rows [OF assms(1)])
    show "timestamp x = timestamp r \<and> row_tie x = row_tie r" if "r \<in> set rows" "f r = Some x" for r x
      using shown_row_key [of d ns q check g ranges r x] shown [OF that(1)] that(2) by simp
    show "x = y" if "x \<in> set rows" "y \<in> set rows" "row_cmp d q x y = Equal" for x y
      using row_cmp_Equal_shards [OF assms(1), of "map events [0..<shards]" x allowed decode y d] that assms(6)
      unfolding rows by (simp cong: map_cong)
  qed
  obtain p where p: "visit_all (visit_page d ns q check (\<lambda>_. (g, g)) ranges) (sort_rows d q rows) (new_page g q) = (Ok (), p)"
    "p_emitted p = p_emitted (new_page g q) @ map (\<lambda>r. project (row_record r) (q_select q))
      (take_opt (p_remaining (new_page g q)) (drop (unat (p_skip (new_page g q))) (List.map_filter f (sort_rows d q rows))))"
    using visit_page_rows [of "sort_rows d q rows" d ns q check g ranges f "\<lambda>_ _ _. Ok True" "new_page g q"] shown assms(2)
    by (auto simp: sort_rows_def new_page_def cache_new_ok)
  then have "p_emitted p = map (\<lambda>r. project (row_record r) (q_select q)) (order_result_rows d q False (List.map_filter f rows))"
    by (simp add: map_filter_eq new_page_def order_result_rows_def apply_pagination_eq take_opt_def)
  with sorted p(1) show ?thesis by auto
qed

theorem default_order_page_witness:
  "let e = (\<lambda>i t. \<lparr>er_id = i, er_boot_id = [], er_timestamp = t, er_cpu_id = None, er_sequence = None, er_origin_class = None,
         er_event_type = ''a'', er_effective_token_guid = None, er_true_token_guid = None, er_process_guid = None, er_payload = None\<rparr>);
       db = \<lparr>db_index = (\<lambda>_ _. Ok False),
         db_events = (\<lambda>shard _ _. Ok (map Ok (if shard = 0 then [e 2 8, e 1 3] else [e 1 5])))\<rparr>;
       q = \<lparr>q_source = Events None, q_since = None, q_until = None, q_predicates = [], q_cross_filters = [],
         q_sort = [], q_take = Some 1, q_skip = 1, q_select = [], q_aggregate = None, q_transform = None,
         q_metric_aggregate = None, q_stream = False, q_index = None\<rparr> in
     \<exists>p. scan_events db 2 (\<lambda>_. False) (\<lambda>_. Err ()) [''a''] [] 0 100 [0, 0] [9, 9] Newest
         (visit_page (\<lambda>_. []) NsEvents q (\<lambda>_ _ _. Ok (Some [''event.time''])) (\<lambda>_. (0, 0)) None) (new_page 0 q) = (Ok (), p) \<and>
       map (\<lambda>r. r ''event.time'') (p_emitted p) = [Some (Signed 5)]"
proof -
  let ?e = "\<lambda>i t. \<lparr>er_id = i, er_boot_id = [], er_timestamp = t, er_cpu_id = None, er_sequence = None, er_origin_class = None,
         er_event_type = ''a'', er_effective_token_guid = None, er_true_token_guid = None, er_process_guid = None, er_payload = None\<rparr>"
  let ?events = "\<lambda>shard :: nat. if shard = 0 then [?e 2 8, ?e 1 3] else [?e 1 5]"
  let ?db = "\<lparr>db_index = (\<lambda>_ _. Ok False), db_events = (\<lambda>shard _ _. Ok (map Ok (?events shard)))\<rparr>"
  let ?q = "\<lparr>q_source = Events None, q_since = None, q_until = None, q_predicates = [], q_cross_filters = [],
         q_sort = [], q_take = Some 1, q_skip = 1, q_select = [], q_aggregate = None, q_transform = None,
         q_metric_aggregate = None, q_stream = False, q_index = None\<rparr>"
  let ?f = "\<lambda>r. Some (r\<lparr>row_record := row_record r |` {''event.time''}\<rparr>)"
  let ?rows = "concat (map (\<lambda>i. shard_rows [''a''] (\<lambda>_. Err ()) i (?events i)) [0..<2])"
  have "referenced_fields ?q = []" by (simp add: referenced_fields_def source_fields_def)
  then have shown: "shown_row (\<lambda>_. []) NsEvents ?q (\<lambda>_ _ _. Ok (Some [''event.time''])) 0 None r = Ok (?f r)" for r :: row
    by (simp add: shown_row_def)
  have "open_shard ?db [] 0 100 [0, 0] [9, 9] Newest i = Ok (map Ok (?events i))" for i
    by (simp add: open_shard_def shard_constraint_def event_select_def Let_def)
  moreover have "sorted_wrt newer (?events i)" for i by (simp add: newer_def)
  ultimately obtain p where p: "scan_events ?db 2 (\<lambda>_. False) (\<lambda>_. Err ()) [''a''] [] 0 100 [0, 0] [9, 9] Newest
      (visit_page (\<lambda>_. []) NsEvents ?q (\<lambda>_ _ _. Ok (Some [''event.time''])) (\<lambda>_. (0, 0)) None) (new_page 0 ?q) = (Ok (), p)"
    "p_emitted p = map (\<lambda>r. project (row_record r) (q_select ?q)) (order_result_rows (\<lambda>_. []) ?q False (List.map_filter ?f ?rows))"
    using default_order_page [of ?q "\<lambda>_. False" "[''a'']" 2 ?db "[]" 0 100 "[0, 0]" "[9, 9]" ?events ?rows "\<lambda>_. Err ()"
        "\<lambda>_. []" NsEvents "\<lambda>_ _ _. Ok (Some [''event.time''])" 0 None ?f] shown by auto
  have "map (\<lambda>r. r ''event.time'') (p_emitted p) = [Some (Signed 5)]"
    unfolding p(2) by (simp add: map_filter_simps order_result_rows_def sort_rows_def row_cmp_def event_result_row_def event_record_def
        event_header_def timestamp_def i64_cmp_def cmp_ord_def apply_pagination_def project_def upt_rec [of 0] numeral_2_eq_2 Let_def)
  with p(1) show ?thesis by (auto simp: Let_def)
qed

end
