(* ===== verification/Row_Narrowing.thy ===== *)
theory Row_Narrowing
  imports Index_Narrowing Row_Scan
begin

text \<open>
  Narrowing a scan by an index. The executor may add to a shard's SELECT that a payload index has the key
  of a predicate's literal; the predicate is still evaluated on each row, so the only question is whether
  a row that satisfies it can be missed. For an equality it cannot, whatever the payload; for \<open>IS NULL\<close>
  it can, since the index and the flattener differ on repeated keys.
\<close>

section \<open>Keys\<close>

lemma fold_ascii_byte: "fold_ascii (byte_of c) = byte_of (to_ascii_lowercase c)"
proof -
  have "byte_of (char_of (code c + 32)) = byte_of c + 32" if "code c \<le> 90"
    using that by (simp add: word_unat_eq_iff unat_byte_of of_char_of unat_word_ariths)
  then show ?thesis
    by (auto simp: fold_ascii_def to_ascii_lowercase_def is_ascii_uppercase_def word_le_nat_alt unat_byte_of)
qed

lemma folded_bytes: "lowercase s = lowercase t \<Longrightarrow> map (fold_ascii \<circ> byte_of) s = map (fold_ascii \<circ> byte_of) t"
proof -
  have "map (fold_ascii \<circ> byte_of) s = map byte_of (lowercase s)" for s by (simp add: fold_ascii_byte)
  then show "lowercase s = lowercase t \<Longrightarrow> ?thesis" by metis
qed

text \<open>A value that equals a literal with a key has that key.\<close>

fun literal_key :: "literal \<Rightarrow> u8 list option" where
  "literal_key (LBool b) = Some (query_key (PBool b))"
| "literal_key (LString s) = Some (query_key (PString s))"
| "literal_key (LBinary b) = Some (query_key (PBinary b))"
| "literal_key _ = None"

fun plain_value :: "literal \<Rightarrow> qvalue" where
  "plain_value (LSigned v) = Signed v"
| "plain_value (LUnsigned v) = Unsigned v"
| "plain_value (LFloat v) = Float v"
| "plain_value (LString s) = String s"
| "plain_value (LBinary v) = Binary v"
| "plain_value (LBool v) = Bool v"

lemma equal_leaf_key:
  assumes "represents x v" and "language_equal v (plain_value l)" and "literal_key l = Some key"
  shows "leaf_key x = Some key"
proof -
  have "canonical_value v = canonical_value (plain_value l)" using assms(2) by (simp add: language_equal_canonical_all)
  with assms(1,3) show ?thesis
    by (cases l; cases rule: represents.cases) (auto intro: folded_bytes dest: canonical_not_number elim: is_number.elims)
qed

section \<open>Fields of the payload\<close>

lemma header_path_itself: "field \<in> fst ` set HEADER_FIELDS \<Longrightarrow> under_header_path field"
  unfolding under_header_path_iff by force

lemma header_fields_reserved: "event_header e field \<noteq> None \<Longrightarrow> under_header_path field"
  by (rule header_path_itself) (auto simp: event_header_def HEADER_FIELDS_def split: if_splits)

lemma literal_value_plain:
  assumes "\<not> under_header_path field"
  shows "literal_value NsEvents field l = plain_value l"
proof -
  have "field \<noteq> ''emitter.class''" "\<not> is_guid_field NsEvents field"
    using assms header_path_itself by (auto simp: is_guid_field_def HEADER_FIELDS_def)
  then show ?thesis by (cases l) simp_all
qed

text \<open>What the platform's reader makes of a payload, as its documentation states it.\<close>

definition decodes :: "(u8 list \<Rightarrow> 'e + qvalue) \<Rightarrow> u8 list \<Rightarrow> (mp \<times> mp) list \<Rightarrow> bool" where
  "decodes decode bs kvs \<longleftrightarrow>
     (\<exists>n. n < MAX_DEPTH \<and> encodes n (MMap kvs) bs) \<and> (\<exists>es. decode bs = Ok (Map es) \<and> represents_entries kvs es)"

lemma event_field_leaf:
  assumes "er_payload e = Some bs" and "decodes decode bs kvs" and field: "valid_field_path field" "\<not> under_header_path field"
    and "event_record decode e field = Some v"
  shows "\<exists>x. find_leaf (segments_of field) kvs = Some x \<and> represents x v \<and> extract_key bs field = leaf_key x"
proof -
  from assms(2) obtain n es where n: "n < MAX_DEPTH" "encodes n (MMap kvs) bs" and es: "decode bs = Ok (Map es)" "represents_entries kvs es"
    by (auto simp: decodes_def)
  have segs: "path_of (segments_of field) = field" "list_all valid_segment (segments_of field)"
    using field(1) by (simp_all add: valid_field_path_def)
  have "event_header e field = None" using header_fields_reserved field(2) by blast
  moreover have "flatten_entries es [] (event_header e) field = Some v"
    using assms(1,5) es(1) by (simp add: event_record_def flatten_event_payload_def)
  ultimately obtain x where x: "find_leaf (segments_of field) kvs = Some x" "represents x v"
    using flatten_find [of "[]" kvs es "segments_of field" "event_header e" v] es(2) segs field(2) by auto
  with extract_key_find [OF n(2,1) field, of "[]"] show ?thesis by auto
qed

lemma payload_search_literal:
  "payload_search (Compare field op l) = Some (f, Some key) \<Longrightarrow> f = field \<and> op = OpEqual \<and> literal_key l = Some key"
  by (cases op; cases l) auto

lemma payload_search_kinds:
  "payload_search p = Some (f, Some key) \<Longrightarrow> \<exists>l. p = Compare f OpEqual l \<and> literal_key l = Some key"
  by (cases p) (auto dest: payload_search_literal split: if_splits)

lemma equality_found:
  assumes "er_payload e = Some bs" and "decodes decode bs kvs" and "expression field \<noteq> None"
    and "evaluate d NsEvents (Compare field OpEqual l) (event_record decode e) = Ok True" and "literal_key l = Some key"
  shows "extract_key bs field = Some key"
proof -
  have field: "valid_field_path field" "\<not> under_header_path field" using assms(3) by (auto simp: expression_def split: if_splits)
  from assms(4) literal_value_plain [OF field(2)] obtain v where v: "event_record decode e field = Some v"
    "language_equal v (plain_value l)"
    by (auto simp: present_def compare_values_def split: option.splits if_splits)
  from event_field_leaf [OF assms(1,2) field v(1)] equal_leaf_key [OF _ v(2) assms(5)] show ?thesis by auto
qed

lemma payload_constraint_found:
  assumes payload: "er_payload e = Some bs" "decodes decode bs kvs"
  shows "sql_payload_constraint material p = Ok (Some c) \<Longrightarrow> evaluate d NsEvents p (event_record decode e) = Ok True \<Longrightarrow>
    sc_value c = Some v \<Longrightarrow> \<exists>field x key. expression field = Some x \<and> sc_sql c = x @ '' = ?5'' \<and> v = SqlBlob key \<and>
      extract_key bs field = Some key"
proof (induction p)
  case (And l r)
  then show ?case by (auto simp: rbind_Ok_iff split: option.splits if_splits)
next
  case (Compare field op l)
  then obtain f key x where k: "payload_search (Compare field op l) = Some (f, Some key)" "expression f = Some x"
    "sc_sql c = x @ '' = ?5''" "v = SqlBlob key"
    by (auto simp: rbind_Ok_iff split: option.splits if_splits)
  then have eq: "f = field" "op = OpEqual" "literal_key l = Some key" using payload_search_literal by auto
  from equality_found [OF payload, of field d l key] k eq Compare.prems(2) have "extract_key bs field = Some key" by simp
  with k eq show ?case by blast
qed (auto simp: rbind_Ok_iff split: option.splits if_splits)

section \<open>Properties\<close>


lemma one_entry_decodes:
  "decodes (\<lambda>_. Ok (Map [(String ''n'', String ''X'')])) [0x81, 0xa1, 0x6e, 0xa1, 0x58] [(MStr [0x6e], MStr [0x58])]"
proof -
  have n: "encodes 0 (MStr [0x6e]) ([0xa1] @ [0x6e])" and x: "encodes 0 (MStr [0x58]) ([0xa1] @ [0x58])"
    by (rule enc_str, simp add: str_header_def)+
  have "encodes_all 0 (flat_entries [(MStr [0x6e], MStr [0x58])]) (([0xa1] @ [0x6e]) @ ([0xa1] @ [0x58]) @ [])"
    unfolding flat_entries_simps by (intro enc_all_cons enc_all_nil n x)
  then have "encodes (Suc 0) (MMap [(MStr [0x6e], MStr [0x58])]) ([0x81] @ (([0xa1] @ [0x6e]) @ ([0xa1] @ [0x58]) @ []))"
    by (intro enc_map) (simp_all add: map_header_def)
  moreover have "represents (MStr [0x6e]) (String ''n'')" "represents (MStr [0x58]) (String ''X'')"
    by (rule rep_str; simp add: from_utf8_Some byte_of_def word_order)+
  ultimately show ?thesis unfolding decodes_def
    by (intro conjI exI [of _ 1] exI [of _ "[(String ''n'', String ''X'')]"]) (simp_all add: MAX_DEPTH_def)
qed



end
