(* ===== verification/Query_Time.thy ===== *)
theory Query_Time
  imports Time_Ranges Query_Text
begin

text \<open>
  The times a query names (\<^verbatim>\<open>eventd/src/query/executor/time.rs\<close>): durations back or forth from the moment
  of evaluation, the current and the previous day, and calendar times. Nanoseconds since the epoch are
  64-bit in the code; here they are integers, with the checked and the wrapping operations written out.
  The calendar arithmetic is shown to count days, one by one, in both directions from 1 January 1970.
\<close>

section \<open>Times\<close>

definition NANOSECONDS_PER_DAY :: int where "NANOSECONDS_PER_DAY = 86400000000000"

definition checked_i64 :: "int \<Rightarrow> int option" where
  "checked_i64 v = (if I64_MIN \<le> v \<and> v \<le> I64_MAX then Some v else None)"

definition wrap_i64 :: "int \<Rightarrow> int" where
  "wrap_i64 v = sint (word_of_int v :: i64)"

definition days_in_month :: "int \<Rightarrow> int \<Rightarrow> int" where
  "days_in_month year month =
     (if month = 2 then if year mod 4 = 0 \<and> (year mod 100 \<noteq> 0 \<or> year mod 400 = 0) then 29 else 28
      else if month \<in> {4, 6, 9, 11} then 30 else 31)"

definition days_from_civil :: "int \<Rightarrow> int \<Rightarrow> int \<Rightarrow> int" where
  "days_from_civil y month day =
     (let year = y - (if month \<le> 2 then 1 else 0);
          era = year div 400;
          year_of_era = year - era * 400;
          shifted_month = month + (if month > 2 then - 3 else 9);
          day_of_year = (153 * shifted_month + 2) div 5 + day - 1;
          day_of_era = year_of_era * 365 + year_of_era div 4 - year_of_era div 100 + day_of_year in
      era * 146097 + day_of_era - 719468)"

definition component :: "string \<Rightarrow> nat \<Rightarrow> nat \<Rightarrow> query_error abort + int" where
  "component v a b =
     (case str_slice v a b of
        Err _ \<Rightarrow> Err Panicked
      | Ok s \<Rightarrow> (case parse_i64 s of None \<Rightarrow> Err (Raised InvalidTime) | Some n \<Rightarrow> Ok (sint n)))"

definition parse_absolute_time :: "string \<Rightarrow> query_error abort + int" where
  "parse_absolute_time v =
     rbind (component v 0 4) (\<lambda>year.
     rbind (component v 5 7) (\<lambda>month.
     rbind (component v 8 10) (\<lambda>day.
       if \<not> (1 \<le> month \<and> month \<le> 12) \<or> \<not> (1 \<le> day \<and> day \<le> days_in_month year month) then Err (Raised InvalidTime)
       else
         rbind (if length v = 19
            then rbind (component v 11 13) (\<lambda>hour. rbind (component v 14 16) (\<lambda>minute. rbind (component v 17 19) (\<lambda>second.
              Ok (hour, minute, second))))
            else Ok (0, 0, 0)) (\<lambda>(hour, minute, second).
         if \<not> (0 \<le> hour \<and> hour \<le> 23) \<or> \<not> (0 \<le> minute \<and> minute \<le> 59) \<or> \<not> (0 \<le> second \<and> second \<le> 59)
         then Err (Raised InvalidTime)
         else
           case Option.bind (checked_i64 (days_from_civil year month day * 86400)) (\<lambda>n.
                Option.bind (checked_i64 (n + (hour * 3600 + minute * 60 + second))) (\<lambda>n.
                  checked_i64 (n * 1000000000))) of
             Some n \<Rightarrow> Ok n
           | None \<Rightarrow> Err (Raised InvalidTime)))))"

definition resolve_time :: "time_expr \<Rightarrow> int \<Rightarrow> query_error abort + int" where
  "resolve_time t evaluation =
     (case t of
        Relative nanoseconds future \<Rightarrow>
          (case checked_i64 (uint nanoseconds) of
             None \<Rightarrow> Err (Raised InvalidTime)
           | Some delta \<Rightarrow>
               (case checked_i64 (if future then evaluation + delta else evaluation - delta) of
                  None \<Rightarrow> Err (Raised InvalidTime)
                | Some n \<Rightarrow> Ok n))
      | Today \<Rightarrow> Ok (wrap_i64 (evaluation div NANOSECONDS_PER_DAY * NANOSECONDS_PER_DAY))
      | Yesterday \<Rightarrow>
          Ok (wrap_i64 (wrap_i64 (evaluation div NANOSECONDS_PER_DAY * NANOSECONDS_PER_DAY) - NANOSECONDS_PER_DAY))
      | Absolute v \<Rightarrow> parse_absolute_time v)"

definition query_time_range :: "query \<Rightarrow> int \<Rightarrow> query_error abort + int \<times> int" where
  "query_time_range q evaluation =
     rbind (case q_since q of None \<Rightarrow> Ok 0 | Some t \<Rightarrow> resolve_time t evaluation) (\<lambda>since.
     rbind (case q_until q of None \<Rightarrow> Ok evaluation | Some t \<Rightarrow> resolve_time t evaluation) (\<lambda>until.
       Ok (since, until)))"

section \<open>The calendar\<close>

type_synonym date = "int \<times> int \<times> int"

fun valid_date :: "date \<Rightarrow> bool" where
  "valid_date (y, m, d) \<longleftrightarrow> 1 \<le> m \<and> m \<le> 12 \<and> 1 \<le> d \<and> d \<le> days_in_month y m"

fun next_day :: "date \<Rightarrow> date" where
  "next_day (y, m, d) =
     (if d < days_in_month y m then (y, m, d + 1) else if m < 12 then (y, m + 1, 1) else (y + 1, 1, 1))"

fun previous_day :: "date \<Rightarrow> date" where
  "previous_day (y, m, d) =
     (if 1 < d then (y, m, d - 1) else if 1 < m then (y, m - 1, days_in_month y (m - 1)) else (y - 1, 12, 31))"

definition date_of :: "int \<Rightarrow> date" where
  "date_of n = (if 0 \<le> n then (next_day ^^ nat n) (1970, 1, 1) else (previous_day ^^ nat (- n)) (1970, 1, 1))"

fun day_number :: "date \<Rightarrow> int" where
  "day_number (y, m, d) = days_from_civil y m d"

lemma month_cases:
  "1 \<le> (m :: int) \<Longrightarrow> m \<le> 12 \<Longrightarrow> m = 1 \<or> m = 2 \<or> m = 3 \<or> m = 4 \<or> m = 5 \<or> m = 6 \<or> m = 7 \<or> m = 8 \<or> m = 9 \<or> m = 10 \<or> m = 11 \<or> m = 12"
  by presburger

definition year_days :: "int \<Rightarrow> int" where
  "year_days y = 365 * y + y div 4 - y div 100 + y div 400"

lemma era_days: "y div 400 * 146097 + ((y - y div 400 * 400) * 365 + (y - y div 400 * 400) div 4 - (y - y div 400 * 400) div 100) = year_days y"
proof -
  define q r where "q = y div 400" and "r = y mod 400"
  have y: "y = 400 * q + r" "0 \<le> r" "r < 400" by (simp_all add: q_def r_def)
  have "y = r + 100 * q * 4" "y = r + 4 * q * 100" using y(1) by simp_all
  then have "y div 4 = 100 * q + r div 4" "y div 100 = 4 * q + r div 100" by (metis add.commute div_mult_self1 zero_neq_numeral)+
  then show ?thesis using y by (simp add: year_days_def q_def [symmetric])
qed

lemma div_succ: "0 < k \<Longrightarrow> (y + 1) div k = y div k + (if (y + 1) mod k = 0 then 1 else 0)" for y k :: int
proof -
  assume k: "0 < k"
  have y: "y + 1 = k * (y div k) + (y mod k + 1)" by simp
  have r: "0 \<le> y mod k" "y mod k < k" using k by simp_all
  show ?thesis
  proof (cases "y mod k + 1 = k")
    case True
    with y have "y + 1 = k * (y div k + 1)" by (simp only: ring_distribs mult_1_right)
    with k show ?thesis by (metis (full_types) mod_mult_self1_is_0 nonzero_mult_div_cancel_left order_less_irrefl)
  next
    case False
    with r have "y mod k + 1 < k" by simp
    with int_div_pos_eq [OF y] int_mod_pos_eq [OF y] r show ?thesis by simp
  qed
qed

lemma year_days_succ:
  "year_days (y + 1) = year_days y + (if (y + 1) mod 4 = 0 \<and> ((y + 1) mod 100 \<noteq> 0 \<or> (y + 1) mod 400 = 0) then 366 else 365)"
proof -
  have "(400 :: int) dvd x \<Longrightarrow> 100 dvd x" "(100 :: int) dvd x \<Longrightarrow> 4 dvd x" for x
    using dvd_trans [of "100 :: int" 400] dvd_trans [of "4 :: int" 100] by simp_all
  note d = this [of "y + 1"]
  have s: "(y + 1) div 4 = y div 4 + (if 4 dvd y + 1 then 1 else 0)" "(y + 1) div 100 = y div 100 + (if 100 dvd y + 1 then 1 else 0)"
    "(y + 1) div 400 = y div 400 + (if 400 dvd y + 1 then 1 else 0)"
    using div_succ [of _ y] by (simp_all only: mod_eq_0_iff_dvd zero_less_numeral)
  show ?thesis unfolding year_days_def s mod_eq_0_iff_dvd using d
    by (cases "4 dvd y + 1"; cases "100 dvd y + 1"; cases "400 dvd y + 1") simp_all
qed

lemma days_from_civil_eq:
  "days_from_civil y m d =
     (if m \<le> 2 then year_days (y - 1) + (153 * (m + 9) + 2) div 5 else year_days y + (153 * (m - 3) + 2) div 5) + d - 719469"
  using era_days [of "y - 1"] era_days [of y] by (simp add: days_from_civil_def Let_def)

lemma days_from_civil_month:
  assumes "1 \<le> m" and "m \<le> 11"
  shows "days_from_civil y (m + 1) 1 = days_from_civil y m 1 + days_in_month y m"
proof -
  have "m \<le> 12" using assms(2) by simp
  from month_cases [OF assms(1) this] assms(2) show ?thesis using year_days_succ [of "y - 1"]
    by (elim disjE) (simp_all add: days_from_civil_eq days_in_month_def)
qed

lemma days_from_civil_year: "days_from_civil (y + 1) 1 1 = days_from_civil y 12 1 + 31"
  by (simp add: days_from_civil_eq)

lemma days_from_civil_day: "days_from_civil y m d = days_from_civil y m 1 + (d - 1)"
  by (simp add: days_from_civil_eq)

lemma days_in_month_range: "28 \<le> days_in_month y m" "days_in_month y m \<le> 31"
  by (simp_all add: days_in_month_def)

lemma days_in_december [simp]: "days_in_month y 12 = 31"
  by (simp add: days_in_month_def)

lemma next_day_valid: "valid_date x \<Longrightarrow> valid_date (next_day x) \<and> day_number (next_day x) = day_number x + 1"
proof (cases x)
  case (fields y m d)
  assume "valid_date x"
  with fields days_in_month_range [of y m] days_in_month_range [of y "m + 1"] days_from_civil_month [of m y] days_from_civil_year [of y]
    days_from_civil_day [of y m d] days_from_civil_day [of y m "d + 1"] show ?thesis
    by (cases "m = 12") (auto simp: days_in_month_def [of _ 1])
qed

lemma previous_day_valid: "valid_date x \<Longrightarrow> valid_date (previous_day x) \<and> day_number (previous_day x) = day_number x - 1"
proof (cases x)
  case (fields y m d)
  assume "valid_date x"
  with fields days_in_month_range [of y "m - 1"] days_from_civil_month [of "m - 1" y] days_from_civil_year [of "y - 1"]
    days_from_civil_day [of y m d] days_from_civil_day [of y m "d - 1"] days_from_civil_day [of "y - 1" 12 31]
    days_from_civil_day [of y "m - 1" "days_in_month y (m - 1)"] show ?thesis
    by (cases "m = 1") auto
qed

lemma epoch_day: "valid_date (1970, 1, 1)" "day_number (1970, 1, 1) = 0"
  by (simp_all add: days_in_month_def days_from_civil_def)

lemma iterate_days:
  "valid_date ((next_day ^^ n) (1970, 1, 1)) \<and> day_number ((next_day ^^ n) (1970, 1, 1)) = int n"
  "valid_date ((previous_day ^^ n) (1970, 1, 1)) \<and> day_number ((previous_day ^^ n) (1970, 1, 1)) = - int n"
  by (induction n) (auto simp: next_day_valid previous_day_valid epoch_day
      simp del: next_day.simps previous_day.simps day_number.simps valid_date.simps)

lemma date_of_day: "valid_date (date_of n) \<and> day_number (date_of n) = n"
  using iterate_days [of "nat n"] iterate_days [of "nat (- n)"] by (simp add: date_of_def)

lemma year_days_mono: "y \<le> z \<Longrightarrow> year_days y \<le> year_days z"
  by (induction z rule: int_ge_induct) (auto simp: year_days_succ)

lemma day_number_bounds:
  assumes "valid_date (y, m, d)" and "0 \<le> y" and "y \<le> 9999"
  shows "- 800000 \<le> day_number (y, m, d) \<and> day_number (y, m, d) \<le> 3000000"
proof -
  have m: "1 \<le> m" "m \<le> 12" "1 \<le> d" "d \<le> 31" using assms(1) days_in_month_range(2) [of y m] by auto
  have "year_days (- 1) \<le> year_days y" "year_days y \<le> year_days 9999" "year_days (- 1) \<le> year_days (y - 1)"
      "year_days (y - 1) \<le> year_days 9999"
    using assms(2,3) by (auto intro!: year_days_mono)
  moreover have "year_days (- 1) = - 366" "year_days 9999 = 3652059" by (simp_all add: year_days_def)
  ultimately show ?thesis using month_cases [OF m(1,2)] m(3,4) by (elim disjE) (simp_all add: days_from_civil_eq)
qed

section \<open>Calendar times as text\<close>

definition digit :: "nat \<Rightarrow> char" where
  "digit n = char_of (48 + n mod 10)"

definition two_digits :: "nat \<Rightarrow> string" where
  "two_digits n = [digit (n div 10), digit n]"

fun date_text :: "date \<Rightarrow> string" where
  "date_text (y, m, d) =
     two_digits (nat y div 100) @ two_digits (nat y) @ ''-'' @ two_digits (nat m) @ ''-'' @ two_digits (nat d)"

definition clock_text :: "nat \<Rightarrow> string" where
  "clock_text seconds =
     ''T'' @ two_digits (seconds div 3600) @ '':'' @ two_digits (seconds div 60 mod 60) @ '':'' @ two_digits (seconds mod 60)"

lemma code_digit: "code (digit n) = 48 + n mod 10"
  by (simp add: digit_def)

lemma is_digit: "is_ascii_digit (digit n)" "digit_value (digit n) = n mod 10"
  by (simp_all add: is_ascii_digit_def digit_value_def code_digit)

lemma component_digits:
  assumes "list_all ascii v" and "v = before @ ds @ after" and "a = length before" and "b = length before + length ds"
    and "ds \<noteq> []" and "list_all is_ascii_digit ds" and "decimal_nat ds < 2 ^ 63"
  shows "component v a b = Ok (int (decimal_nat ds))"
proof -
  have "is_char_boundary v i" if "i \<le> length v" for i
    using that assms(1) boundary_ascii [of i v] by (cases "i = length v") (auto simp: list_all_length is_char_boundary_def)
  then have "str_slice v a b = Ok ds" using assms(2-4) by (simp add: str_slice_def)
  moreover have "strip_plus ds = ds" "hd ds \<noteq> CHR ''-''"
    using assms(5,6) by (cases ds; auto simp: strip_plus_def is_ascii_digit_def)+
  then have "parse_i64 ds = Some (of_nat (decimal_nat ds))"
    using assms(5-7) by (cases ds) (auto simp: parse_i64_def Let_def)
  moreover have "sint (of_nat (decimal_nat ds) :: i64) = int (decimal_nat ds)"
    using assms(7) int_word_sint [of "int (decimal_nat ds)", where 'a = 64] by simp
  ultimately show ?thesis by (simp add: component_def)
qed

lemma two_digits_simps [simp]: "length (two_digits n) = 2" "two_digits n \<noteq> []" "list_all is_ascii_digit (two_digits n)"
    "list_all ascii (two_digits n)"
proof -
  have "k mod 10 < 80" for k :: nat using mod_less_divisor [of 10 k] by linarith
  then show "list_all ascii (two_digits n)" by (simp add: two_digits_def ascii_def code_digit)
qed (simp_all add: two_digits_def is_digit)

lemma decimal_two_digits [simp]:
  "decimal_nat (two_digits n) = n mod 100"
  "decimal_nat (two_digits (n div 100) @ two_digits n) = n mod 10000"
proof -
  have "k mod 100 = 10 * (k div 10 mod 10) + k mod 10" "k mod 10000 = 100 * (k div 100 mod 100) + k mod 100" for k :: nat
    using mod_mult2_eq [of k 10 10] mod_mult2_eq [of k 100 100] by simp_all
  moreover have horner: "10 * (10 * 0 + a) + b = 10 * a + b" "10 * (10 * (10 * a + b) + c) + d = 100 * (10 * a + b) + (10 * c + d)"
    for a b c d :: nat by simp_all
  ultimately show
    "decimal_nat (two_digits n) = n mod 100" "decimal_nat (two_digits (n div 100) @ two_digits n) = n mod 10000"
    by (simp_all only: two_digits_def decimal_nat_def append.simps foldl.simps is_digit horner)
qed

lemma date_components:
  assumes "valid_date (y, m, d)" and "0 \<le> y" and "y \<le> 9999" and "list_all ascii rest"
  shows "component (date_text (y, m, d) @ rest) 0 4 = Ok y" "component (date_text (y, m, d) @ rest) 5 7 = Ok m"
    "component (date_text (y, m, d) @ rest) 8 10 = Ok d"
proof -
  let ?v = "date_text (y, m, d) @ rest" and ?y = "two_digits (nat y div 100) @ two_digits (nat y)"
  have v: "list_all ascii ?v" using assms(4) by (simp add: ascii_def)
  have r: "1 \<le> m" "m \<le> 12" "1 \<le> d" "d \<le> 31" using assms(1) days_in_month_range(2) [of y m] by auto
  show "component ?v 0 4 = Ok y"
    using component_digits [OF v, of "[]" ?y] assms(2,3) by simp
  show "component ?v 5 7 = Ok m"
    using component_digits [OF v, of "?y @ ''-''" "two_digits (nat m)"] r by simp
  show "component ?v 8 10 = Ok d"
    using component_digits [OF v, of "?y @ ''-'' @ two_digits (nat m) @ ''-''" "two_digits (nat d)"] r by simp
qed

lemma clock_components:
  assumes "length before = 10" and "list_all ascii before" and "seconds < 86400"
  shows "component (before @ clock_text seconds) 11 13 = Ok (int (seconds div 3600))"
    "component (before @ clock_text seconds) 14 16 = Ok (int (seconds div 60 mod 60))"
    "component (before @ clock_text seconds) 17 19 = Ok (int (seconds mod 60))"
proof -
  let ?v = "before @ clock_text seconds" and ?h = "two_digits (seconds div 3600)" and ?m = "two_digits (seconds div 60 mod 60)"
  have v: "list_all ascii ?v" using assms(2) by (simp add: clock_text_def ascii_def)
  have h: "seconds div 3600 < 24" using assms(3) by (simp add: div_less_iff_less_mult)
  show "component ?v 11 13 = Ok (int (seconds div 3600))"
    using component_digits [OF v, of "before @ ''T''" ?h] h assms(1) by (simp add: clock_text_def)
  have "seconds div 60 mod 60 < 60" by simp
  then show "component ?v 14 16 = Ok (int (seconds div 60 mod 60))"
    using component_digits [OF v, of "before @ ''T'' @ ?h @ '':''" ?m] assms(1) by (simp add: clock_text_def)
  have "seconds mod 60 < 60" by simp
  then show "component ?v 17 19 = Ok (int (seconds mod 60))"
    using component_digits [OF v, of "before @ ''T'' @ ?h @ '':'' @ ?m @ '':''" "two_digits (seconds mod 60)"] assms(1)
    by (simp add: clock_text_def)
qed

lemma clock_join: "s = q * 60 + r \<Longrightarrow> q = h * 60 + m \<Longrightarrow> int h * 3600 + int m * 60 + int r = int s"
  by simp

lemma clock_split: "int (s div 3600) * 3600 + int (s div 60 mod 60) * 60 + int (s mod 60) = int s"
proof (rule clock_join [of s "s div 60"])
  have "s div 3600 = s div 60 div 60" by (simp add: div_mult2_eq [symmetric])
  then show "s div 60 = s div 3600 * 60 + s div 60 mod 60" by (simp only: div_mult_mod_eq)
qed simp

lemma checked_time:
  assumes "- 800000 \<le> n" and "n \<le> 3000000" and "0 \<le> s" and "s < 86400"
  shows "Option.bind (checked_i64 (n * 86400)) (\<lambda>k. Option.bind (checked_i64 (k + s)) (\<lambda>k. checked_i64 (k * 1000000000))) =
    checked_i64 ((n * 86400 + s) * 1000000000)"
  using assms by (simp add: checked_i64_def I64_MIN_def I64_MAX_def)

lemma parse_time_parts:
  assumes "component v 0 4 = Ok y" and "component v 5 7 = Ok m" and "component v 8 10 = Ok d" and "valid_date (y, m, d)"
    and "length v = 19" and "component v 11 13 = Ok h" and "component v 14 16 = Ok mi" and "component v 17 19 = Ok s"
    and "0 \<le> h" "h \<le> 23" "0 \<le> mi" "mi \<le> 59" "0 \<le> s" "s \<le> 59" and "h * 3600 + mi * 60 + s = c"
    and b: "- 800000 \<le> days_from_civil y m d" "days_from_civil y m d \<le> 3000000"
  shows "parse_absolute_time v =
    (case checked_i64 ((days_from_civil y m d * 86400 + c) * 1000000000) of Some t \<Rightarrow> Ok t | None \<Rightarrow> Err (Raised InvalidTime))"
proof -
  have c: "0 \<le> c" "c < 86400" using assms(9-15) by linarith+
  with assms(1-15) checked_time [OF b c] show ?thesis by (simp add: parse_absolute_time_def)
qed

text \<open>The separators make every slice of an accepted absolute time end between characters.\<close>

lemma component_no_panic:
  "a \<le> b \<Longrightarrow> b \<le> length v \<Longrightarrow> is_char_boundary v a \<Longrightarrow> is_char_boundary v b \<Longrightarrow>
   (component v a b = Err Panicked) = False"
  by (auto simp: component_def str_slice_ok split: option.splits)

lemma absolute_time_no_panic:
  assumes "valid_time_shape v" and "valid_text v"
  shows "parse_absolute_time v \<noteq> Err Panicked"
proof -
  note after = boundary_after_ascii [OF assms(2)]
  have start: "is_char_boundary v 0" and stop: "is_char_boundary v (length v)" by (simp_all add: is_char_boundary_def)
  have date: "is_char_boundary v 4" "is_char_boundary v 5" "is_char_boundary v 7" "is_char_boundary v 8" "is_char_boundary v 10" "10 \<le> length v"
    using assms(1) boundary_ascii [of 4 v] after [of 4] boundary_ascii [of 7 v] after [of 7] boundary_ascii [of 10 v] stop
    by (auto simp: valid_time_shape_def byte_at_def ascii_def)
  have "component v 11 13 \<noteq> Err Panicked \<and> component v 14 16 \<noteq> Err Panicked \<and> component v 17 19 \<noteq> Err Panicked"
    if l: "length v = 19"
    using that assms(1) after [of 10] boundary_ascii [of 13 v] after [of 13] boundary_ascii [of 16 v] after [of 16] stop
    by (auto simp: valid_time_shape_def byte_at_def ascii_def component_no_panic)
  moreover have "component v 0 4 \<noteq> Err Panicked" "component v 5 7 \<noteq> Err Panicked" "component v 8 10 \<noteq> Err Panicked"
    using date start by (simp_all add: component_no_panic)
  ultimately show ?thesis by (auto simp: parse_absolute_time_def rbind_Err_iff split: if_splits option.splits)
qed

lemma wrap_i64_small: "I64_MIN \<le> v \<Longrightarrow> v \<le> I64_MAX \<Longrightarrow> wrap_i64 v = v"
  using int_word_sint [of v, where 'a = 64] by (simp add: wrap_i64_def I64_MIN_def I64_MAX_def)

lemma today_starts:
  assumes "I64_MIN + 2 * NANOSECONDS_PER_DAY \<le> evaluation" and "evaluation \<le> I64_MAX"
  shows "\<exists>t. resolve_time Today evaluation = Ok t \<and> resolve_time Yesterday evaluation = Ok (t - NANOSECONDS_PER_DAY) \<and>
    t \<le> evaluation \<and> evaluation < t + NANOSECONDS_PER_DAY \<and> NANOSECONDS_PER_DAY dvd t"
proof -
  let ?t = "evaluation div NANOSECONDS_PER_DAY * NANOSECONDS_PER_DAY"
  have d: "?t \<le> evaluation" "evaluation < ?t + NANOSECONDS_PER_DAY"
    using div_mult_mod_eq [of evaluation NANOSECONDS_PER_DAY] pos_mod_bound [of NANOSECONDS_PER_DAY evaluation]
      pos_mod_sign [of NANOSECONDS_PER_DAY evaluation] by (simp_all add: NANOSECONDS_PER_DAY_def)
  then have "wrap_i64 ?t = ?t" "wrap_i64 (?t - NANOSECONDS_PER_DAY) = ?t - NANOSECONDS_PER_DAY"
    using assms by (auto intro!: wrap_i64_small simp: NANOSECONDS_PER_DAY_def)
  with d show ?thesis by (intro exI [of _ ?t]) (simp add: resolve_time_def)
qed

section \<open>Properties\<close>

text \<open>
  C37. Calendar times are read as the calendar counts them: the text of the \<open>n\<close>-th day after (or before)
  1 January 1970, alone or with a clock time, is read as the nanoseconds since that midnight, or refused
  when they do not fit 64 bits. \<open>date_of\<close> reaches the day by stepping one day at a time.
\<close>

theorem calendar_time_exact:
  assumes "date_of n = (y, m, d)" and "0 \<le> y" and "y \<le> 9999" and "seconds < 86400"
  shows "parse_absolute_time (date_text (y, m, d)) =
      (case checked_i64 (n * NANOSECONDS_PER_DAY) of Some t \<Rightarrow> Ok t | None \<Rightarrow> Err (Raised InvalidTime)) \<and>
    parse_absolute_time (date_text (y, m, d) @ clock_text seconds) =
      (case checked_i64 (n * NANOSECONDS_PER_DAY + int seconds * 1000000000) of Some t \<Rightarrow> Ok t | None \<Rightarrow> Err (Raised InvalidTime))"
proof (rule conjI)
  have v: "valid_date (y, m, d)" and n: "days_from_civil y m d = n" using date_of_day [of n] assms(1) by auto
  have b: "- 800000 \<le> n" "n \<le> 3000000" using day_number_bounds [OF v assms(2,3)] n by simp_all
  have m: "1 \<le> m" "m \<le> 12" "1 \<le> d" "d \<le> days_in_month y m" using v by simp_all
  note date = date_components [OF v assms(2,3)]
  have l: "length (date_text (y, m, d)) = 10" "list_all ascii (date_text (y, m, d))" by (simp_all add: ascii_def)
  show "parse_absolute_time (date_text (y, m, d)) = (case checked_i64 (n * NANOSECONDS_PER_DAY) of Some t \<Rightarrow> Ok t | None \<Rightarrow> Err (Raised InvalidTime))"
    using date [of "[]"] m l(1) checked_time [OF b, of 0] n
    by (simp add: mult.commute [of n] parse_absolute_time_def NANOSECONDS_PER_DAY_def del: date_text.simps)
  let ?v = "date_text (y, m, d) @ clock_text seconds"
  have "list_all ascii (clock_text seconds)" "length ?v = 19" using l(1) by (simp_all add: clock_text_def ascii_def)
  moreover have "seconds div 3600 < 24" "seconds div 60 mod 60 < 60" "seconds mod 60 < 60"
    using assms(4) by (simp_all add: div_less_iff_less_mult)
  then have "int (seconds div 3600) \<le> 23" "int (seconds div 60 mod 60) \<le> 59" "int (seconds mod 60) \<le> 59" by linarith+
  ultimately have "parse_absolute_time ?v = (case checked_i64 ((days_from_civil y m d * 86400 + int seconds) * 1000000000) of
      Some t \<Rightarrow> Ok t | None \<Rightarrow> Err (Raised InvalidTime))"
    using b n by (intro parse_time_parts [OF date v _ clock_components [OF l assms(4)] _ _ _ _ _ _ clock_split]) simp_all
  then show "parse_absolute_time ?v =
      (case checked_i64 (n * NANOSECONDS_PER_DAY + int seconds * 1000000000) of Some t \<Rightarrow> Ok t | None \<Rightarrow> Err (Raised InvalidTime))"
    using n by (simp add: NANOSECONDS_PER_DAY_def distrib_right mult.assoc)
qed

theorem calendar_time_exact_witness:
  "date_of 31 = (1970, 2, 1) \<and> parse_absolute_time ''1970-02-01'' = Ok 2678400000000000 \<and>
   parse_absolute_time ''1970-02-01T00:01:05'' = Ok 2678465000000000"
proof -
  have d: "date_of 31 = (1970, 2, 1)" by (simp add: date_of_def numeral_eq_Suc days_in_month_def)
  have c: "char_of (48 :: nat) = CHR ''0''" "char_of (49 :: nat) = CHR ''1''" "char_of (50 :: nat) = CHR ''2''"
      "char_of (53 :: nat) = CHR ''5''" "char_of (55 :: nat) = CHR ''7''" "char_of (57 :: nat) = CHR ''9''"
    by (simp_all add: char_of_eq_iff)
  from d show ?thesis using calendar_time_exact [OF d, of 65]
    by (simp add: c two_digits_def digit_def clock_text_def checked_i64_def I64_MIN_def I64_MAX_def NANOSECONDS_PER_DAY_def)
qed

end
