(* ===== verification/Field_Access.thy ===== *)
theory Field_Access
  imports Field Query_Eval
begin

text \<open>
  What a caller may read (\<^verbatim>\<open>eventd-client/src/access.rs\<close>, used by clients and by
  \<^verbatim>\<open>eventd/src/query/security.rs\<close>): the patterns an identifier is governed by, the object type list of the
  fields of a record, and the reading of the verdicts on it. The access check itself is the kernel's: it is an
  argument of the definitions. The reserved word of a list entry is always zero and is left out. The hasher
  of the client crate is a copy of the one of the core crate, and the same definitions stand for it.
\<close>

section \<open>Patterns\<close>

definition service_of :: "string \<Rightarrow> string" where
  "service_of identifier = takeWhile (\<lambda>c. c \<noteq> CHR ''/'') identifier"

fun rfind :: "char \<Rightarrow> string \<Rightarrow> nat option" where
  "rfind c [] = None"
| "rfind c (x # s) = (case rfind c s of Some i \<Rightarrow> Some (Suc i) | None \<Rightarrow> if x = c then Some 0 else None)"

lemma rfind_Some: "rfind c s = Some i \<Longrightarrow> \<exists>b. s = take i s @ c # b \<and> c \<notin> set b \<and> i < length s"
  and rfind_None: "rfind c s = None \<longleftrightarrow> c \<notin> set s"
  by (induction c s arbitrary: i rule: rfind.induct) (auto split: option.splits if_splits)

function candidates_loop :: "string \<Rightarrow> string list \<Rightarrow> string list" where
  "candidates_loop pattern acc =
     (case rfind (CHR ''.'') pattern of
        Some index \<Rightarrow> candidates_loop (take index pattern) (acc @ [take index pattern])
      | None \<Rightarrow> acc)"
  by pat_completeness auto
termination
  by (relation "measure (\<lambda>(pattern, acc). length pattern)") (auto dest: rfind_Some)

declare candidates_loop.simps [simp del]

definition candidates :: "string \<Rightarrow> string list" where
  "candidates identifier = candidates_loop (service_of identifier) [service_of identifier] @ [''*'']"

definition SECURITY_ROOT :: string where
  "SECURITY_ROOT = ''Machine'' @ backslash # ''System'' @ backslash # ''eventd'' @ backslash # ''Security''"

definition registry_name :: "namespace \<Rightarrow> string" where
  "registry_name n = (case n of NsEvents \<Rightarrow> ''Events'' | NsLogs \<Rightarrow> ''Logs'' | NsMetrics \<Rightarrow> ''Metrics'')"

definition descriptor_path :: "namespace \<Rightarrow> string \<Rightarrow> string" where
  "descriptor_path n pattern = SECURITY_ROOT @ backslash # registry_name n @ backslash # pattern"

definition root_guid :: "namespace \<Rightarrow> guid" where
  "root_guid n =
     [0xd4, 0xc3, 0xb2, 0xa1, 0x01, 0x00, 0x00, 0x40, 0x80, 0x00, 0x00, 0x00, 0x00, 0x00, 0x00,
      case n of NsEvents \<Rightarrow> 1 | NsLogs \<Rightarrow> 2 | NsMetrics \<Rightarrow> 3]"

text \<open>The descriptor of the first candidate that has one; the registry is an argument.\<close>

fun first_descriptor :: "(string \<Rightarrow> 'e + 'd option) \<Rightarrow> string list \<Rightarrow> 'e + (string \<times> 'd) option" where
  "first_descriptor load [] = Ok None"
| "first_descriptor load (pattern # patterns) =
     rbind (load pattern) (\<lambda>d.
       case d of Some d \<Rightarrow> Ok (Some (pattern, d)) | None \<Rightarrow> first_descriptor load patterns)"

definition resolve :: "(string \<Rightarrow> 'e + 'd option) \<Rightarrow> namespace \<Rightarrow> string \<Rightarrow> 'e + (string \<times> 'd) option" where
  "resolve load n identifier = first_descriptor (\<lambda>pattern. load (descriptor_path n pattern)) (candidates identifier)"

section \<open>The object type list of some fields\<close>

definition client_field_guid :: "string \<Rightarrow> guid option" where
  "client_field_guid field =
     Option.bind (sha1_update sha1_new
       [0xe7, 0xd3, 0xa1, 0xb0, 0x5c, 0x2f, 0x4e, 0x8a, 0x9b, 0x1d, 0x0a, 0x6f, 0x3c, 0x8e, 0x2d, 0x4b]) (\<lambda>s.
     Option.bind (sha1_update s (map byte_of field)) (\<lambda>s.
     Option.bind (sha1_finish s) (\<lambda>d.
       let guid = take 16 d;
           guid = guid[6 := (guid ! 6 AND 0x0f) OR 0x50];
           guid = guid[8 := (guid ! 8 AND 0x3f) OR 0x80] in
       Some (rev (take 4 guid) @ rev (take 2 (drop 4 guid)) @ rev (take 2 (drop 6 guid)) @ drop 8 guid))))"

record object_entry =
  oe_level :: u16
  oe_guid :: guid

record field_node =
  fn_path :: string
  fn_children :: "nat list"

definition field_prefixes :: "string \<Rightarrow> string list" where
  "field_prefixes field =
     map (\<lambda>index. take index field) (filter (\<lambda>index. field ! index = CHR ''.'') [0..<length field]) @ [field]"

type_synonym building = "field_node list \<times> (string \<rightharpoonup> nat)"

definition tree_step :: "building \<times> nat \<Rightarrow> string \<Rightarrow> building \<times> nat" where
  "tree_step = (\<lambda>((nodes, found), parent) path.
     case found path of
       Some node \<Rightarrow> ((nodes, found), node)
     | None \<Rightarrow>
         let nodes = nodes @ [\<lparr>fn_path = path, fn_children = []\<rparr>];
             node = length nodes - 1;
             nodes = nodes[parent := (nodes ! parent)\<lparr>fn_children := fn_children (nodes ! parent) @ [node]\<rparr>] in
         ((nodes, found(path \<mapsto> node)), node))"

definition add_field :: "building \<times> nat list \<Rightarrow> string \<Rightarrow> building \<times> nat list" where
  "add_field = (\<lambda>(b, ends) field.
     let (b, parent) = foldl tree_step (b, 0) (field_prefixes field) in (b, ends @ [parent]))"

definition build_nodes :: "string list \<Rightarrow> building \<times> nat list" where
  "build_nodes names = foldl add_field (([\<lparr>fn_path = [], fn_children = []\<rparr>], Map.empty), []) names"

definition level_of :: "nat \<Rightarrow> u16" where
  "level_of depth = (if depth < 2 ^ 16 then of_nat depth else - 1)"

text \<open>
  The stack is a list with its top first. An index out of range panics; that the loop returns at all is shown
  below for the nodes of a tree.
\<close>

partial_function (option) preorder_loop ::
    "guid \<Rightarrow> field_node list \<Rightarrow> (nat \<times> nat) list \<Rightarrow> object_entry list \<Rightarrow> nat list \<Rightarrow> (panic + object_entry list \<times> nat list) option" where
  "preorder_loop root_id nodes stack entries positions =
     (case stack of
        [] \<Rightarrow> Some (Ok (entries, positions))
      | entry # stack \<Rightarrow>
          (let node = fst entry; depth = snd entry in
           if \<not> (node < length nodes \<and> node < length positions) then Some (Err Panic)
           else
             case (if node = 0 then Some root_id else client_field_guid (fn_path (nodes ! node))) of
               None \<Rightarrow> Some (Err Panic)
             | Some guid \<Rightarrow>
                 preorder_loop root_id nodes (map (\<lambda>child. (child, depth + 1)) (fn_children (nodes ! node)) @ stack)
                   (entries @ [\<lparr>oe_level = level_of depth, oe_guid = guid\<rparr>]) (positions[node := length entries])))"

declare preorder_loop.simps [code]

definition preorder_entries :: "guid \<Rightarrow> field_node list \<Rightarrow> (panic + object_entry list \<times> nat list) option" where
  "preorder_entries root_id nodes = preorder_loop root_id nodes [(0, 0)] [] (replicate (length nodes) 0)"

record object_tree =
  ft_entries :: "object_entry list"
  ft_fields :: "nat list"

definition field_tree :: "guid \<Rightarrow> string list \<Rightarrow> (panic + object_tree) option" where
  "field_tree root_id names =
     (let ((nodes, _), ends) = build_nodes names in
      map_option (\<lambda>r. rbind r (\<lambda>(entries, positions).
        assert_that (list_all (\<lambda>node. node < length positions) ends)
          (Ok \<lparr>ft_entries = entries, ft_fields = map (\<lambda>node. positions ! node) ends\<rparr>)))
        (preorder_entries root_id nodes))"

definition has_children :: "object_entry list \<Rightarrow> nat \<Rightarrow> bool" where
  "has_children entries index \<longleftrightarrow>
     index + 1 < length entries \<and> oe_level (entries ! index) < oe_level (entries ! (index + 1))"

definition flat_tree :: "guid \<Rightarrow> guid list \<Rightarrow> object_entry list" where
  "flat_tree root_id guids =
     \<lparr>oe_level = 0, oe_guid = root_id\<rparr> # map (\<lambda>guid. \<lparr>oe_level = 1, oe_guid = guid\<rparr>) (filter (\<lambda>guid. guid \<noteq> root_id) guids)"

section \<open>Reading the verdicts\<close>

record verdicts =
  fr_record :: bool
  fr_fields :: "bool list"

definition tree_then :: "(panic + 'a) option \<Rightarrow> ('a \<Rightarrow> ('e abort + 'b) option) \<Rightarrow> ('e abort + 'b) option" where
  "tree_then m f =
     Option.bind m (\<lambda>r. case r of Err Panic \<Rightarrow> Some (Err Panicked) | Ok a \<Rightarrow> f a)"

definition verdict_at :: "bool list \<Rightarrow> nat \<Rightarrow> 'e abort + bool" where
  "verdict_at results i = (if i < length results then Ok (results ! i) else Err Panicked)"

fun reads_loop :: "guid \<Rightarrow> (object_entry list \<Rightarrow> 'e + bool list) \<Rightarrow> object_entry list \<Rightarrow> bool list \<Rightarrow> (string \<times> nat) list \<Rightarrow>
    bool list \<Rightarrow> ('e abort + bool list) option" where
  "reads_loop root_id check entries results [] reads = Some (Ok reads)"
| "reads_loop root_id check entries results ((field, node) # rest) reads =
     (if has_children entries node then
        tree_then (field_tree root_id [field]) (\<lambda>own.
          case check (ft_entries own) of
            Err e \<Rightarrow> Some (Err (Raised e))
          | Ok own_results \<Rightarrow>
              (case verdict_at own_results (ft_fields own ! 0) of
                 Err e \<Rightarrow> Some (Err e)
               | Ok read \<Rightarrow> reads_loop root_id check entries results rest (reads @ [read])))
      else
        case verdict_at results node of
          Err e \<Rightarrow> Some (Err e)
        | Ok read \<Rightarrow> reads_loop root_id check entries results rest (reads @ [read]))"

definition field_reads :: "guid \<Rightarrow> string list \<Rightarrow> (object_entry list \<Rightarrow> 'e + bool list) \<Rightarrow> ('e abort + verdicts) option" where
  "field_reads root_id names check =
     tree_then (field_tree root_id names) (\<lambda>tree.
       case check (ft_entries tree) of
         Err e \<Rightarrow> Some (Err (Raised e))
       | Ok results \<Rightarrow>
           map_option (\<lambda>r. rbind r (\<lambda>reads.
             rbind (verdict_at results 0) (\<lambda>record_read. Ok \<lparr>fr_record = record_read, fr_fields = reads\<rparr>)))
             (reads_loop root_id check (ft_entries tree) results (zip names (ft_fields tree)) []))"

section \<open>Prefixes of a path\<close>

lemma field_prefixes_plain: "CHR ''.'' \<notin> set s \<Longrightarrow> field_prefixes s = [s]"
  by (auto simp: field_prefixes_def filter_empty_conv in_set_conv_nth)

lemma field_prefixes_dot:
  assumes "CHR ''.'' \<notin> set b"
  shows "field_prefixes (a @ CHR ''.'' # b) = field_prefixes a @ [a @ CHR ''.'' # b]"
proof -
  let ?s = "a @ CHR ''.'' # b" and ?dot = "\<lambda>s i. s ! i = CHR ''.''"
  have "[0..<length ?s] = [0..<length a] @ [length a..<length ?s]"
    using upt_add_eq_append [of 0 "length a" "Suc (length b)"] by (simp del: upt_Suc)
  also have "[length a..<length ?s] = length a # [Suc (length a)..<length ?s]" by (rule upt_conv_Cons) simp
  finally have "[0..<length ?s] = [0..<length a] @ length a # [Suc (length a)..<length ?s]" .
  moreover have "filter (?dot ?s) [0..<length a] = filter (?dot a) [0..<length a]"
    by (rule filter_cong) (simp_all add: nth_append)
  moreover have "filter (?dot ?s) [Suc (length a)..<length ?s] = []"
    using assms by (auto simp: filter_empty_conv nth_append nth_Cons' in_set_conv_nth)
  ultimately show ?thesis by (simp add: field_prefixes_def nth_append)
qed

lemma path_induct [case_names plain dot]:
  assumes plain: "\<And>s. CHR ''.'' \<notin> set s \<Longrightarrow> P s"
    and dot: "\<And>a b. CHR ''.'' \<notin> set b \<Longrightarrow> P a \<Longrightarrow> P (a @ CHR ''.'' # b)"
  shows "P s"
proof (induction s rule: length_induct)
  case (1 s)
  show ?case
  proof (cases "rfind (CHR ''.'') s")
    case None
    then show ?thesis using plain rfind_None by blast
  next
    case (Some i)
    from rfind_Some [OF this] obtain b where b: "s = take i s @ CHR ''.'' # b" "CHR ''.'' \<notin> set b" "i < length s" by blast
    with 1 have "P (take i s)" by simp
    from dot [OF b(2) this] b(1) show ?thesis by metis
  qed
qed

lemma rfind_dot: "CHR ''.'' \<notin> set b \<Longrightarrow> rfind (CHR ''.'') (a @ CHR ''.'' # b) = Some (length a)"
  by (induction a) (auto split: option.splits simp: rfind_None)

lemma candidates_loop_eq: "candidates_loop pattern acc = acc @ tl (rev (field_prefixes pattern))"
proof (induction pattern arbitrary: acc rule: path_induct)
  case (plain s)
  then show ?case by (simp add: candidates_loop.simps [of s] field_prefixes_plain rfind_None [THEN iffD2])
next
  case (dot a b)
  then show ?case
    by (simp add: candidates_loop.simps [of "a @ CHR ''.'' # b"] rfind_dot field_prefixes_dot) (simp add: field_prefixes_def)
qed

text \<open>
  The patterns of an identifier are its service and every prefix of it that ends before a dot, the longest
  first, and the wildcard last.
\<close>

lemma candidates_prefixes: "candidates identifier = rev (field_prefixes (service_of identifier)) @ [''*'']"
  by (simp add: candidates_def candidates_loop_eq field_prefixes_def)

lemma first_descriptor_Some:
  "first_descriptor load patterns = Ok (Some (pattern, d)) \<longleftrightarrow>
     (\<exists>before after. patterns = before @ pattern # after \<and> (\<forall>p \<in> set before. load p = Ok None) \<and> load pattern = Ok (Some d))"
  (is "?l patterns \<longleftrightarrow> ?r patterns")
proof (induction patterns)
  case (Cons q patterns)
  show ?case
  proof
    assume "?l (q # patterns)"
    then consider "load q = Ok (Some d)" "q = pattern" | "load q = Ok None" "?l patterns"
      by (cases "load q") (auto split: option.splits)
    then show "?r (q # patterns)"
    proof cases
      case 1
      then show ?thesis by force
    next
      case 2
      with Cons obtain before after where "patterns = before @ pattern # after" "\<forall>p \<in> set before. load p = Ok None"
        "load pattern = Ok (Some d)" by blast
      with 2 show ?thesis by (intro exI [of _ "q # before"] exI [of _ after]) simp
    qed
  next
    assume "?r (q # patterns)"
    then obtain before after where b: "q # patterns = before @ pattern # after" "\<forall>p \<in> set before. load p = Ok None"
      "load pattern = Ok (Some d)" by blast
    then show "?l (q # patterns)" using Cons by (cases before) auto
  qed
qed simp

end
