(* ===== verification/Field_Verdicts.thy ===== *)
theory Field_Verdicts
  imports Field_Access
begin

text \<open>
  The verdict on a field does not depend on the other fields asked about. The object type list that
  \<^verbatim>\<open>field_tree\<close> builds is a preorder of the prefixes of the fields, and the ancestors of a field's entry, as the
  kernel reads them off the levels, are the prefixes of its path. A field with entries beneath it is asked about
  in a list of its own, where it is a leaf.
\<close>

section \<open>Field identifiers\<close>

text \<open>The client computes the identifier the core crate computes.\<close>

lemma client_field_guid_core: "client_field_guid field = field_guid field"
proof -
  have "rev (take 4 u) @ rev (take 2 (drop 4 u)) @ rev (take 2 (drop 6 u)) @ drop 8 u = swap_fields u" for u :: guid
    by (simp add: swap_fields_def)
  then show ?thesis
    by (simp add: client_field_guid_def field_guid_def field_uuid_rfc_def EVENTD_FIELD_NAMESPACE_def Let_def map_option_bind comp_def)
qed

definition guid_of :: "string \<Rightarrow> guid" where
  "guid_of field = the (client_field_guid field)"

lemma client_field_guid_Some: "client_field_guid field = Some (guid_of field)"
  using index_name_safe [of field] by (auto simp: guid_of_def client_field_guid_core)

section \<open>Building the nodes\<close>

definition path_chain :: "field_node list \<Rightarrow> nat \<Rightarrow> string list" where
  "path_chain nodes n = (if n = 0 then [] else field_prefixes (fn_path (nodes ! n)))"

definition linked :: "field_node list \<Rightarrow> nat \<Rightarrow> nat \<Rightarrow> bool" where
  "linked nodes n c \<longleftrightarrow> n < c \<and> c < length nodes \<and> path_chain nodes c = path_chain nodes n @ [fn_path (nodes ! c)]"

definition tree_nodes :: "building \<Rightarrow> bool" where
  "tree_nodes b \<longleftrightarrow> (case b of (nodes, found) \<Rightarrow>
     nodes \<noteq> [] \<and>
     (\<forall>p n. found p = Some n \<longleftrightarrow> 0 < n \<and> n < length nodes \<and> fn_path (nodes ! n) = p) \<and>
     (\<forall>n < length nodes. distinct (fn_children (nodes ! n)) \<and> (\<forall>c \<in> set (fn_children (nodes ! n)). linked nodes n c)) \<and>
     (\<forall>c. 0 < c \<and> c < length nodes \<longrightarrow> (\<exists>n < length nodes. c \<in> set (fn_children (nodes ! n)))))"

definition reaches :: "building \<Rightarrow> nat \<Rightarrow> string \<Rightarrow> bool" where
  "reaches b n path \<longleftrightarrow> 0 < n \<and> n < length (fst b) \<and> fn_path (fst b ! n) = path"

definition extends :: "building \<Rightarrow> building \<Rightarrow> bool" where
  "extends b b' \<longleftrightarrow> length (fst b) \<le> length (fst b') \<and> (\<forall>n < length (fst b). fn_path (fst b' ! n) = fn_path (fst b ! n))"

lemma reaches_extends: "reaches b n path \<Longrightarrow> extends b b' \<Longrightarrow> reaches b' n path"
  by (auto simp: reaches_def extends_def)

lemma extends_trans: "extends a b \<Longrightarrow> extends b c \<Longrightarrow> extends a c"
  by (auto simp: extends_def)

lemma tree_children:
  assumes "tree_nodes (nodes, found)" and "n < length nodes"
  shows "distinct (fn_children (nodes ! n))" and "c \<in> set (fn_children (nodes ! n)) \<Longrightarrow> linked nodes n c"
  using assms by (simp_all add: tree_nodes_def)

lemma tree_parent:
  "tree_nodes (nodes, found) \<Longrightarrow> 0 < c \<Longrightarrow> c < length nodes \<Longrightarrow> \<exists>n < length nodes. c \<in> set (fn_children (nodes ! n))"
  by (simp add: tree_nodes_def)

lemma tree_step_tree:
  assumes "tree_nodes b" and "parent < length (fst b)" and "field_prefixes path = path_chain (fst b) parent @ [path]"
    and "tree_step (b, parent) path = (b', n)"
  shows "tree_nodes b' \<and> reaches b' n path \<and> extends b b' \<and> length (fst b') \<le> Suc (length (fst b))"
proof -
  obtain nodes found where b: "b = (nodes, found)" by (cases b)
  show ?thesis
  proof (cases "found path")
    case (Some m)
    with assms b show ?thesis by (auto simp: tree_step_def tree_nodes_def reaches_def extends_def)
  next
    case None
    let ?new = "nodes @ [\<lparr>fn_path = path, fn_children = []\<rparr>]"
    let ?nodes = "?new[parent := (?new ! parent)\<lparr>fn_children := fn_children (?new ! parent) @ [length nodes]\<rparr>]"
    have r: "b' = (?nodes, found(path \<mapsto> length nodes))" "n = length nodes"
      using assms(4) b None by (auto simp: tree_step_def Let_def)
    have p: "parent < length nodes" using assms(2) b by simp
    have path: "fn_path (?nodes ! k) = (if k = length nodes then path else fn_path (nodes ! k))" if "k < Suc (length nodes)" for k
      using that p by (auto simp: nth_list_update nth_append)
    have chain: "path_chain ?nodes k = (if k = length nodes then field_prefixes path else path_chain nodes k)" if "k < Suc (length nodes)" for k
      using path [OF that] p by (auto simp: path_chain_def)
    have children: "fn_children (?nodes ! k) =
        (if k = parent then fn_children (nodes ! k) @ [length nodes] else if k = length nodes then [] else fn_children (nodes ! k))"
      if "k < Suc (length nodes)" for k
      using that p by (auto simp: nth_list_update nth_append)
    have old: "\<forall>p n. found p = Some n \<longleftrightarrow> 0 < n \<and> n < length nodes \<and> fn_path (nodes ! n) = p"
      "\<forall>n < length nodes. distinct (fn_children (nodes ! n)) \<and> (\<forall>c \<in> set (fn_children (nodes ! n)). linked nodes n c)"
      "\<forall>c. 0 < c \<and> c < length nodes \<longrightarrow> (\<exists>n < length nodes. c \<in> set (fn_children (nodes ! n)))"
      using assms(1) b by (auto simp: tree_nodes_def)
    have link: "linked ?nodes k c" if "k < length nodes" "linked nodes k c" for k c
      using that chain [of k] chain [of c] path [of c] by (auto simp: linked_def)
    have new: "linked ?nodes parent (length nodes)"
      using p assms(3) b chain [of parent] chain [of "length nodes"] path [of "length nodes"] by (simp add: linked_def)
    have "(found(path \<mapsto> length nodes)) q = Some k \<longleftrightarrow> 0 < k \<and> k < length ?nodes \<and> fn_path (?nodes ! k) = q" for q k
      using old(1) [THEN spec, THEN spec, of q k] None path [of k] p by (cases "k = length nodes") (auto simp: less_Suc_eq)
    moreover have "distinct (fn_children (?nodes ! k)) \<and> (\<forall>c \<in> set (fn_children (?nodes ! k)). linked ?nodes k c)" if k: "k < length ?nodes" for k
    proof (cases "k = length nodes")
      case True
      then show ?thesis using children [of k] p by simp
    next
      case False
      with k have k: "k < length nodes" by simp
      note o = old(2) [rule_format, OF k]
      have "length nodes \<notin> set (fn_children (nodes ! k))" using o by (auto simp: linked_def)
      then have "distinct (fn_children (nodes ! k) @ [length nodes])" using o by simp
      moreover have "linked ?nodes k c" if "c \<in> set (fn_children (nodes ! k))" for c using link [OF k] o that by blast
      ultimately show ?thesis using new o unfolding children [OF less_SucI [OF k]] by (cases "k = parent") simp_all
    qed
    moreover have "\<exists>k < length ?nodes. c \<in> set (fn_children (?nodes ! k))" if c: "0 < c" "c < length ?nodes" for c
    proof (cases "c = length nodes")
      case True
      then show ?thesis using children [of parent] p by (intro exI [of _ parent]) simp
    next
      case False
      with c obtain k where "k < length nodes" "c \<in> set (fn_children (nodes ! k))" using old(3) by auto
      then show ?thesis using children [of k] by (intro exI [of _ k]) auto
    qed
    ultimately have "tree_nodes b'" unfolding r tree_nodes_def by (simp del: fun_upd_apply)
    moreover have "reaches b' n path" "extends b b'" "length (fst b') \<le> Suc (length (fst b))"
      unfolding r b reaches_def extends_def using path length_pos_if_in_set [OF nth_mem [OF p]] by (simp_all del: nth_list_update)
    ultimately show ?thesis by blast
  qed
qed

lemma tree_steps_tree:
  "tree_nodes b \<Longrightarrow> foldl tree_step (b, 0) (field_prefixes field) = (b', n) \<Longrightarrow>
   tree_nodes b' \<and> reaches b' n field \<and> extends b b' \<and> length (fst b') \<le> length (fst b) + length (field_prefixes field)"
proof (induction field arbitrary: b' n rule: path_induct)
  case (plain s)
  have "0 < length (fst b)" using plain.prems(1) by (auto simp: tree_nodes_def)
  with tree_step_tree [of b 0 s b' n] plain show ?case by (simp add: field_prefixes_plain path_chain_def)
next
  case (dot a c)
  obtain b1 n1 where 1: "foldl tree_step (b, 0) (field_prefixes a) = (b1, n1)" by (meson surj_pair)
  with dot.IH dot.prems(1) have b1: "tree_nodes b1" "reaches b1 n1 a" "extends b b1"
    "length (fst b1) \<le> length (fst b) + length (field_prefixes a)" by blast+
  then have "n1 < length (fst b1)" "field_prefixes (a @ CHR ''.'' # c) = path_chain (fst b1) n1 @ [a @ CHR ''.'' # c]"
    using dot.hyps by (simp_all add: reaches_def path_chain_def field_prefixes_dot)
  moreover have "tree_step (b1, n1) (a @ CHR ''.'' # c) = (b', n)"
    using dot.prems(2) 1 dot.hyps by (simp add: field_prefixes_dot)
  ultimately have "tree_nodes b' \<and> reaches b' n (a @ CHR ''.'' # c) \<and> extends b1 b' \<and> length (fst b') \<le> Suc (length (fst b1))"
    using tree_step_tree [OF b1(1)] by blast
  with b1 dot.hyps show ?case by (auto simp: field_prefixes_dot dest: extends_trans)
qed

lemma add_fields_tree:
  "tree_nodes b \<Longrightarrow> list_all2 (\<lambda>f n. reaches b n f) done_names ends \<Longrightarrow> foldl add_field (b, ends) names = (b', ends') \<Longrightarrow>
   tree_nodes b' \<and> list_all2 (\<lambda>f n. reaches b' n f) (done_names @ names) ends'"
proof (induction names arbitrary: b ends done_names)
  case (Cons f names)
  obtain b1 n where 1: "foldl tree_step (b, 0) (field_prefixes f) = (b1, n)" by (meson surj_pair)
  from tree_steps_tree [OF Cons.prems(1) 1] have b1: "tree_nodes b1" "reaches b1 n f" "extends b b1" by blast+
  have "list_all2 (\<lambda>f n. reaches b1 n f) (done_names @ [f]) (ends @ [n])"
    using Cons.prems(2) b1 by (auto intro!: list_all2_appendI elim!: list_all2_mono reaches_extends)
  from Cons.IH [OF b1(1) this] Cons.prems(3) 1 show ?case by (simp add: add_field_def)
qed simp

lemma root_tree: "tree_nodes ([\<lparr>fn_path = [], fn_children = []\<rparr>], Map.empty)"
  by (auto simp: tree_nodes_def)

lemma build_nodes_tree:
  assumes "build_nodes names = (b, ends)"
  shows "tree_nodes b" and "list_all2 (\<lambda>f n. reaches b n f) names ends"
  using add_fields_tree [OF root_tree, of "[]" "[]" names b ends] assms by (simp_all add: build_nodes_def)

section \<open>The preorder\<close>

function walk :: "field_node list \<Rightarrow> nat \<Rightarrow> nat \<Rightarrow> (nat \<times> nat) list" where
  "walk nodes depth n =
     (if n < length nodes
      then (n, depth) # concat (map (walk nodes (depth + 1)) (filter (\<lambda>c. n < c) (fn_children (nodes ! n))))
      else [])"
  by pat_completeness auto
termination
  by (relation "measure (\<lambda>(nodes, depth, n). length nodes - n)") auto

declare walk.simps [simp del]

definition entry_of :: "guid \<Rightarrow> field_node list \<Rightarrow> nat \<times> nat \<Rightarrow> object_entry" where
  "entry_of root_id nodes = (\<lambda>(n, depth).
     \<lparr>oe_level = level_of depth, oe_guid = if n = 0 then root_id else guid_of (fn_path (nodes ! n))\<rparr>)"

fun set_positions :: "nat \<Rightarrow> (nat \<times> nat) list \<Rightarrow> nat list \<Rightarrow> nat list" where
  "set_positions k [] positions = positions"
| "set_positions k ((n, d) # w) positions = set_positions (Suc k) w (positions[n := k])"

lemma walk_children:
  assumes "tree_nodes (nodes, found)" and "n < length nodes"
  shows "walk nodes depth n = (n, depth) # concat (map (walk nodes (depth + 1)) (fn_children (nodes ! n)))"
proof -
  have "filter (\<lambda>c. n < c) (fn_children (nodes ! n)) = fn_children (nodes ! n)"
    using tree_children(2) [OF assms] by (intro filter_True) (simp add: linked_def)
  with assms(2) show ?thesis by (simp add: walk.simps [of nodes depth n])
qed

lemma preorder_loop_walk:
  assumes "tree_nodes (nodes, found)"
  shows "list_all (\<lambda>(n, d). n < length nodes) stack \<Longrightarrow> length positions = length nodes \<Longrightarrow>
    preorder_loop root_id nodes stack entries positions =
      Some (Ok (entries @ map (entry_of root_id nodes) (concat (map (\<lambda>(n, d). walk nodes d n) stack)),
        set_positions (length entries) (concat (map (\<lambda>(n, d). walk nodes d n) stack)) positions))"
proof (induction "length (concat (map (\<lambda>(n, d). walk nodes d n) stack))" arbitrary: stack entries positions rule: less_induct)
  case less
  show ?case
  proof (cases stack)
    case Nil
    then show ?thesis by (simp add: preorder_loop.simps)
  next
    case (Cons x rest)
    obtain n d where x: "x = (n, d)" by (cases x)
    with less.prems Cons have n: "n < length nodes" by simp
    let ?stack = "map (\<lambda>c. (c, d + 1)) (fn_children (nodes ! n)) @ rest"
    let ?w = "\<lambda>stack. concat (map (\<lambda>(n, d). walk nodes d n) stack)"
    have w: "?w stack = (n, d) # ?w ?stack" using Cons x walk_children [OF assms n] by (simp add: comp_def)
    have "list_all (\<lambda>(n, d). n < length nodes) ?stack"
      using tree_children(2) [OF assms n] less.prems(1) Cons by (auto simp: linked_def list_all_iff)
    note IH = less.hyps [OF _ this, of "positions[n := length entries]" "entries @ [entry_of root_id nodes (n, d)]"]
    have "preorder_loop root_id nodes stack entries positions =
        preorder_loop root_id nodes ?stack (entries @ [entry_of root_id nodes (n, d)]) (positions[n := length entries])"
      using n Cons x less.prems(2) by (subst preorder_loop.simps) (simp add: entry_of_def client_field_guid_Some)
    also have "\<dots> = Some (Ok ((entries @ [entry_of root_id nodes (n, d)]) @ map (entry_of root_id nodes) (?w ?stack),
        set_positions (length (entries @ [entry_of root_id nodes (n, d)])) (?w ?stack) (positions[n := length entries])))"
      by (rule IH) (simp_all only: w less.prems(2) length_list_update list.size lessI)
    finally show ?thesis by (simp only: w list.map set_positions.simps append_assoc append.simps length_append list.size add_0 add_Suc_right add_0_right)
  qed
qed

lemma set_positions_other: "n \<notin> fst ` set w \<Longrightarrow> set_positions k w positions ! n = positions ! n"
  by (induction k w positions rule: set_positions.induct) (auto simp: nth_list_update)

lemma length_set_positions [simp]: "length (set_positions k w positions) = length positions"
  by (induction k w positions rule: set_positions.induct) simp_all

lemma set_positions_nth:
  "distinct (map fst w) \<Longrightarrow> j < length w \<Longrightarrow> fst (w ! j) < length positions \<Longrightarrow> set_positions k w positions ! fst (w ! j) = k + j"
proof (induction k w positions arbitrary: j rule: set_positions.induct)
  case (2 k n d w positions)
  then show ?case by (cases j) (auto simp: set_positions_other)
qed simp

text \<open>The chain of identifiers from the root to the current entry of a preorder, read off the levels.\<close>

definition descend :: "guid list \<Rightarrow> nat \<Rightarrow> guid \<Rightarrow> guid list" where
  "descend path level guid = take level path @ [guid]"

definition ancestors :: "object_entry list \<Rightarrow> nat \<Rightarrow> guid list" where
  "ancestors entries i = foldl (\<lambda>path e. descend path (unat (oe_level e)) (oe_guid e)) [] (take (Suc i) entries)"

definition node_guid :: "guid \<Rightarrow> field_node list \<Rightarrow> nat \<Rightarrow> guid" where
  "node_guid root_id nodes n = (if n = 0 then root_id else guid_of (fn_path (nodes ! n)))"

definition guid_chain :: "guid \<Rightarrow> field_node list \<Rightarrow> nat \<Rightarrow> guid list" where
  "guid_chain root_id nodes n = root_id # map guid_of (path_chain nodes n)"

fun on_path :: "guid \<Rightarrow> field_node list \<Rightarrow> guid list \<Rightarrow> (nat \<times> nat) list \<Rightarrow> bool" where
  "on_path root_id nodes path [] \<longleftrightarrow> True"
| "on_path root_id nodes path ((n, d) # w) \<longleftrightarrow>
     (let path = descend path d (node_guid root_id nodes n) in
      path = guid_chain root_id nodes n \<and> d = length (path_chain nodes n) \<and> on_path root_id nodes path w)"

abbreviation descend_all :: "guid \<Rightarrow> field_node list \<Rightarrow> guid list \<Rightarrow> (nat \<times> nat) list \<Rightarrow> guid list" where
  "descend_all root_id nodes path w \<equiv> foldl (\<lambda>path (n, d). descend path d (node_guid root_id nodes n)) path w"

lemma on_path_append:
  "on_path root_id nodes path (v @ w) \<longleftrightarrow> on_path root_id nodes path v \<and> on_path root_id nodes (descend_all root_id nodes path v) w"
proof (induction v arbitrary: path)
  case (Cons x v)
  then show ?case by (cases x) (simp add: Let_def)
qed simp

lemma on_path_nth:
  "on_path root_id nodes path w \<Longrightarrow> j < length w \<Longrightarrow>
   descend_all root_id nodes path (take (Suc j) w) = guid_chain root_id nodes (fst (w ! j)) \<and> snd (w ! j) = length (path_chain nodes (fst (w ! j)))"
proof (induction w arbitrary: path j)
  case (Cons x w)
  then show ?case by (cases x; cases j) (auto simp: Let_def)
qed simp

lemma descend_keeps:
  "list_all (\<lambda>(n, d). k \<le> d) w \<Longrightarrow> k \<le> length path \<Longrightarrow>
   take k (descend_all root_id nodes path w) = take k path \<and> k \<le> length (descend_all root_id nodes path w)"
proof (induction w arbitrary: path)
  case (Cons x w)
  obtain n d where x: "x = (n, d)" by (cases x)
  let ?p = "descend path d (node_guid root_id nodes n)"
  have "take k ?p = take k path" "k \<le> length ?p" using Cons.prems x by (auto simp: descend_def min_def)
  with Cons x show ?case by auto
qed simp

lemma walk_depth: "list_all (\<lambda>(m, d). depth \<le> d) (walk nodes depth n)"
proof (induction nodes depth n rule: walk.induct)
  case (1 nodes depth n)
  then show ?case by (subst walk.simps) (force simp: list_all_iff)
qed

lemma node_guid_chain:
  "linked nodes n c \<Longrightarrow> guid_chain root_id nodes c = guid_chain root_id nodes n @ [node_guid root_id nodes c]"
proof -
  assume "linked nodes n c"
  then have "path_chain nodes c = path_chain nodes n @ [fn_path (nodes ! c)]" "c \<noteq> 0" by (simp_all add: linked_def)
  then show ?thesis by (simp only: guid_chain_def node_guid_def list.map map_append append.simps if_False)
qed

lemma walks_on_path:
  assumes "\<And>c p. c \<in> set cs \<Longrightarrow> take d p = g \<Longrightarrow> on_path root_id nodes p (walk nodes d c)" and "length g = d" and "take d path = g"
  shows "on_path root_id nodes path (concat (map (walk nodes d) cs))"
  using assms
proof (induction cs arbitrary: path)
  case (Cons c cs)
  have "d \<le> length path" using Cons.prems(2,3) by (metis length_take min.absorb_iff2 nat_le_linear)
  from descend_keeps [OF walk_depth this] Cons show ?case by (simp add: on_path_append)
qed simp

lemma walk_on_path:
  assumes "tree_nodes (nodes, found)"
  shows "n < length nodes \<Longrightarrow> depth = length (path_chain nodes n) \<Longrightarrow>
    take depth path @ [node_guid root_id nodes n] = guid_chain root_id nodes n \<Longrightarrow> on_path root_id nodes path (walk nodes depth n)"
proof (induction "length nodes - n" arbitrary: n depth path rule: less_induct)
  case less
  let ?g = "guid_chain root_id nodes n" and ?d = "depth + 1"
  have "on_path root_id nodes p (walk nodes ?d c)" if c: "c \<in> set (fn_children (nodes ! n))" and p: "take ?d p = ?g" for c p
  proof -
    have l: "linked nodes n c" by (rule tree_children(2) [OF assms less.prems(1) c])
    have "length nodes - c < length nodes - n" "c < length nodes" "?d = length (path_chain nodes c)"
      using l less.prems(1,2) by (auto simp: linked_def)
    with less.hyps [of c ?d p] node_guid_chain [OF l] p show ?thesis by simp
  qed
  moreover have "length ?g = ?d" using less.prems(2) by (simp add: guid_chain_def)
  moreover have "take ?d ?g = ?g" using \<open>length ?g = ?d\<close> by simp
  ultimately have "on_path root_id nodes ?g (concat (map (walk nodes ?d) (fn_children (nodes ! n))))" by (rule walks_on_path)
  with less.prems show ?case by (simp add: walk_children [OF assms] descend_def Let_def)
qed

lemma linked_closed:
  assumes "tree_nodes (nodes, found)"
  shows "m < length nodes \<Longrightarrow> (n, d) \<in> set (walk nodes depth m) \<Longrightarrow> c \<in> set (fn_children (nodes ! n)) \<Longrightarrow> (c, d + 1) \<in> set (walk nodes depth m)"
proof (induction "length nodes - m" arbitrary: m depth rule: less_induct)
  case less
  note w = walk_children [OF assms less.prems(1)]
  show ?case
  proof (cases "(n, d) = (m, depth)")
    case True
    with less.prems(3) have "linked nodes m c" using tree_children(2) [OF assms less.prems(1)] by simp
    then have "(c, depth + 1) \<in> set (walk nodes (depth + 1) c)" by (simp add: walk.simps [of _ _ c] linked_def)
    with True less.prems(3) show ?thesis unfolding w by auto
  next
    case False
    with less.prems(2) obtain k where k: "k \<in> set (fn_children (nodes ! m))" "(n, d) \<in> set (walk nodes (depth + 1) k)"
      unfolding w by auto
    then have "linked nodes m k" using tree_children(2) [OF assms less.prems(1)] by blast
    then have "length nodes - k < length nodes - m" "k < length nodes" by (auto simp: linked_def)
    from less.hyps [OF this k(2) less.prems(3)] k(1) show ?thesis unfolding w by auto
  qed
qed

lemma walk_covers:
  assumes "tree_nodes (nodes, found)"
  shows "k < length nodes \<Longrightarrow> k \<in> fst ` set (walk nodes 0 0)"
proof (induction k rule: less_induct)
  case (less k)
  have 0: "0 < length nodes" using less.prems by linarith
  show ?case
  proof (cases "k = 0")
    case True
    then show ?thesis using walk_children [OF assms 0] by simp
  next
    case False
    then obtain n where n: "n < length nodes" "k \<in> set (fn_children (nodes ! n))"
      using tree_parent [OF assms _ less.prems] by blast
    have "n < k" using tree_children(2) [OF assms n] by (simp add: linked_def)
    from less.IH [OF this n(1)] obtain d where "(n, d) \<in> set (walk nodes 0 0)" by auto
    from linked_closed [OF assms 0 this n(2)] show ?thesis by force
  qed
qed

lemma walk_below:
  assumes "tree_nodes (nodes, found)"
  shows "n < length nodes \<Longrightarrow> x \<in> fst ` set (walk nodes depth n) \<Longrightarrow>
    n \<le> x \<and> x < length nodes \<and> take (length (path_chain nodes n)) (path_chain nodes x) = path_chain nodes n"
proof (induction "length nodes - n" arbitrary: n depth rule: less_induct)
  case less
  note w = walk_children [OF assms less.prems(1)]
  show ?case
  proof (cases "x = n")
    case False
    with less.prems(2) obtain c where c: "c \<in> set (fn_children (nodes ! n))" "x \<in> fst ` set (walk nodes (depth + 1) c)"
      unfolding w by auto
    from tree_children(2) [OF assms less.prems(1) c(1)] have l: "linked nodes n c" .
    then have lt: "length nodes - c < length nodes - n" "c < length nodes" "n < c" by (auto simp: linked_def)
    from less.hyps [OF lt(1,2) c(2)] have x: "c \<le> x" "x < length nodes"
      "take (length (path_chain nodes c)) (path_chain nodes x) = path_chain nodes c" by blast+
    have "path_chain nodes c = path_chain nodes n @ [fn_path (nodes ! c)]" using l by (simp add: linked_def)
    with x(3) have "take (length (path_chain nodes n)) (path_chain nodes x) = path_chain nodes n"
      by (metis append_eq_conv_conj append_take_drop_id append.assoc)
    with x lt show ?thesis by simp
  qed (use less.prems in simp)
qed

lemma distinct_concat_map:
  "distinct cs \<Longrightarrow> \<forall>c \<in> set cs. distinct (f c) \<Longrightarrow> \<forall>c \<in> set cs. \<forall>c' \<in> set cs. c \<noteq> c' \<longrightarrow> set (f c) \<inter> set (f c') = {} \<Longrightarrow>
   distinct (concat (map f cs))"
  by (induction cs) auto

lemma siblings_apart:
  assumes "tree_nodes (nodes, found)" and "n < length nodes" and "c \<in> set (fn_children (nodes ! n))" and "c' \<in> set (fn_children (nodes ! n))"
    and "x \<in> fst ` set (walk nodes d c)" and "x \<in> fst ` set (walk nodes d c')"
  shows "c = c'"
proof -
  have l: "linked nodes n c" "linked nodes n c'" using tree_children(2) [OF assms(1,2)] assms(3,4) by blast+
  then have lt: "0 < c" "c < length nodes" "0 < c'" "c' < length nodes" and
    chain: "path_chain nodes c = path_chain nodes n @ [fn_path (nodes ! c)]" "path_chain nodes c' = path_chain nodes n @ [fn_path (nodes ! c')]"
    by (auto simp: linked_def)
  have "path_chain nodes c = path_chain nodes c'"
    using walk_below [OF assms(1) lt(2) assms(5)] walk_below [OF assms(1) lt(4) assms(6)] chain by (metis length_append_singleton)
  with chain have p: "fn_path (nodes ! c) = fn_path (nodes ! c')" by simp
  have "found q = Some k \<longleftrightarrow> 0 < k \<and> k < length nodes \<and> fn_path (nodes ! k) = q" for q k
    using assms(1) by (simp add: tree_nodes_def)
  from this [of "fn_path (nodes ! c)" c] this [of "fn_path (nodes ! c)" c'] lt p show ?thesis by simp
qed

lemma walk_distinct:
  assumes "tree_nodes (nodes, found)"
  shows "n < length nodes \<Longrightarrow> distinct (map fst (walk nodes depth n))"
proof (induction "length nodes - n" arbitrary: n depth rule: less_induct)
  case less
  let ?cs = "fn_children (nodes ! n)"
  note l = tree_children(2) [OF assms less.prems]
  have "distinct (map fst (walk nodes (depth + 1) c))" if "c \<in> set ?cs" for c
    using less.hyps [of c] l [OF that] less.prems by (auto simp: linked_def)
  moreover have "set (map fst (walk nodes (depth + 1) c)) \<inter> set (map fst (walk nodes (depth + 1) c')) = {}"
    if "c \<in> set ?cs" "c' \<in> set ?cs" "c \<noteq> c'" for c c'
    using siblings_apart [OF assms less.prems that(1,2)] that(3) by auto
  ultimately have "distinct (concat (map (\<lambda>c. map fst (walk nodes (depth + 1) c)) ?cs))"
    using tree_children(1) [OF assms less.prems] by (intro distinct_concat_map) auto
  moreover have "n \<notin> fst ` set (walk nodes (depth + 1) c)" if "c \<in> set ?cs" for c
    using walk_below [OF assms, of c n "depth + 1"] l [OF that] by (auto simp: linked_def)
  ultimately show ?case by (auto simp: walk_children [OF assms less.prems] map_concat comp_def)
qed

section \<open>The list of a set of fields\<close>

lemma descend_length: "length (descend_all root_id nodes path w) \<le> length path + length w"
proof (induction w arbitrary: path)
  case (Cons x w)
  obtain n d where "x = (n, d)" by (cases x)
  with Cons [of "descend path d (node_guid root_id nodes n)"] show ?case by (simp add: descend_def)
qed simp

lemma unat_level_of: "d < 2 ^ 16 \<Longrightarrow> unat (level_of d) = d"
  by (simp add: level_of_def unat_of_nat)

lemma ancestors_descend:
  assumes "\<forall>(n, d) \<in> set (take (Suc i) w). d < 2 ^ 16"
  shows "ancestors (map (entry_of root_id nodes) w) i = descend_all root_id nodes [] (take (Suc i) w)"
proof -
  have "foldl (\<lambda>path e. descend path (unat (oe_level e)) (oe_guid e)) p (map (entry_of root_id nodes) v) = descend_all root_id nodes p v"
    if "\<forall>(n, d) \<in> set v. d < 2 ^ 16" for p v
    using that by (induction v arbitrary: p) (auto simp: entry_of_def node_guid_def unat_level_of)
  from this [OF assms] show ?thesis by (simp add: ancestors_def take_map)
qed

lemma tree_preorder:
  assumes "tree_nodes (nodes, found)"
  shows "\<exists>w. preorder_entries root_id nodes = Some (Ok (map (entry_of root_id nodes) w, set_positions 0 w (replicate (length nodes) 0))) \<and>
    distinct (map fst w) \<and> fst ` set w = {..<length nodes} \<and> length w = length nodes \<and> on_path root_id nodes [] w"
proof (intro exI conjI)
  let ?w = "walk nodes 0 0"
  have 0: "0 < length nodes" using assms by (simp add: tree_nodes_def)
  show "preorder_entries root_id nodes = Some (Ok (map (entry_of root_id nodes) ?w, set_positions 0 ?w (replicate (length nodes) 0)))"
    using preorder_loop_walk [OF assms, of "[(0, 0)]"] 0 by (simp add: preorder_entries_def)
  show d: "distinct (map fst ?w)" by (rule walk_distinct [OF assms 0])
  show s: "fst ` set ?w = {..<length nodes}" using walk_covers [OF assms] walk_below [OF assms 0] by blast
  from d s show "length ?w = length nodes" by (metis card_lessThan distinct_card length_map list.set_map)
  show "on_path root_id nodes [] ?w"
    by (rule walk_on_path [OF assms 0]) (simp_all add: path_chain_def node_guid_def guid_chain_def)
qed

lemma position_of:
  assumes "distinct (map fst w)" and "fst ` set w = {..<m}" and "n < m"
  shows "\<exists>j < length w. fst (w ! j) = n \<and> set_positions 0 w (replicate m 0) ! n = j"
proof -
  from assms(2,3) obtain j where j: "j < length w" "fst (w ! j) = n" by (metis (no_types, opaque_lifting) imageE in_set_conv_nth lessThan_iff)
  with set_positions_nth [OF assms(1) j(1), of "replicate m 0" 0] assms(3) show ?thesis by auto
qed

lemma field_tree_exact:
  "\<exists>tree. field_tree root_id names = Some (Ok tree) \<and> length (ft_fields tree) = length names \<and>
     length (ft_entries tree) = length (fst (fst (build_nodes names))) \<and>
     (\<forall>i < length names. ft_fields tree ! i < length (ft_entries tree) \<and> length (field_prefixes (names ! i)) \<le> ft_fields tree ! i \<and>
       (length (ft_entries tree) \<le> 2 ^ 16 \<longrightarrow>
          ancestors (ft_entries tree) (ft_fields tree ! i) = root_id # map guid_of (field_prefixes (names ! i))))"
proof -
  obtain nodes found ends where b: "build_nodes names = ((nodes, found), ends)" by (metis surj_pair)
  note t = build_nodes_tree [OF b]
  from tree_preorder [OF t(1), of root_id] obtain w where w: "preorder_entries root_id nodes =
      Some (Ok (map (entry_of root_id nodes) w, set_positions 0 w (replicate (length nodes) 0)))"
    "distinct (map fst w)" "fst ` set w = {..<length nodes}" "length w = length nodes" "on_path root_id nodes [] w" by blast
  let ?at = "\<lambda>n. set_positions 0 w (replicate (length nodes) 0) ! n" and ?es = "map (entry_of root_id nodes) w"
  have le: "length ends = length names" using t(2) by (simp add: list_all2_lengthD)
  have r: "reaches (nodes, found) (ends ! i) (names ! i)" if "i < length names" for i
    using t(2) that by (rule list_all2_nthD)
  have "list_all (\<lambda>n. n < length nodes) ends" using r le by (auto simp: list_all_length reaches_def)
  then have tree: "field_tree root_id names = Some (Ok \<lparr>ft_entries = ?es, ft_fields = map ?at ends\<rparr>)"
    using b w(1) by (simp add: field_tree_def)
  have "?at (ends ! i) < length ?es \<and> length (field_prefixes (names ! i)) \<le> ?at (ends ! i) \<and>
      (length ?es \<le> 2 ^ 16 \<longrightarrow> ancestors ?es (?at (ends ! i)) = root_id # map guid_of (field_prefixes (names ! i)))"
    if i: "i < length names" for i
  proof -
    have n: "0 < ends ! i" "ends ! i < length nodes" "fn_path (nodes ! (ends ! i)) = names ! i" using r [OF i] by (simp_all add: reaches_def)
    from position_of [OF w(2,3) n(2)] obtain j where j: "j < length w" "fst (w ! j) = ends ! i" "?at (ends ! i) = j" by blast
    have deep: "snd (w ! k) \<le> k \<and> descend_all root_id nodes [] (take (Suc k) w) = guid_chain root_id nodes (fst (w ! k)) \<and>
        snd (w ! k) = length (path_chain nodes (fst (w ! k)))" if "k < length w" for k
      using on_path_nth [OF w(5) that] descend_length [of root_id nodes "[]" "take (Suc k) w"] that by (simp add: guid_chain_def)
    have "d < 2 ^ 16" if "(n, d) \<in> set (take (Suc j) w)" "length ?es \<le> 2 ^ 16" for n d
    proof -
      from that(1) obtain k where "k < length w" "w ! k = (n, d)" by (meson in_set_conv_nth in_set_takeD)
      with deep [of k] that(2) show ?thesis by simp
    qed
    with ancestors_descend [of j w root_id nodes] deep [OF j(1)] j n show ?thesis
      by (auto simp: guid_chain_def path_chain_def)
  qed
  with tree le w(4) b show ?thesis by simp
qed

lemma own_tree_leaf:
  assumes "field_tree root_id [field] = Some (Ok own)"
  shows "\<not> has_children (ft_entries own) (ft_fields own ! 0)"
proof -
  let ?root = "([\<lparr>fn_path = [], fn_children = []\<rparr>], Map.empty) :: building"
  obtain b n where b: "foldl tree_step (?root, 0) (field_prefixes field) = (b, n)" by (meson surj_pair)
  with tree_steps_tree [OF root_tree b] have "length (fst b) \<le> Suc (length (field_prefixes field))" by simp
  moreover have "build_nodes [field] = (b, [n])" using b by (simp add: build_nodes_def add_field_def)
  ultimately show ?thesis
    using field_tree_exact [of root_id "[field]"] assms by (auto simp: has_children_def)
qed

section \<open>Properties\<close>

text \<open>
  What the kernel's list check promises: it refuses lists of more than \<open>MAX_OBJECT_TYPES\<close> entries, answers
  every entry of a list it accepts, and decides an entry with nothing beneath it by the identifiers on its
  way from the root.
\<close>

definition MAX_OBJECT_TYPES :: nat where "MAX_OBJECT_TYPES = 1024"

definition list_check :: "(object_entry list \<Rightarrow> 'e + bool list) \<Rightarrow> (guid list \<Rightarrow> bool) \<Rightarrow> bool" where
  "list_check check verdict \<longleftrightarrow>
     (\<forall>entries results. check entries = Ok results \<longrightarrow>
        length entries \<le> MAX_OBJECT_TYPES \<and> length results = length entries \<and>
        (\<forall>i < length entries. \<not> has_children entries i \<longrightarrow> results ! i = verdict (ancestors entries i)))"

abbreviation field_verdict :: "(guid list \<Rightarrow> bool) \<Rightarrow> guid \<Rightarrow> string \<Rightarrow> bool" where
  "field_verdict verdict root_id field \<equiv> verdict (root_id # map guid_of (field_prefixes field))"

lemma list_checkD:
  assumes "list_check check verdict" and "check entries = Ok results"
  shows "length entries \<le> 2 ^ 16" and "length results = length entries"
    and "i < length entries \<Longrightarrow> \<not> has_children entries i \<Longrightarrow> results ! i = verdict (ancestors entries i)"
proof -
  from assms have c: "length entries \<le> 1024" "length results = length entries"
    "\<And>i. i < length entries \<Longrightarrow> \<not> has_children entries i \<Longrightarrow> results ! i = verdict (ancestors entries i)"
    unfolding list_check_def MAX_OBJECT_TYPES_def by blast+
  then show "length entries \<le> 2 ^ 16" "length results = length entries"
    "i < length entries \<Longrightarrow> \<not> has_children entries i \<Longrightarrow> results ! i = verdict (ancestors entries i)" by simp_all
qed

definition reads_ok :: "(object_entry list \<Rightarrow> 'e + bool list) \<Rightarrow> ('a \<Rightarrow> bool) \<Rightarrow> ('e abort + 'a) option \<Rightarrow> bool" where
  "reads_ok check P r \<longleftrightarrow>
     (\<exists>x. r = Some (Ok x) \<and> P x) \<or> (\<exists>e entries. r = Some (Err (Raised e)) \<and> check entries = Err e)"

lemma own_verdict:
  assumes "list_check check verdict"
  shows "\<exists>own. field_tree root_id [field] = Some (Ok own) \<and>
    (\<forall>results. check (ft_entries own) = Ok results \<longrightarrow> verdict_at results (ft_fields own ! 0) = Ok (field_verdict verdict root_id field))"
proof -
  from field_tree_exact [of root_id "[field]"] obtain own where own: "field_tree root_id [field] = Some (Ok own)"
    "ft_fields own ! 0 < length (ft_entries own)" "length (ft_entries own) \<le> 2 ^ 16 \<longrightarrow>
       ancestors (ft_entries own) (ft_fields own ! 0) = root_id # map guid_of (field_prefixes field)" by auto
  have "verdict_at results (ft_fields own ! 0) = Ok (field_verdict verdict root_id field)" if "check (ft_entries own) = Ok results" for results
    using list_checkD [OF assms that] own own_tree_leaf [OF own(1)] by (simp add: verdict_at_def)
  with own(1) show ?thesis by blast
qed

lemma reads_loop_exact:
  assumes "list_check check verdict" and "check entries = Ok results"
  shows "list_all (\<lambda>(f, n). n < length entries \<and> ancestors entries n = root_id # map guid_of (field_prefixes f)) asked \<Longrightarrow>
    reads_ok check (\<lambda>r. r = reads @ map (\<lambda>(f, n). field_verdict verdict root_id f) asked) (reads_loop root_id check entries results asked reads)"
proof (induction asked arbitrary: reads)
  case (Cons x asked)
  obtain f n where x: "x = (f, n)" by (cases x)
  with Cons.prems have n: "n < length entries" "ancestors entries n = root_id # map guid_of (field_prefixes f)" by simp_all
  note IH = Cons.IH [of "reads @ [field_verdict verdict root_id f]"]
  show ?case
  proof (cases "has_children entries n")
    case True
    from own_verdict [OF assms(1), of root_id f] obtain own where own: "field_tree root_id [f] = Some (Ok own)"
      "\<forall>results. check (ft_entries own) = Ok results \<longrightarrow> verdict_at results (ft_fields own ! 0) = (Ok (field_verdict verdict root_id f) :: 'a abort + bool)"
      by blast
    show ?thesis
    proof (cases "check (ft_entries own)")
      case (Inl e)
      then show ?thesis using True own x by (auto simp: reads_ok_def tree_then_def)
    next
      case (Inr rs)
      then show ?thesis using True own x IH Cons.prems by (simp add: tree_then_def)
    qed
  next
    case False
    then show ?thesis using n list_checkD [OF assms] x IH Cons.prems by (simp add: verdict_at_def)
  qed
qed (simp add: reads_ok_def)

lemma empty_tree: "field_tree root_id [] = Some (Ok \<lparr>ft_entries = [\<lparr>oe_level = 0, oe_guid = root_id\<rparr>], ft_fields = []\<rparr>)"
  by (simp add: field_tree_def build_nodes_def preorder_entries_def preorder_loop.simps level_of_def)

lemma field_reads_reads:
  fixes check :: "object_entry list \<Rightarrow> 'e + bool list"
  assumes "list_check check verdict"
  shows "reads_ok check (\<lambda>reads. fr_fields reads = map (field_verdict verdict root_id) names \<and>
    (names = [] \<longrightarrow> fr_record reads = verdict [root_id])) (field_reads root_id names check)"
proof -
  from field_tree_exact [of root_id names] obtain tree where tree: "field_tree root_id names = Some (Ok tree)" "length (ft_fields tree) = length names"
    "length (ft_entries tree) = length (fst (fst (build_nodes names)))"
    "\<forall>i < length names. ft_fields tree ! i < length (ft_entries tree) \<and> (length (ft_entries tree) \<le> 2 ^ 16 \<longrightarrow>
       ancestors (ft_entries tree) (ft_fields tree ! i) = root_id # map guid_of (field_prefixes (names ! i)))" by blast
  show ?thesis
  proof (cases "check (ft_entries tree)")
    case (Inl e)
    then show ?thesis using tree(1) by (auto simp: reads_ok_def field_reads_def tree_then_def)
  next
    case (Inr results)
    note c = list_checkD [OF assms Inr]
    have "list_all (\<lambda>(f, n). n < length (ft_entries tree) \<and> ancestors (ft_entries tree) n = root_id # map guid_of (field_prefixes f))
        (zip names (ft_fields tree))"
      using tree(2,4) c(1) by (auto simp: list_all_length)
    note r = reads_loop_exact [OF assms Inr this, of "[]"]
    have zipped: "map (\<lambda>(f, n). field_verdict verdict root_id f) (zip names (ft_fields tree)) = map (field_verdict verdict root_id) names"
      using tree(2) by (intro nth_equalityI) simp_all
    from r have loop: "reads_ok check (\<lambda>r. r = map (field_verdict verdict root_id) names)
        (reads_loop root_id check (ft_entries tree) results (zip names (ft_fields tree)) [])"
      using zipped by simp
    have "0 < length (ft_entries tree)" using build_nodes_tree(1) [of names] tree(3) by (cases "build_nodes names") (auto simp: tree_nodes_def)
    then have 0: "verdict_at results 0 = (Ok (results ! 0) :: 'e abort + bool)" using c(2) by (simp add: verdict_at_def)
    have "results ! 0 = verdict [root_id]" if "names = []"
      using that tree(1) c(3) [of 0] by (auto simp: empty_tree has_children_def ancestors_def descend_def)
    with loop tree(1) Inr 0 show ?thesis by (auto simp: reads_ok_def field_reads_def tree_then_def)
  qed
qed

text \<open>
  C38. Whatever other fields are asked about, a field may be read exactly when the check allows the chain of
  identifiers from the data type's root through the prefixes of its path. Building the object type list always
  ends, no index is out of range, and the only failure is one the check reports.
\<close>

theorem field_reads_exact:
  fixes check :: "object_entry list \<Rightarrow> 'e + bool list"
  assumes "list_check check verdict"
  shows "reads_ok check (\<lambda>reads. fr_fields reads = map (field_verdict verdict root_id) names \<and>
    (names = [] \<longrightarrow> fr_record reads = verdict [root_id])) (field_reads root_id names check)"
  using assms by (rule field_reads_reads)

theorem field_reads_exact_witness:
  "let verdict = (\<lambda>path. length path = 2);
       check = (\<lambda>entries. if length entries \<le> MAX_OBJECT_TYPES
         then Ok (map (\<lambda>i. verdict (ancestors entries i)) [0..<length entries]) else Err ()) in
   list_check check verdict \<and>
   reads_ok check (\<lambda>reads. fr_fields reads = [True, False]) (field_reads (root_guid NsEvents) [''a'', ''a.b''] check)"
proof -
  let ?verdict = "\<lambda>path :: guid list. length path = 2"
  let ?check = "\<lambda>entries. if length entries \<le> MAX_OBJECT_TYPES
      then Ok (map (\<lambda>i. ?verdict (ancestors entries i)) [0..<length entries]) else Err ()"
  have c: "list_check ?check ?verdict" by (auto simp: list_check_def)
  have "field_prefixes ''a'' = [''a'']" "field_prefixes ''a.b'' = [''a'', ''a.b'']" by (simp_all add: field_prefixes_def upt_rec)
  with field_reads_exact [OF c, of "root_guid NsEvents" "[''a'', ''a.b'']"] c show ?thesis by (simp add: Let_def)
qed

end
