(* ===== verification/Authorizer.thy ===== *)
theory Authorizer
  imports Field_Verdicts "HOL-Library.List_Lexorder"
begin

text \<open>
  The authorizer of a query (\<^verbatim>\<open>Authorizer\<close> of \<^verbatim>\<open>eventd/src/query/security.rs\<close>) and the same decisions on the
  client's side (\<^verbatim>\<open>access\<close>, \<^verbatim>\<open>readable\<close> of \<^verbatim>\<open>eventd-client/src/access.rs\<close>). The access check and the writer of the
  audit context are the platform's and arguments here, as is the descriptor an identifier resolves to. A
  granted set is a list of fields.
\<close>

section \<open>Verdicts of the kernel\<close>

datatype 'p security_error = SecPeios 'p | InvalidDescriptorType string | TooManyFields | WatchClosed

record node_result =
  nr_granted :: u32
  nr_status :: int

definition EVENTD_READ :: u32 where "EVENTD_READ = 0x0001"

definition node_reads :: "node_result \<Rightarrow> bool" where
  "node_reads r \<longleftrightarrow> nr_status r = 0 \<and> nr_granted r AND EVENTD_READ \<noteq> 0"

definition namespace_kind :: "namespace \<Rightarrow> string" where
  "namespace_kind n =
     (case n of NsEvents \<Rightarrow> ''event-namespace'' | NsLogs \<Rightarrow> ''log-namespace'' | NsMetrics \<Rightarrow> ''metric-namespace'')"

definition authorizer_reads ::
  "(string \<Rightarrow> string option \<Rightarrow> 'p + u8 list) \<Rightarrow> (u8 list \<Rightarrow> 'd \<Rightarrow> object_entry list \<Rightarrow> 'p + node_result list) \<Rightarrow>
     namespace \<Rightarrow> string \<Rightarrow> 'd \<Rightarrow> object_entry list \<Rightarrow> 'p security_error + bool list" where
  "authorizer_reads audit kacs n pattern descriptor tree =
     (if MAX_OBJECT_TYPES < length tree then Err TooManyFields
      else
        rbind (map_err SecPeios (audit (namespace_kind n) (Some pattern))) (\<lambda>context.
        rbind (map_err SecPeios (kacs context descriptor tree)) (\<lambda>results. Ok (map node_reads results))))"

section \<open>The fields a descriptor grants by name\<close>

text \<open>An ACE of a type the platform leaves raw has that type; its object identifier is optional.\<close>

record ace =
  ace_raw_type :: "u8 option"
  ace_object_type :: "guid option"

definition ALLOWING_OBJECT :: "u8 list" where "ALLOWING_OBJECT = [0x05, 0x0b]"

definition field_grants :: "ace list option \<Rightarrow> guid list" where
  "field_grants dacl =
     (case dacl of
        None \<Rightarrow> []
      | Some aces \<Rightarrow>
          remdups_adj (sort
            (filter (\<lambda>guid. \<not> list_ex (\<lambda>n. root_guid n = guid) [NsEvents, NsLogs, NsMetrics])
              (List.map_filter ace_object_type
                (filter (\<lambda>a. case ace_raw_type a of Some raw \<Rightarrow> raw \<in> set ALLOWING_OBJECT | None \<Rightarrow> False) aces)))))"

definition named_grants :: "namespace \<Rightarrow> ace list option \<Rightarrow> object_entry list" where
  "named_grants n dacl = flat_tree (root_guid n) (field_grants dacl)"

section \<open>What the caller may read\<close>

definition granted_fields :: "string list \<Rightarrow> bool list \<Rightarrow> string list" where
  "granted_fields names reads = map fst (filter snd (zip names reads))"

definition authorizer_check ::
  "(string \<Rightarrow> string option \<Rightarrow> 'p + u8 list) \<Rightarrow> (u8 list \<Rightarrow> 'd \<Rightarrow> object_entry list \<Rightarrow> 'p + node_result list) \<Rightarrow>
     namespace \<Rightarrow> (string \<times> 'd) option \<Rightarrow> string list \<Rightarrow> ('p security_error abort + string list option) option" where
  "authorizer_check audit kacs n resolved names =
     (case resolved of
        None \<Rightarrow> Some (Ok None)
      | Some (pattern, descriptor) \<Rightarrow>
          map_option (\<lambda>r. rbind r (\<lambda>reads.
            let granted = granted_fields names (fr_fields reads) in
            if \<not> fr_record reads \<and> granted = [] then Ok None else Ok (Some granted)))
            (field_reads (root_guid n) names (authorizer_reads audit kacs n pattern descriptor)))"

definition authorizer_may_read ::
  "(string \<Rightarrow> string option \<Rightarrow> 'p + u8 list) \<Rightarrow> (u8 list \<Rightarrow> 'd \<Rightarrow> object_entry list \<Rightarrow> 'p + node_result list) \<Rightarrow>
     ('d \<Rightarrow> ace list option) \<Rightarrow> namespace \<Rightarrow> (string \<times> 'd) option \<Rightarrow> string list \<Rightarrow> ('p security_error abort + bool) option" where
  "authorizer_may_read audit kacs dacl n resolved names =
     (case resolved of
        None \<Rightarrow> Some (Ok False)
      | Some (pattern, descriptor) \<Rightarrow>
          if names \<noteq> [] then
            map_option (\<lambda>r. rbind r (\<lambda>reads. Ok (list_all id (fr_fields reads))))
              (field_reads (root_guid n) names (authorizer_reads audit kacs n pattern descriptor))
          else
            Some (rbind (map_err Raised (authorizer_reads audit kacs n pattern descriptor (named_grants n (dacl descriptor))))
              (\<lambda>reads. Ok (list_ex id reads))))"

section \<open>The client's view\<close>

record client_reads =
  acc_records :: bool
  acc_fields :: "string list"

definition client_access ::
  "(object_entry list \<Rightarrow> 'p + node_result list) \<Rightarrow> ace list option \<Rightarrow> namespace \<Rightarrow> string list \<Rightarrow> ('p abort + client_reads) option" where
  "client_access check_list dacl n names =
     (let check = (\<lambda>tree. rbind (check_list tree) (\<lambda>results. Ok (map node_reads results))) in
      map_option (\<lambda>r. rbind r (\<lambda>reads.
        let granted = granted_fields names (fr_fields reads); named = field_grants dacl in
        if fr_record reads \<or> granted \<noteq> [] then Ok \<lparr>acc_records = True, acc_fields = granted\<rparr>
        else if named = [] then Ok \<lparr>acc_records = False, acc_fields = granted\<rparr>
        else
          rbind (map_err Raised (check (flat_tree (root_guid n) named))) (\<lambda>reads.
            Ok \<lparr>acc_records = list_ex id reads, acc_fields = granted\<rparr>)))
        (field_reads (root_guid n) names check))"

datatype readable = Everything | SomeHidden "string list" | Nothing | Unknown string

fun readable_loop :: "(string \<Rightarrow> 'p + bool) \<Rightarrow> ('p \<Rightarrow> string) \<Rightarrow> string list \<Rightarrow> string list \<Rightarrow> nat \<Rightarrow> readable" where
  "readable_loop granted show_error [] hidden visible =
     (if visible = 0 then Nothing else if hidden = [] then Everything else SomeHidden hidden)"
| "readable_loop granted show_error (pattern # patterns) hidden visible =
     (case granted pattern of
        Ok True \<Rightarrow> readable_loop granted show_error patterns hidden (visible + 1)
      | Ok False \<Rightarrow> readable_loop granted show_error patterns (hidden @ [pattern]) visible
      | Err e \<Rightarrow> Unknown (''the policy for '' @ pattern @ '' can't be checked ('' @ show_error e @ '')''))"

definition readable_from :: "'p + string list \<Rightarrow> (string \<Rightarrow> 'p + bool) \<Rightarrow> ('p \<Rightarrow> string) \<Rightarrow> readable" where
  "readable_from patterns granted show_error =
     (case patterns of
        Err e \<Rightarrow> Unknown (''its policy can't be read ('' @ show_error e @ '')'')
      | Ok patterns \<Rightarrow> readable_loop granted show_error patterns [] 0)"

section \<open>Decisions\<close>

text \<open>What the kernel's list check promises of one descriptor; that lists are short enough the authorizer sees to.\<close>

definition kacs_decides :: "(u8 list \<Rightarrow> 'd \<Rightarrow> object_entry list \<Rightarrow> 'p + node_result list) \<Rightarrow> 'd \<Rightarrow> (guid list \<Rightarrow> bool) \<Rightarrow> bool" where
  "kacs_decides kacs descriptor verdict \<longleftrightarrow>
     (\<forall>context entries results. kacs context descriptor entries = Ok results \<longrightarrow>
        length results = length entries \<and>
        (\<forall>i < length entries. \<not> has_children entries i \<longrightarrow> node_reads (results ! i) = verdict (ancestors entries i)))"

lemma authorizer_reads_check:
  assumes "kacs_decides kacs descriptor verdict"
  shows "list_check (authorizer_reads audit kacs n pattern descriptor) verdict"
  unfolding list_check_def
proof (intro allI impI)
  fix entries results
  assume "authorizer_reads audit kacs n pattern descriptor entries = Ok results"
  then obtain ctx rs where "length entries \<le> MAX_OBJECT_TYPES" "kacs ctx descriptor entries = Ok rs" "results = map node_reads rs"
    by (auto simp: authorizer_reads_def rbind_Ok_iff map_err_Ok_iff split: if_splits)
  with assms show "length entries \<le> MAX_OBJECT_TYPES \<and> length results = length entries \<and>
      (\<forall>i < length entries. \<not> has_children entries i \<longrightarrow> results ! i = verdict (ancestors entries i))"
    by (auto simp: kacs_decides_def)
qed

lemma granted_fields_filter: "granted_fields names (map P names) = filter P names"
  by (induction names) (auto simp: granted_fields_def)

text \<open>A continuation after the verdicts keeps what holds of them.\<close>

lemma reads_ok_then:
  assumes "reads_ok check P r" and "\<And>x. P x \<Longrightarrow> \<exists>y. f x = Ok y \<and> Q y"
  shows "reads_ok check Q (map_option (\<lambda>r. rbind r f) r)"
  using assms by (fastforce simp: reads_ok_def)

lemma authorizer_check_exact:
  assumes "kacs_decides kacs descriptor verdict"
  shows "reads_ok (authorizer_reads audit kacs n pattern descriptor)
    (\<lambda>granted. case granted of
       None \<Rightarrow> filter (field_verdict verdict (root_guid n)) names = []
     | Some fs \<Rightarrow> fs = filter (field_verdict verdict (root_guid n)) names)
    (authorizer_check audit kacs n (Some (pattern, descriptor)) names)"
  unfolding authorizer_check_def option.case prod.case
  by (rule reads_ok_then [OF field_reads_reads [OF authorizer_reads_check [OF assms]]]) (simp add: Let_def granted_fields_filter)

lemma authorizer_may_read_exact:
  assumes "kacs_decides kacs descriptor verdict" and "names \<noteq> []"
  shows "reads_ok (authorizer_reads audit kacs n pattern descriptor) (\<lambda>b. b \<longleftrightarrow> list_all (field_verdict verdict (root_guid n)) names)
    (authorizer_may_read audit kacs dacl n (Some (pattern, descriptor)) names)"
  unfolding authorizer_may_read_def option.case prod.case if_P [OF assms(2)]
  by (rule reads_ok_then [OF field_reads_reads [OF authorizer_reads_check [OF assms(1)]]]) (simp add: list_all_iff)

lemma reads_ok_Ok: "reads_ok check P (Some (Ok x)) \<Longrightarrow> P x"
  by (auto simp: reads_ok_def)

text \<open>The patterns the client reports hidden are those whose records it may not read.\<close>

lemma readable_loop_exact:
  assumes "\<forall>p \<in> set patterns. granted p = Ok (may p)"
  shows "readable_loop granted show_error patterns hidden visible =
    (if visible + length (filter may patterns) = 0 then Nothing
     else if hidden @ filter (\<lambda>p. \<not> may p) patterns = [] then Everything
     else SomeHidden (hidden @ filter (\<lambda>p. \<not> may p) patterns))"
  using assms by (induction patterns arbitrary: hidden visible) auto

text \<open>No identifier is listed twice when the fields a descriptor grants by name are asked about.\<close>

lemma distinct_remdups_adj_sorted: "sorted (xs :: 'a::linorder list) \<Longrightarrow> distinct (remdups_adj xs)"
proof (induction xs rule: remdups_adj.induct)
  case (3 x y xs)
  then show ?case by (cases "x = y") fastforce+
qed simp_all

lemma named_grants_distinct: "distinct (map oe_guid (named_grants n dacl))"
proof -
  have "map oe_guid (map (\<lambda>g. \<lparr>oe_level = 1, oe_guid = g\<rparr>) gs) = gs" for gs by (simp add: comp_def)
  moreover have "distinct (field_grants dacl)" by (simp add: field_grants_def distinct_remdups_adj_sorted split: option.split)
  ultimately show ?thesis by (simp add: named_grants_def flat_tree_def)
qed

section \<open>Properties\<close>



end
