(* ===== verification/Descriptor_Cache.thy ===== *)
theory Descriptor_Cache
  imports Authorizer
begin

text \<open>
  The cache of security descriptors (\<^verbatim>\<open>DescriptorCache\<close> of \<^verbatim>\<open>eventd/src/query/security.rs\<close>) shared by the query
  handlers and the thread that watches the registry. Each section of the code that holds the lock is one
  definition and one step; the registry may change at any moment, also between two reads of one resolution.
  A step relation interleaves any number of handlers, the watcher and the registry.
\<close>

section \<open>The cache\<close>

datatype 'd admin_descriptor = AdminUnresolved | AdminMissing | AdminPresent 'd

type_synonym 'd resolution = "(string \<times> 'd) option"

record 'd descriptor_cache =
  dc_generation :: u64
  dc_healthy :: bool
  dc_resolved :: "namespace \<times> string \<Rightarrow> 'd resolution option"
  dc_admin :: "'d admin_descriptor"

definition descriptor_cache_new :: "'d descriptor_cache" where
  "descriptor_cache_new = \<lparr>dc_generation = 0, dc_healthy = True, dc_resolved = Map.empty, dc_admin = AdminUnresolved\<rparr>"

definition invalidate :: "'d descriptor_cache \<Rightarrow> 'd descriptor_cache" where
  "invalidate c = \<lparr>dc_generation = dc_generation c + 1, dc_healthy = True, dc_resolved = Map.empty, dc_admin = AdminUnresolved\<rparr>"

definition fail_watch :: "'d descriptor_cache \<Rightarrow> 'd descriptor_cache" where
  "fail_watch c = \<lparr>dc_generation = dc_generation c + 1, dc_healthy = False, dc_resolved = Map.empty, dc_admin = AdminUnresolved\<rparr>"

text \<open>
  The section under the read lock answers at once, with the cached or, when the watch has failed, with no
  descriptor, or says under which generation to load. The section under the write lock keeps what was
  loaded unless the generation has moved or the watch has failed; then the loop starts again.
\<close>

datatype 'd lookup = Answer "'d resolution" | Load u64

definition resolve_lookup :: "'d descriptor_cache \<Rightarrow> namespace \<times> string \<Rightarrow> 'd lookup" where
  "resolve_lookup c key =
     (case dc_resolved c key of
        Some cached \<Rightarrow> Answer cached
      | None \<Rightarrow> if \<not> dc_healthy c then Answer None else Load (dc_generation c))"

definition resolve_store :: "'d descriptor_cache \<Rightarrow> namespace \<times> string \<Rightarrow> u64 \<Rightarrow> 'd resolution \<Rightarrow> 'd descriptor_cache option" where
  "resolve_store c key generation loaded =
     (if dc_generation c \<noteq> generation \<or> \<not> dc_healthy c then None
      else Some (c\<lparr>dc_resolved := (dc_resolved c)(key \<mapsto> loaded)\<rparr>))"

definition admin_lookup :: "'d descriptor_cache \<Rightarrow> 'd lookup" where
  "admin_lookup c =
     (case dc_admin c of
        AdminPresent d \<Rightarrow> Answer (Some (''Admin'', d))
      | AdminMissing \<Rightarrow> Answer None
      | AdminUnresolved \<Rightarrow> if \<not> dc_healthy c then Answer None else Load (dc_generation c))"

definition admin_store :: "'d descriptor_cache \<Rightarrow> u64 \<Rightarrow> 'd resolution \<Rightarrow> 'd descriptor_cache option" where
  "admin_store c generation loaded =
     (if dc_generation c \<noteq> generation \<or> \<not> dc_healthy c then None
      else Some (c\<lparr>dc_admin := (case loaded of None \<Rightarrow> AdminMissing | Some (_, d) \<Rightarrow> AdminPresent d)\<rparr>))"

section \<open>Loading\<close>

text \<open>
  The registry answers a path with an error, with nothing, or with a value and whether it is binary. A
  descriptor is read from a binary value; reading it is the platform's.
\<close>

type_synonym 'p registry = "string \<Rightarrow> 'p + (bool \<times> u8 list) option"

definition load_descriptor :: "(u8 list \<Rightarrow> 'p + 'd) \<Rightarrow> 'p registry \<Rightarrow> string \<Rightarrow> 'p security_error + 'd option" where
  "load_descriptor read_bytes registry path =
     rbind (map_err SecPeios (registry path)) (\<lambda>v.
       case v of
         None \<Rightarrow> Ok None
       | Some (is_binary, bytes) \<Rightarrow>
           if \<not> is_binary then Err (InvalidDescriptorType path)
           else rbind (map_err SecPeios (read_bytes bytes)) (\<lambda>d. Ok (Some d)))"

datatype question = Identifier namespace string | Admin

text \<open>The patterns a question walks through, each with its registry path.\<close>

definition question_paths :: "question \<Rightarrow> (string \<times> string) list" where
  "question_paths q =
     (case q of
        Identifier n identifier \<Rightarrow> map (\<lambda>p. (p, descriptor_path n p)) (candidates identifier)
      | Admin \<Rightarrow> [(''Admin'', SECURITY_ROOT @ backslash # ''Admin'')])"

definition lookup :: "'d descriptor_cache \<Rightarrow> question \<Rightarrow> 'd lookup" where
  "lookup c q = (case q of Identifier n i \<Rightarrow> resolve_lookup c (n, i) | Admin \<Rightarrow> admin_lookup c)"

definition store :: "'d descriptor_cache \<Rightarrow> question \<Rightarrow> u64 \<Rightarrow> 'd resolution \<Rightarrow> 'd descriptor_cache option" where
  "store c q generation loaded =
     (case q of Identifier n i \<Rightarrow> resolve_store c (n, i) generation loaded | Admin \<Rightarrow> admin_store c generation loaded)"

section \<open>Handlers, watcher and registry\<close>

datatype ('p, 'd) handler =
  Idle
  | Asking question
  | Loading question u64 "(string \<times> string) list"
  | Loaded question u64 "'d resolution"
  | Returned question "'d resolution"
  | Failed question "'p security_error"

text \<open>
  Beside the code's state the system has the registries there were since the last invalidation, the current
  one last, and the number of invalidations so far.
\<close>

record ('p, 'd) system =
  sys_cache :: "'d descriptor_cache"
  sys_registry :: "'p registry"
  sys_handler :: "nat \<Rightarrow> ('p, 'd) handler"
  sys_since :: "'p registry list"
  sys_invalidations :: nat

definition set_handler :: "nat \<Rightarrow> ('p, 'd) handler \<Rightarrow> ('p, 'd) system \<Rightarrow> ('p, 'd) system" where
  "set_handler t h s = s\<lparr>sys_handler := (sys_handler s)(t := h)\<rparr>"

inductive step :: "(u8 list \<Rightarrow> 'p + 'd) \<Rightarrow> ('p, 'd) system \<Rightarrow> ('p, 'd) system \<Rightarrow> bool" for read_bytes where
  ask: "sys_handler s t \<in> {Idle, Returned q' r, Failed q' e} \<Longrightarrow> step read_bytes s (set_handler t (Asking q) s)"
| answer: "sys_handler s t = Asking q \<Longrightarrow> lookup (sys_cache s) q = Answer r \<Longrightarrow> step read_bytes s (set_handler t (Returned q r) s)"
| load: "sys_handler s t = Asking q \<Longrightarrow> lookup (sys_cache s) q = Load g \<Longrightarrow> step read_bytes s (set_handler t (Loading q g (question_paths q)) s)"
| absent: "sys_handler s t = Loading q g ((p, path) # ps) \<Longrightarrow> load_descriptor read_bytes (sys_registry s) path = Ok None \<Longrightarrow>
    step read_bytes s (set_handler t (Loading q g ps) s)"
| present: "sys_handler s t = Loading q g ((p, path) # ps) \<Longrightarrow> load_descriptor read_bytes (sys_registry s) path = Ok (Some d) \<Longrightarrow>
    step read_bytes s (set_handler t (Loaded q g (Some (p, d))) s)"
| fail: "sys_handler s t = Loading q g ((p, path) # ps) \<Longrightarrow> load_descriptor read_bytes (sys_registry s) path = Err e \<Longrightarrow>
    step read_bytes s (set_handler t (Failed q e) s)"
| none_left: "sys_handler s t = Loading q g [] \<Longrightarrow> step read_bytes s (set_handler t (Loaded q g None) s)"
| keep: "sys_handler s t = Loaded q g r \<Longrightarrow> store (sys_cache s) q g r = Some c \<Longrightarrow>
    step read_bytes s (set_handler t (Returned q r) (s\<lparr>sys_cache := c\<rparr>))"
| retry: "sys_handler s t = Loaded q g r \<Longrightarrow> store (sys_cache s) q g r = None \<Longrightarrow> step read_bytes s (set_handler t (Asking q) s)"
| change: "step read_bytes s (s\<lparr>sys_registry := reg, sys_since := sys_since s @ [reg]\<rparr>)"
| invalidate: "step read_bytes s (s\<lparr>sys_cache := invalidate (sys_cache s), sys_since := [sys_registry s],
    sys_invalidations := Suc (sys_invalidations s)\<rparr>)"
| fail_watch: "step read_bytes s (s\<lparr>sys_cache := fail_watch (sys_cache s), sys_since := [sys_registry s],
    sys_invalidations := Suc (sys_invalidations s)\<rparr>)"

definition start :: "'p registry \<Rightarrow> ('p, 'd) system" where
  "start reg = \<lparr>sys_cache = descriptor_cache_new, sys_registry = reg, sys_handler = (\<lambda>_. Idle), sys_since = [reg], sys_invalidations = 0\<rparr>"

section \<open>What the cache promises\<close>

text \<open>
  The interface the handlers rely on: an answer comes from the cache or from a failed watch, a load is told
  the current generation, only a result loaded under the current generation is kept, and it is kept for its own
  question; an invalidation forgets every answer.
\<close>

locale generation_cache =
  fixes look :: "'d descriptor_cache \<Rightarrow> 'q \<Rightarrow> 'd lookup"
    and put :: "'d descriptor_cache \<Rightarrow> 'q \<Rightarrow> u64 \<Rightarrow> 'd resolution \<Rightarrow> 'd descriptor_cache option"
    and named :: "'q \<Rightarrow> 'd resolution \<Rightarrow> bool"
  assumes look_load: "look c q = Load g \<Longrightarrow> g = dc_generation c"
    and put_current: "put c q g r = Some c' \<Longrightarrow> dc_generation c = g"
    and put_healthy: "put c q g r = Some c' \<Longrightarrow> dc_healthy c"
    and put_keeps: "put c q g r = Some c' \<Longrightarrow> dc_generation c' = dc_generation c \<and> dc_healthy c' = dc_healthy c"
    and put_same: "put c q g r = Some c' \<Longrightarrow> named q r \<Longrightarrow> look c' q = Answer r"
    and put_other: "put c q g r = Some c' \<Longrightarrow> q' \<noteq> q \<Longrightarrow> look c' q' = look c q'"
    and look_new: "look descriptor_cache_new q = Load 0"
    and look_invalidate: "look (invalidate c) q = Load (dc_generation c + 1)"
    and look_fail: "look (fail_watch c) q = Answer None"
begin

definition answers :: "('q \<Rightarrow> 'd resolution \<Rightarrow> bool) \<Rightarrow> 'd descriptor_cache \<Rightarrow> bool" where
  "answers P c \<longleftrightarrow> (\<forall>q r. look c q = Answer r \<longrightarrow> P q r \<or> r = None \<and> \<not> dc_healthy c)"

lemma answersD: "answers P c \<Longrightarrow> look c q = Answer r \<Longrightarrow> P q r \<or> r = None \<and> \<not> dc_healthy c"
  by (simp add: answers_def)

lemma answers_new: "answers P descriptor_cache_new"
  by (simp add: answers_def look_new)

lemma answers_mono: "answers P c \<Longrightarrow> (\<And>q r. P q r \<Longrightarrow> Q q r) \<Longrightarrow> answers Q c"
  by (auto simp: answers_def)

lemma answers_put:
  assumes "answers P c" and "put c q g r = Some c'" and "P q r" and "named q r"
  shows "answers P c'"
  unfolding answers_def
proof (intro allI impI)
  fix q' r'
  assume "look c' q' = Answer r'"
  then show "P q' r' \<or> r' = None \<and> \<not> dc_healthy c'"
    using assms put_same [OF assms(2,4)] put_other [OF assms(2), of q'] put_keeps [OF assms(2)] by (cases "q' = q") (auto dest: answersD)
qed

lemma answers_invalidate: "answers P (invalidate c)"
  by (simp add: answers_def look_invalidate)

lemma answers_fail: "answers P (fail_watch c)"
proof -
  have "\<not> dc_healthy (fail_watch c)" by (simp add: fail_watch_def)
  then show ?thesis by (simp add: answers_def look_fail)
qed

end

lemmas lookup_defs = lookup_def resolve_lookup_def admin_lookup_def

lemmas store_defs = store_def resolve_store_def admin_store_def

text \<open>The administration descriptor is cached without its name, which is always the same.\<close>

definition named :: "question \<Rightarrow> 'd resolution \<Rightarrow> bool" where
  "named q r \<longleftrightarrow> (case (q, r) of (Admin, Some (p, _)) \<Rightarrow> p = ''Admin'' | _ \<Rightarrow> True)"

interpretation dc: generation_cache lookup store named
proof
  fix c c' :: "'d descriptor_cache" and q q' :: question and g and r :: "'d resolution"
  show "lookup c q = Load g \<Longrightarrow> g = dc_generation c"
    by (auto simp: lookup_defs split: question.splits option.splits admin_descriptor.splits if_splits)
  show "store c q g r = Some c' \<Longrightarrow> dc_generation c = g" "store c q g r = Some c' \<Longrightarrow> dc_healthy c"
    "store c q g r = Some c' \<Longrightarrow> dc_generation c' = dc_generation c \<and> dc_healthy c' = dc_healthy c"
    by (auto simp: store_defs split: question.splits if_splits)
  show "store c q g r = Some c' \<Longrightarrow> q' \<noteq> q \<Longrightarrow> lookup c' q' = lookup c q'"
    by (auto simp: store_defs lookup_defs split: question.splits if_splits option.splits admin_descriptor.splits)
  show "lookup descriptor_cache_new q = Load 0" "lookup (invalidate c) q = Load (dc_generation c + 1)" "lookup (fail_watch c) q = Answer None"
    by (simp_all add: lookup_defs descriptor_cache_new_def invalidate_def fail_watch_def split: question.splits)
  show "store c q g r = Some c' \<Longrightarrow> named q r \<Longrightarrow> lookup c' q = Answer r"
    by (auto simp: store_defs lookup_defs named_def split: question.splits if_splits option.splits)
qed

section \<open>Nothing older than the last invalidation\<close>

definition seen :: "(u8 list \<Rightarrow> 'p + 'd) \<Rightarrow> 'p registry list \<Rightarrow> string \<Rightarrow> 'd option \<Rightarrow> bool" where
  "seen read_bytes since path d \<longleftrightarrow> (\<exists>reg \<in> set since. load_descriptor read_bytes reg path = Ok d)"

text \<open>
  A resolution is backed by some registries when each pattern before the one it found was absent in one of
  them, and the descriptor it found was in one of them.
\<close>

definition backed :: "(u8 list \<Rightarrow> 'p + 'd) \<Rightarrow> 'p registry list \<Rightarrow> question \<Rightarrow> 'd resolution \<Rightarrow> bool" where
  "backed read_bytes since q r \<longleftrightarrow>
     (case r of
        None \<Rightarrow> \<forall>x \<in> set (question_paths q). seen read_bytes since (snd x) None
      | Some (p, d) \<Rightarrow> \<exists>before path after. question_paths q = before @ (p, path) # after \<and>
          (\<forall>x \<in> set before. seen read_bytes since (snd x) None) \<and> seen read_bytes since path (Some d))"

lemma seen_mono: "seen read_bytes since path d \<Longrightarrow> set since \<subseteq> set since' \<Longrightarrow> seen read_bytes since' path d"
  by (auto simp: seen_def)

lemma backed_mono: "backed read_bytes since q r \<Longrightarrow> set since \<subseteq> set since' \<Longrightarrow> backed read_bytes since' q r"
proof -
  assume "backed read_bytes since q r" and sub: "set since \<subseteq> set since'"
  have "seen read_bytes since path d \<Longrightarrow> seen read_bytes since' path d" for path d using seen_mono sub by blast
  with \<open>backed read_bytes since q r\<close> show ?thesis unfolding backed_def by (cases r) (auto, blast)
qed

lemma backed_named: "backed read_bytes since q r \<Longrightarrow> named q r"
  by (auto simp: backed_def named_def question_paths_def Cons_eq_append_conv split: option.splits question.splits)

definition handler_ok :: "(u8 list \<Rightarrow> 'p + 'd) \<Rightarrow> 'p registry list \<Rightarrow> nat \<Rightarrow> ('p, 'd) handler \<Rightarrow> bool" where
  "handler_ok read_bytes since n h \<longleftrightarrow>
     (case h of
        Loading q g ps \<Rightarrow> \<exists>k \<le> n. g = of_nat k \<and> (k = n \<longrightarrow>
          (\<exists>before. question_paths q = before @ ps \<and> (\<forall>x \<in> set before. seen read_bytes since (snd x) None)))
      | Loaded q g r \<Rightarrow> \<exists>k \<le> n. g = of_nat k \<and> (k = n \<longrightarrow> backed read_bytes since q r)
      | _ \<Rightarrow> True)"

definition good :: "(u8 list \<Rightarrow> 'p + 'd) \<Rightarrow> ('p, 'd) system \<Rightarrow> bool" where
  "good read_bytes s \<longleftrightarrow>
     dc_generation (sys_cache s) = of_nat (sys_invalidations s) \<and> sys_registry s \<in> set (sys_since s) \<and>
     dc.answers (backed read_bytes (sys_since s)) (sys_cache s) \<and>
     (\<forall>t. handler_ok read_bytes (sys_since s) (sys_invalidations s) (sys_handler s t))"

lemma handler_ok_later: "handler_ok read_bytes since n h \<Longrightarrow> handler_ok read_bytes since' (Suc n) h"
  by (auto simp: handler_ok_def split: handler.splits) (metis le_SucI not_less_eq_eq)+

lemma handler_ok_change: "handler_ok read_bytes since n h \<Longrightarrow> set since \<subseteq> set since' \<Longrightarrow> handler_ok read_bytes since' n h"
proof -
  assume h: "handler_ok read_bytes since n h" and sub: "set since \<subseteq> set since'"
  have "seen read_bytes since path d \<Longrightarrow> seen read_bytes since' path d" for path d using seen_mono sub by blast
  moreover have "backed read_bytes since q r \<Longrightarrow> backed read_bytes since' q r" for q r using backed_mono sub by blast
  ultimately show ?thesis using h unfolding handler_ok_def by (cases h) (simp_all, blast+)
qed

lemma good_set_handler:
  "good read_bytes s \<Longrightarrow> handler_ok read_bytes (sys_since s) (sys_invalidations s) h \<Longrightarrow> good read_bytes (set_handler t h s)"
  by (simp add: good_def set_handler_def)

lemma good_start: "good read_bytes (start reg)"
  by (simp add: good_def start_def descriptor_cache_new_def [symmetric] dc.answers_new handler_ok_def) (simp add: descriptor_cache_new_def)

lemma current_generation:
  assumes "of_nat k = (of_nat n :: u64)" and "k \<le> n" and "n < 2 ^ 64"
  shows "k = n"
proof -
  have "unat (of_nat k :: u64) = k" "unat (of_nat n :: u64) = n" using assms(2,3) by (simp_all add: unat_of_nat)
  then show ?thesis using assms(1) by metis
qed

lemma kept_backed:
  assumes "good read_bytes s" and "sys_handler s t = Loaded q g r" and "store (sys_cache s) q g r = Some c" and "sys_invalidations s < 2 ^ 64"
  shows "backed read_bytes (sys_since s) q r"
proof -
  have "handler_ok read_bytes (sys_since s) (sys_invalidations s) (Loaded q g r)" using assms(1,2) by (metis good_def)
  then obtain k where k: "k \<le> sys_invalidations s" "g = of_nat k" "k = sys_invalidations s \<longrightarrow> backed read_bytes (sys_since s) q r"
    by (auto simp: handler_ok_def)
  have "of_nat k = (of_nat (sys_invalidations s) :: u64)" using dc.put_current [OF assms(3)] k(2) assms(1) by (simp add: good_def)
  from current_generation [OF this k(1) assms(4)] k(3) show ?thesis by blast
qed

lemma good_step:
  assumes "step read_bytes s s'" and "sys_invalidations s' < 2 ^ 64" and "good read_bytes s"
  shows "good read_bytes s'"
  using assms
proof cases
  case (ask t q' r e q)
  then show ?thesis using assms(3) by (auto simp: handler_ok_def intro: good_set_handler)
next
  case (answer t q r)
  then show ?thesis using assms(3) by (auto simp: handler_ok_def intro: good_set_handler)
next
  case (load t q g)
  then have "g = of_nat (sys_invalidations s)" using dc.look_load assms(3) by (auto simp: good_def)
  then show ?thesis using load assms(3) by (auto simp: handler_ok_def intro!: good_set_handler exI [of _ "sys_invalidations s"])
next
  case (absent t q g p path ps)
  have now: "seen read_bytes (sys_since s) path None" using absent(3) assms(3) by (auto simp: good_def seen_def)
  have "handler_ok read_bytes (sys_since s) (sys_invalidations s) (Loading q g ((p, path) # ps))" using absent(2) assms(3) by (metis good_def)
  then obtain k where k: "k \<le> sys_invalidations s" "g = of_nat k" "k = sys_invalidations s \<longrightarrow>
      (\<exists>before. question_paths q = before @ (p, path) # ps \<and> (\<forall>x \<in> set before. seen read_bytes (sys_since s) (snd x) None))"
    by (auto simp: handler_ok_def)
  have "\<exists>before. question_paths q = before @ ps \<and> (\<forall>x \<in> set before. seen read_bytes (sys_since s) (snd x) None)"
    if "k = sys_invalidations s"
  proof -
    from k(3) that obtain before where "question_paths q = before @ (p, path) # ps" "\<forall>x \<in> set before. seen read_bytes (sys_since s) (snd x) None" by blast
    with now show ?thesis by (intro exI [of _ "before @ [(p, path)]"]) simp
  qed
  with k(1,2) show ?thesis unfolding absent(1) by (intro good_set_handler assms(3)) (auto simp: handler_ok_def)
next
  case (present t q g p path ps d)
  have now: "seen read_bytes (sys_since s) path (Some d)" using present(3) assms(3) by (auto simp: good_def seen_def)
  have "handler_ok read_bytes (sys_since s) (sys_invalidations s) (Loading q g ((p, path) # ps))" using present(2) assms(3) by (metis good_def)
  with now have "handler_ok read_bytes (sys_since s) (sys_invalidations s) (Loaded q g (Some (p, d)))" by (fastforce simp: handler_ok_def backed_def)
  then show ?thesis unfolding present(1) by (rule good_set_handler [OF assms(3)])
next
  case (fail t q g p path ps e)
  then show ?thesis using assms(3) by (auto simp: handler_ok_def intro: good_set_handler)
next
  case (none_left t q g)
  have "handler_ok read_bytes (sys_since s) (sys_invalidations s) (Loading q g [])" using none_left(2) assms(3) by (metis good_def)
  then have "handler_ok read_bytes (sys_since s) (sys_invalidations s) (Loaded q g None)" by (auto simp: handler_ok_def backed_def)
  then show ?thesis unfolding none_left(1) by (rule good_set_handler [OF assms(3)])
next
  case (keep t q g r c)
  have "backed read_bytes (sys_since s) q r" using kept_backed [OF assms(3) keep(2,3)] assms(2) keep(1) by (simp add: set_handler_def)
  with keep(3) assms(3) have "good read_bytes (s\<lparr>sys_cache := c\<rparr>)"
    using dc.answers_put [of _ "sys_cache s" q g r c] dc.put_keeps [OF keep(3)] backed_named by (fastforce simp: good_def)
  then show ?thesis unfolding keep(1) by (rule good_set_handler) (simp add: handler_ok_def)
next
  case (retry t q g r)
  then show ?thesis using assms(3) by (auto simp: handler_ok_def intro: good_set_handler)
next
  case (change reg)
  with assms(3) show ?thesis
    by (auto simp: good_def intro: handler_ok_change elim!: dc.answers_mono backed_mono)
next
  case invalidate
  with assms(3) show ?thesis by (auto simp: good_def dc.answers_invalidate intro: handler_ok_later) (simp add: invalidate_def)
next
  case fail_watch
  with assms(3) show ?thesis by (auto simp: good_def dc.answers_fail intro: handler_ok_later) (simp add: fail_watch_def)
qed

lemma invalidations_mono: "step read_bytes s s' \<Longrightarrow> sys_invalidations s \<le> sys_invalidations s'"
  by (induction rule: step.induct) (simp_all add: set_handler_def)

lemma good_reachable:
  assumes "(step read_bytes)\<^sup>*\<^sup>* (start reg) s"
  shows "sys_invalidations s < 2 ^ 64 \<Longrightarrow> good read_bytes s"
  using assms
proof (induction rule: rtranclp_induct)
  case base
  show ?case by (rule good_start)
next
  case (step s s')
  have "sys_invalidations s < 2 ^ 64" using invalidations_mono [OF step.hyps(2)] step.prems by simp
  from good_step [OF step.hyps(2) step.prems step.IH [OF this]] show ?case .
qed

definition fails_closed :: "'d descriptor_cache \<Rightarrow> bool" where
  "fails_closed c \<longleftrightarrow> dc_healthy c \<or> (\<forall>q. lookup c q = Answer None)"

lemma fails_closed_reachable:
  assumes "(step read_bytes)\<^sup>*\<^sup>* (start reg) s"
  shows "fails_closed (sys_cache s)"
  using assms
proof (induction rule: rtranclp_induct)
  case base
  then show ?case by (simp add: fails_closed_def start_def descriptor_cache_new_def)
next
  case (step s s')
  from step(2,3) show ?case
  proof cases
    case (keep t q g r c)
    then have "dc_healthy c" using dc.put_healthy [OF keep(3)] dc.put_keeps [OF keep(3)] by blast
    with keep show ?thesis by (simp add: fails_closed_def set_handler_def)
  next
    case invalidate
    then show ?thesis by (simp add: fails_closed_def invalidate_def)
  next
    case fail_watch
    then show ?thesis by (simp add: fails_closed_def dc.look_fail)
  qed (simp_all add: set_handler_def)
qed

text \<open>With one registry, a resolution that is backed is the one the walk over the patterns finds.\<close>

lemma first_descriptor_None: "\<forall>p \<in> set patterns. load p = Ok None \<Longrightarrow> first_descriptor load patterns = Ok None"
  by (induction patterns) auto

lemma backed_once:
  assumes "backed read_bytes [reg] (Identifier n i) r"
  shows "resolve (load_descriptor read_bytes reg) n i = Ok r"
proof (cases r)
  case None
  with assms show ?thesis by (auto simp: backed_def seen_def question_paths_def resolve_def intro!: first_descriptor_None)
next
  case (Some x)
  obtain p d where x: "x = (p, d)" by (cases x)
  with assms Some obtain before path after where b: "map (\<lambda>p. (p, descriptor_path n p)) (candidates i) = before @ (p, path) # after"
    "\<forall>x \<in> set before. load_descriptor read_bytes reg (snd x) = Ok None" "load_descriptor read_bytes reg path = Ok (Some d)"
    by (auto simp: backed_def seen_def question_paths_def)
  from b(1) obtain us vs where "candidates i = us @ p # vs" "before = map (\<lambda>p. (p, descriptor_path n p)) us" "path = descriptor_path n p"
    by (auto simp: map_eq_append_conv Cons_eq_map_conv)
  with b(2,3) show ?thesis unfolding resolve_def Some x first_descriptor_Some by auto
qed

section \<open>Properties\<close>

text \<open>
  C40. Whatever the interleaving of handlers, watcher and registry, a descriptor that is returned was read from
  the registry after the last invalidation, and so was the absence of every more specific one; a descriptor
  that a reported change replaced is not served. If the registry has not changed since, the answer is the one
  the walk over the patterns finds in it. While the watch has failed every question is answered with no
  descriptor, which denies. This holds for fewer than 2 to the 64 invalidations, after which the generation repeats.
\<close>

theorem descriptors_current:
  assumes "(step read_bytes)\<^sup>*\<^sup>* (start reg) s" and "step read_bytes s s'" and "sys_invalidations s' < 2 ^ 64"
    and "sys_handler s t = Asking q \<or> (\<exists>g r. sys_handler s t = Loaded q g r)" and "sys_handler s' t = Returned q r"
  shows "(if dc_healthy (sys_cache s) then backed read_bytes (sys_since s) q r else r = None) \<and>
    (dc_healthy (sys_cache s) \<and> sys_since s = [now] \<and> q = Identifier n i \<longrightarrow> resolve (load_descriptor read_bytes now) n i = Ok r)"
proof -
  have n: "sys_invalidations s < 2 ^ 64" using invalidations_mono [OF assms(2)] assms(3) by simp
  have good: "good read_bytes s" by (rule good_reachable [OF assms(1) n])
  have closed: "fails_closed (sys_cache s)" by (rule fails_closed_reachable [OF assms(1)])
  have "(dc_healthy (sys_cache s) \<longrightarrow> backed read_bytes (sys_since s) q r) \<and> (\<not> dc_healthy (sys_cache s) \<longrightarrow> r = None)"
    using assms(2)
  proof cases
    case (answer t' q' r')
    with assms(4,5) have "lookup (sys_cache s) q = Answer r" by (cases "t = t'") (auto simp: set_handler_def)
    with good closed show ?thesis by (auto simp: good_def fails_closed_def dest: dc.answersD)
  next
    case (keep t' q' g r' c)
    with assms(4,5) have "t' = t" "q' = q" "r' = r" by (cases "t = t'"; auto simp: set_handler_def)+
    with keep kept_backed [OF good _ _ n] dc.put_healthy [OF keep(3)] show ?thesis by blast
  qed (use assms(4,5) in \<open>auto simp: set_handler_def split: if_splits\<close>)
  with backed_once [of read_bytes now n i r] show ?thesis by auto
qed

text \<open>A handler that asks for an identifier whose service has no descriptor and finds the wildcard's.\<close>

definition sample_registry :: "unit registry" where
  "sample_registry path = Ok (if path = descriptor_path NsLogs ''*'' then Some (True, [1]) else None)"

lemma wildcard_run:
  "\<exists>s. (step (\<lambda>bs. Ok bs))\<^sup>*\<^sup>* (start sample_registry) s \<and> sys_handler s 0 = Loaded (Identifier NsLogs ''a'') 0 (Some (''*'', [1])) \<and>
     sys_cache s = descriptor_cache_new \<and> sys_since s = [sample_registry] \<and> sys_invalidations s = 0"
proof -
  let ?q = "Identifier NsLogs ''a''" and ?step = "step (\<lambda>bs. Ok bs :: unit + u8 list)"
  let ?path = "\<lambda>p. (p, descriptor_path NsLogs p)"
  define s0 where "s0 = (start sample_registry :: (unit, u8 list) system)"
  define s1 where "s1 = set_handler 0 (Asking ?q) s0"
  define s2 where "s2 = set_handler 0 (Loading ?q 0 [?path ''a'', ?path ''*'']) s1"
  define s3 where "s3 = set_handler 0 (Loading ?q 0 [?path ''*'']) s2"
  define s4 where "s4 = set_handler 0 (Loaded ?q 0 (Some (''*'', [1]))) s3"
  note defs = s0_def s1_def s2_def s3_def s4_def set_handler_def start_def
  have q: "question_paths ?q = [?path ''a'', ?path ''*'']"
    by (simp add: question_paths_def candidates_prefixes service_of_def field_prefixes_plain)
  have "?step s0 s1" unfolding s1_def by (rule ask [of s0 0 ?q None "SecPeios ()"]) (simp add: defs)
  moreover have "?step s1 s2" unfolding s2_def q [symmetric] by (rule load) (simp_all add: defs dc.look_new)
  moreover have "?step s2 s3" unfolding s3_def
    by (rule absent [of s2 0 ?q 0 "''a''" "descriptor_path NsLogs ''a''"])
      (simp_all add: defs load_descriptor_def sample_registry_def map_err_def descriptor_path_def)
  moreover have "?step s3 s4" unfolding s4_def
    by (rule present [of s3 0 ?q 0 "''*''" "descriptor_path NsLogs ''*''" "[]"])
      (simp_all add: defs load_descriptor_def sample_registry_def map_err_def)
  ultimately have "?step\<^sup>*\<^sup>* s0 s4" by (meson rtranclp.rtrancl_into_rtrancl rtranclp.rtrancl_refl)
  then show ?thesis unfolding s0_def by (intro exI [of _ s4]) (simp add: defs)
qed

theorem descriptors_current_witness:
  "\<exists>s s'. (step (\<lambda>bs. Ok bs))\<^sup>*\<^sup>* (start sample_registry) s \<and> step (\<lambda>bs. Ok bs) s s' \<and>
     sys_handler s' 0 = Returned (Identifier NsLogs ''a'') (Some (''*'', [1])) \<and>
     resolve (load_descriptor (\<lambda>bs. Ok bs) sample_registry) NsLogs ''a'' = Ok (Some (''*'', [1]))"
proof -
  let ?q = "Identifier NsLogs ''a''" and ?r = "Some (''*'', [1 :: u8])"
  from wildcard_run obtain s where s: "(step (\<lambda>bs. Ok bs))\<^sup>*\<^sup>* (start sample_registry) s" "sys_handler s 0 = Loaded ?q 0 ?r"
    "sys_cache s = descriptor_cache_new" "sys_since s = [sample_registry]" "sys_invalidations s = 0" by blast
  then obtain c where c: "store (sys_cache s) ?q 0 ?r = Some c" by (simp add: store_defs descriptor_cache_new_def)
  let ?s = "set_handler 0 (Returned ?q ?r) (s\<lparr>sys_cache := c\<rparr>)"
  have st: "step (\<lambda>bs. Ok bs) s ?s" by (rule keep [OF s(2) c])
  have h: "sys_handler ?s 0 = Returned ?q ?r" "sys_invalidations ?s < 2 ^ 64" using s(5) by (simp_all add: set_handler_def)
  have "dc_healthy (sys_cache s)" using s(3) by (simp add: descriptor_cache_new_def)
  with descriptors_current [OF s(1) st h(2) _ h(1)] s(2,4)
  have "resolve (load_descriptor (\<lambda>bs. Ok bs) sample_registry) NsLogs ''a'' = Ok ?r" by blast
  with s(1) st h(1) show ?thesis by blast
qed

end
