(* ===== verification/Shard_Commit.thy ===== *)
theory Shard_Commit
  imports Reconcile Sha1 "HOL-Library.List_Lexorder" "HOL-Library.Product_Lexorder"
begin

text \<open>
  The writer's side of an event shard (\<^verbatim>\<open>eventd-core/src/shard.rs\<close>): the transaction that stores a batch of
  handoff items with its gap records and receipt ranges, the one that describes losses alone, and the one for
  a record of the daemon's own. SQLite is an argument: it runs one statement at a time, and what the code
  relies on is that a statement that succeeds has its documented effect on the tables. The tables are
  those of the schema; a transaction that is dropped before its commit leaves them as they were. The order in
  which a hash map is iterated and the order of equal keys after an unstable sort are arguments too.
\<close>

section \<open>Tables and statements\<close>

record stored_event =
  se_boot_id :: guid
  se_timestamp :: u64
  se_cpu_id :: "u16 option"
  se_sequence :: "u64 option"
  se_origin_class :: "u8 option"
  se_event_type :: string
  se_effective_token_guid :: "guid option"
  se_true_token_guid :: "guid option"
  se_process_guid :: "guid option"
  se_payload :: "u8 list"

record tables =
  tb_events :: "stored_event list"
  tb_event_types :: "string set"
  tb_receipt_ranges :: "(guid \<times> u16 \<times> interval) set"

datatype statement =
  BeginImmediate
  | Prepare string
  | InsertEvent stored_event
  | InsertType string
  | InsertReceipt guid u16 interval
  | Commit

definition effect :: "statement \<Rightarrow> tables \<Rightarrow> tables" where
  "effect s t =
     (case s of
        InsertEvent e \<Rightarrow> t\<lparr>tb_events := tb_events t @ [e]\<rparr>
      | InsertType ty \<Rightarrow> t\<lparr>tb_event_types := insert ty (tb_event_types t)\<rparr>
      | InsertReceipt boot cpu iv \<Rightarrow> t\<lparr>tb_receipt_ranges := insert (boot, cpu, iv) (tb_receipt_ranges t)\<rparr>
      | _ \<Rightarrow> t)"

type_synonym 'e sql = "statement \<Rightarrow> tables \<Rightarrow> 'e + tables"

definition sql_documented :: "'e sql \<Rightarrow> bool" where
  "sql_documented sql \<longleftrightarrow> (\<forall>s t t'. sql s t = Ok t' \<longrightarrow> t' = effect s t)"

datatype 'e shard_error =
  ShardSql 'e
  | ShardIo
  | ShardInvalidSchema string
  | UnknownVersion string
  | UnrecognisedContents
  | IntegerRange string
  | InvalidSyntheticType

definition execute :: "'e sql \<Rightarrow> statement \<Rightarrow> tables \<Rightarrow> 'e shard_error + tables" where
  "execute sql s t = map_err ShardSql (sql s t)"

text \<open>An unsigned value that a signed column can hold is stored as it is.\<close>

definition sqlite_integer :: "u64 \<Rightarrow> string \<Rightarrow> 'e shard_error + u64" where
  "sqlite_integer v field = (if unat v < 2 ^ 63 then Ok v else Err (IntegerRange field))"

section \<open>The record of a gap\<close>

definition pack_str :: "u8 list \<Rightarrow> string \<Rightarrow> panic + u8 list" where
  "pack_str output v =
     (if length v \<le> 31 then Ok (output @ (0xa0 OR of_nat (length v)) # map byte_of v)
      else if length v < 256 then Ok (output @ 0xd9 # of_nat (length v) # map byte_of v)
      else Err Panic)"

definition pack_u64 :: "u8 list \<Rightarrow> u64 \<Rightarrow> u8 list" where
  "pack_u64 output v =
     (if v \<le> 0x7f then output @ [ucast v]
      else if v \<le> 0xff then output @ [0xcc, ucast v]
      else if v \<le> 0xffff then output @ 0xcd # to_be_bytes 2 (unat v)
      else if v \<le> 0xffffffff then output @ 0xce # to_be_bytes 4 (unat v)
      else output @ 0xcf # to_be_bytes 8 (unat v))"

definition pack_field :: "string \<Rightarrow> u64 \<Rightarrow> u8 list \<Rightarrow> panic + u8 list" where
  "pack_field key v output = rbind (pack_str output key) (\<lambda>output. Ok (pack_u64 output v))"

definition encode_gap_payload :: "u16 \<Rightarrow> gap \<Rightarrow> panic + u8 list" where
  "encode_gap_payload cpu_id g =
     rbind (pack_str [0x82] ''buffer'') (\<lambda>output.
     rbind (pack_field ''cpu'' (ucast cpu_id) (output @ [0x81])) (\<lambda>output.
     rbind (pack_str output ''loss'') (\<lambda>output.
     rbind (pack_field ''sequence'' (first_sequence g)
       (output @ [if gap_preceding_timestamp g \<noteq> None then 0x84 else 0x83])) (\<lambda>output.
     rbind (pack_field ''sequence-last'' (last_sequence g) output) (\<lambda>output.
     rbind (pack_field ''count'' (gap_count g) output) (\<lambda>output.
       case gap_preceding_timestamp g of
         Some timestamp \<Rightarrow> pack_field ''preceding-time'' timestamp output
       | None \<Rightarrow> Ok output))))))"

section \<open>Merging receipts in place\<close>

definition compact_step :: "interval list \<times> nat \<Rightarrow> nat \<Rightarrow> interval list \<times> nat" where
  "compact_step = (\<lambda>(intervals, len) input.
     let interval = intervals ! input in
     if 0 < len \<and> iv_first interval \<le> saturating_succ (iv_last (intervals ! (len - 1)))
     then (intervals[len - 1 := (intervals ! (len - 1))\<lparr>iv_last := max (iv_last (intervals ! (len - 1))) (iv_last interval)\<rparr>], len)
     else (intervals[len := interval], len + 1))"

definition shard_merge_intervals :: "(interval list \<Rightarrow> interval list) \<Rightarrow> interval list \<Rightarrow> interval list" where
  "shard_merge_intervals sort_by_first ivs =
     (let ivs = sort_by_first ivs; (merged, len) = foldl compact_step (ivs, 0) [0..<length ivs] in take len merged)"

section \<open>Committing a batch\<close>

record shard =
  sh_tables :: tables
  sh_known_types :: "string set"

record commit_stats =
  cs_items :: nat
  cs_event_rows :: nat
  cs_receipt_rows :: nat

type_synonym ('e, 'a) committing = "'e shard_error abort + 'a"

fun try_fold :: "('a \<Rightarrow> 's \<Rightarrow> 'e + 's) \<Rightarrow> 'a list \<Rightarrow> 's \<Rightarrow> 'e + 's" where
  "try_fold f [] s = Ok s"
| "try_fold f (x # xs) s = rbind (f x s) (try_fold f xs)"

definition run_sql :: "'e sql \<Rightarrow> statement \<Rightarrow> tables \<Rightarrow> ('e, tables) committing" where
  "run_sql sql s t = map_err Raised (execute sql s t)"

definition checked_integer :: "u64 \<Rightarrow> string \<Rightarrow> ('e, u64) committing" where
  "checked_integer v field = map_err Raised (sqlite_integer v field)"

definition intern_type :: "'e sql \<Rightarrow> string set \<Rightarrow> string \<Rightarrow> string set \<times> tables \<Rightarrow> ('e, string set \<times> tables) committing" where
  "intern_type sql known ty = (\<lambda>(pending, t).
     if ty \<notin> known \<and> ty \<notin> pending then rbind (run_sql sql (InsertType ty) t) (\<lambda>t. Ok (insert ty pending, t))
     else Ok (pending, t))"

definition gap_row :: "guid \<Rightarrow> u16 \<Rightarrow> gap \<Rightarrow> ('e, stored_event) committing" where
  "gap_row boot_id cpu_id g =
     rbind (map_err (\<lambda>_. Panicked) (encode_gap_payload cpu_id g)) (\<lambda>payload.
     rbind (checked_integer (revealing_timestamp g) ''gap timestamp'') (\<lambda>timestamp.
       Ok \<lparr>se_boot_id = boot_id, se_timestamp = timestamp, se_cpu_id = Some cpu_id, se_sequence = None, se_origin_class = None,
         se_event_type = EVENTS_LOST, se_effective_token_guid = None, se_true_token_guid = None, se_process_guid = None,
         se_payload = payload\<rparr>))"

definition event_row_of :: "real_event \<Rightarrow> ('e, stored_event) committing" where
  "event_row_of e =
     rbind (checked_integer (re_timestamp e) ''event timestamp'') (\<lambda>timestamp.
     rbind (checked_integer (re_sequence e) ''event sequence'') (\<lambda>sequence.
       Ok \<lparr>se_boot_id = re_boot_id e, se_timestamp = timestamp, se_cpu_id = Some (re_cpu_id e), se_sequence = Some sequence,
         se_origin_class = Some (re_origin_class e), se_event_type = re_event_type e,
         se_effective_token_guid = Some (re_effective_token_guid e), se_true_token_guid = Some (re_true_token_guid e),
         se_process_guid = Some (re_process_guid e), se_payload = re_payload e\<rparr>))"

definition insert_row :: "'e sql \<Rightarrow> string set \<Rightarrow> string \<Rightarrow> ('e, stored_event) committing \<Rightarrow> string set \<times> tables \<Rightarrow> ('e, string set \<times> tables) committing" where
  "insert_row sql known ty mk_row st =
     rbind (intern_type sql known ty st) (\<lambda>(pending, t).
     rbind mk_row (\<lambda>row. rbind (run_sql sql (InsertEvent row) t) (\<lambda>t. Ok (pending, t))))"

type_synonym stream_map = "guid \<times> u16 \<rightharpoonup> interval list"

definition item_intervals :: "ingest_item \<Rightarrow> interval list" where
  "item_intervals item =
     map (\<lambda>g. \<lparr>iv_first = first_sequence g, iv_last = last_sequence g\<rparr>) (item_gaps item) @
     (if item_store_event item
      then [\<lparr>iv_first = re_sequence (item_event item), iv_last = re_sequence (item_event item)\<rparr>] else [])"

definition commit_item :: "'e sql \<Rightarrow> string set \<Rightarrow> ingest_item \<Rightarrow> (string set \<times> tables) \<times> stream_map \<Rightarrow>
    ('e, (string set \<times> tables) \<times> stream_map) committing" where
  "commit_item sql known item = (\<lambda>(st, receipts).
     let event = item_event item; key = (re_boot_id event, re_cpu_id event) in
     rbind (try_fold (\<lambda>g. insert_row sql known EVENTS_LOST (gap_row (re_boot_id event) (re_cpu_id event) g)) (item_gaps item) st) (\<lambda>st.
     rbind (if item_store_event item then insert_row sql known (re_event_type event) (event_row_of event) st else Ok st) (\<lambda>st.
       Ok (st, receipts(key \<mapsto> (case receipts key of None \<Rightarrow> [] | Some ivs \<Rightarrow> ivs) @ item_intervals item)))))"

definition insert_receipt_range :: "'e sql \<Rightarrow> guid \<Rightarrow> u16 \<Rightarrow> interval \<Rightarrow> tables \<Rightarrow> ('e, tables) committing" where
  "insert_receipt_range sql boot_id cpu_id iv t =
     rbind (checked_integer (iv_first iv) ''receipt first sequence'') (\<lambda>first.
     rbind (checked_integer (iv_last iv) ''receipt last sequence'') (\<lambda>last.
       run_sql sql (InsertReceipt boot_id cpu_id \<lparr>iv_first = first, iv_last = last\<rparr>) t))"

definition insert_stream :: "'e sql \<Rightarrow> (interval list \<Rightarrow> interval list) \<Rightarrow> stream_map \<Rightarrow> guid \<times> u16 \<Rightarrow> tables \<Rightarrow> ('e, tables) committing" where
  "insert_stream sql sort_by_first receipts = (\<lambda>(boot_id, cpu_id).
     try_fold (insert_receipt_range sql boot_id cpu_id) (shard_merge_intervals sort_by_first (the (receipts (boot_id, cpu_id)))))"

definition event_rows_of :: "ingest_item list \<Rightarrow> nat" where
  "event_rows_of items = length (filter item_store_event items) + sum_list (map (\<lambda>item. length (item_gaps item)) items)"

definition receipt_rows_of :: "(interval list \<Rightarrow> interval list) \<Rightarrow> (stream_map \<Rightarrow> (guid \<times> u16) list) \<Rightarrow> stream_map \<Rightarrow> nat" where
  "receipt_rows_of sort_by_first iterate receipts =
     sum_list (map (\<lambda>key. length (shard_merge_intervals sort_by_first (the (receipts key)))) (iterate receipts))"

text \<open>The transaction of a batch; the checkpoint that follows it is an argument, as it inspects a file.\<close>

definition commit_transaction :: "'e sql \<Rightarrow> (interval list \<Rightarrow> interval list) \<Rightarrow> (stream_map \<Rightarrow> (guid \<times> u16) list) \<Rightarrow> shard \<Rightarrow>
    ingest_item list \<Rightarrow> ('e, (string set \<times> tables) \<times> stream_map) committing" where
  "commit_transaction sql sort_by_first iterate shard items =
     rbind (run_sql sql BeginImmediate (sh_tables shard)) (\<lambda>t.
     rbind (run_sql sql (Prepare ''insert event'') t) (\<lambda>t.
     rbind (run_sql sql (Prepare ''insert gap'') t) (\<lambda>t.
     rbind (run_sql sql (Prepare ''insert type'') t) (\<lambda>t.
     rbind (try_fold (commit_item sql (sh_known_types shard)) items (({}, t), Map.empty)) (\<lambda>((pending, t), receipts).
     rbind (run_sql sql (Prepare ''insert receipt'') t) (\<lambda>t.
     rbind (try_fold (insert_stream sql sort_by_first receipts) (iterate receipts) t) (\<lambda>t.
     rbind (run_sql sql Commit t) (\<lambda>t. Ok ((pending, t), receipts)))))))))"

definition after_commit :: "'e shard_error + unit \<Rightarrow> ('e shard_error \<Rightarrow> bool) \<Rightarrow> commit_stats \<Rightarrow> ('e, commit_stats) committing" where
  "after_commit checkpoint is_capacity stats =
     (case checkpoint of Err e \<Rightarrow> if is_capacity e then Ok stats else Err (Raised e) | Ok _ \<Rightarrow> Ok stats)"

definition shard_commit :: "'e sql \<Rightarrow> (interval list \<Rightarrow> interval list) \<Rightarrow> (stream_map \<Rightarrow> (guid \<times> u16) list) \<Rightarrow>
    'e shard_error + unit \<Rightarrow> ('e shard_error \<Rightarrow> bool) \<Rightarrow> shard \<Rightarrow> ingest_item list \<Rightarrow> ('e, commit_stats) committing \<times> shard" where
  "shard_commit sql sort_by_first iterate checkpoint is_capacity shard items =
     (if items = [] then (Ok \<lparr>cs_items = 0, cs_event_rows = 0, cs_receipt_rows = 0\<rparr>, shard)
      else
        case commit_transaction sql sort_by_first iterate shard items of
          Err e \<Rightarrow> (Err e, shard)
        | Ok ((pending, t), receipts) \<Rightarrow>
            (after_commit checkpoint is_capacity
               \<lparr>cs_items = length items, cs_event_rows = event_rows_of items,
                cs_receipt_rows = receipt_rows_of sort_by_first iterate receipts\<rparr>,
             \<lparr>sh_tables = t, sh_known_types = sh_known_types shard \<union> pending\<rparr>))"

definition commit_gap :: "'e sql \<Rightarrow> guid \<Rightarrow> u16 \<times> gap \<Rightarrow> tables \<times> stream_map \<Rightarrow> ('e, tables \<times> stream_map) committing" where
  "commit_gap sql boot_id = (\<lambda>(cpu_id, g) (t, receipts).
     rbind (gap_row boot_id cpu_id g) (\<lambda>row.
     rbind (run_sql sql (InsertEvent row) t) (\<lambda>t.
       Ok (t, receipts((boot_id, cpu_id) \<mapsto> (case receipts (boot_id, cpu_id) of None \<Rightarrow> [] | Some ivs \<Rightarrow> ivs) @
         [\<lparr>iv_first = first_sequence g, iv_last = last_sequence g\<rparr>])))))"

definition gaps_transaction :: "'e sql \<Rightarrow> (interval list \<Rightarrow> interval list) \<Rightarrow> (stream_map \<Rightarrow> (guid \<times> u16) list) \<Rightarrow> shard \<Rightarrow> guid \<Rightarrow>
    (u16 \<times> gap) list \<Rightarrow> ('e, tables \<times> stream_map) committing" where
  "gaps_transaction sql sort_by_first iterate shard boot_id gaps =
     rbind (run_sql sql BeginImmediate (sh_tables shard)) (\<lambda>t.
     rbind (if EVENTS_LOST \<notin> sh_known_types shard then run_sql sql (InsertType EVENTS_LOST) t else Ok t) (\<lambda>t.
     rbind (run_sql sql (Prepare ''insert gap'') t) (\<lambda>t.
     rbind (try_fold (commit_gap sql boot_id) gaps (t, Map.empty)) (\<lambda>(t, receipts).
     rbind (run_sql sql (Prepare ''insert receipt'') t) (\<lambda>t.
     rbind (try_fold (insert_stream sql sort_by_first receipts) (iterate receipts) t) (\<lambda>t.
     rbind (run_sql sql Commit t) (\<lambda>t. Ok (t, receipts))))))))"

definition commit_gaps :: "'e sql \<Rightarrow> (interval list \<Rightarrow> interval list) \<Rightarrow> (stream_map \<Rightarrow> (guid \<times> u16) list) \<Rightarrow>
    'e shard_error + unit \<Rightarrow> ('e shard_error \<Rightarrow> bool) \<Rightarrow> shard \<Rightarrow> guid \<Rightarrow> (u16 \<times> gap) list \<Rightarrow> ('e, commit_stats) committing \<times> shard" where
  "commit_gaps sql sort_by_first iterate checkpoint is_capacity shard boot_id gaps =
     (if gaps = [] then (Ok \<lparr>cs_items = 0, cs_event_rows = 0, cs_receipt_rows = 0\<rparr>, shard)
      else
        case gaps_transaction sql sort_by_first iterate shard boot_id gaps of
          Err e \<Rightarrow> (Err e, shard)
        | Ok (t, receipts) \<Rightarrow>
            (after_commit checkpoint is_capacity
               \<lparr>cs_items = length gaps, cs_event_rows = length gaps, cs_receipt_rows = receipt_rows_of sort_by_first iterate receipts\<rparr>,
             \<lparr>sh_tables = t, sh_known_types = insert EVENTS_LOST (sh_known_types shard)\<rparr>))"

definition commit_synthetic :: "'e sql \<Rightarrow> 'e shard_error + unit \<Rightarrow> shard \<Rightarrow> synthetic_event \<Rightarrow> ('e, unit) committing \<times> shard" where
  "commit_synthetic sql checkpoint shard event =
     (if \<not> is_store_written (syn_event_type event) then (Err (Raised InvalidSyntheticType), shard)
      else
        case rbind (run_sql sql BeginImmediate (sh_tables shard)) (\<lambda>t.
             rbind (if syn_event_type event \<notin> sh_known_types shard then run_sql sql (InsertType (syn_event_type event)) t else Ok t) (\<lambda>t.
             rbind (checked_integer (syn_timestamp event) ''synthetic timestamp'') (\<lambda>timestamp.
             rbind (run_sql sql (InsertEvent
                 \<lparr>se_boot_id = syn_boot_id event, se_timestamp = timestamp, se_cpu_id = None, se_sequence = None, se_origin_class = None,
                  se_event_type = syn_event_type event, se_effective_token_guid = None, se_true_token_guid = None,
                  se_process_guid = None, se_payload = syn_payload event\<rparr>) t) (\<lambda>t.
             run_sql sql Commit t)))) of
          Err e \<Rightarrow> (Err e, shard)
        | Ok t \<Rightarrow>
            (map_err Raised checkpoint,
             \<lparr>sh_tables = t, sh_known_types = insert (syn_event_type event) (sh_known_types shard)\<rparr>))"

section \<open>Merging in place is merging\<close>

lemma compact_loop:
  "k \<le> length ivs \<Longrightarrow> foldl compact_step (ivs, 0) [0..<k] = (a, len) \<Longrightarrow>
   length a = length ivs \<and> len \<le> k \<and> take len a = foldl merge_interval [] (take k ivs) \<and> drop k a = drop k ivs"
proof (induction k arbitrary: a len)
  case (Suc k)
  obtain b m where b: "foldl compact_step (ivs, 0) [0..<k] = (b, m)" by (meson surj_pair)
  with Suc have I: "length b = length ivs" "m \<le> k" "take m b = foldl merge_interval [] (take k ivs)" "drop k b = drop k ivs" by auto
  let ?iv = "ivs ! k"
  have k: "k < length ivs" using Suc.prems(1) by simp
  have iv: "b ! k = ?iv" using I(1,4) k by (metis Cons_nth_drop_Suc list.inject)
  have rest: "drop (Suc k) b = drop (Suc k) ivs" using I(4) by (metis drop_Suc tl_drop)
  have fold: "foldl merge_interval [] (take (Suc k) ivs) = merge_interval (take m b) ?iv"
    using I(3) k by (simp add: take_Suc_conv_app_nth)
  have step: "compact_step (b, m) k = (a, len)" using Suc.prems(2) b by simp
  show ?case
  proof (cases "0 < m \<and> iv_first ?iv \<le> saturating_succ (iv_last (b ! (m - 1)))")
    case True
    then have ne: "take m b \<noteq> []" and m: "m \<le> length b" using I(1,2) k by auto
    have last: "last (take m b) = b ! (m - 1)" "butlast (take m b) = take (m - 1) b"
      using True m by (simp_all add: last_conv_nth [OF ne] butlast_take min_def)
    let ?new = "(b ! (m - 1))\<lparr>iv_last := max (iv_last (b ! (m - 1))) (iv_last ?iv)\<rparr>"
    have a: "a = b[m - 1 := ?new]" "len = m" using step True iv by (auto simp: compact_step_def Let_def)
    have "take m (b[m - 1 := ?new]) = take (m - 1) b @ [?new]"
      using True I(1,2) k by (cases m) (auto simp: take_Suc_conv_app_nth)
    moreover have "merge_interval (take m b) ?iv = take (m - 1) b @ [?new]" using True ne last by (simp add: merge_interval_def)
    moreover have "drop (Suc k) (b[m - 1 := ?new]) = drop (Suc k) b" using I(2) True by (intro drop_update_cancel) linarith
    ultimately show ?thesis unfolding a fold using rest I(1,2) by simp
  next
    case False
    then have a: "a = b[m := ?iv]" "len = m + 1" using step iv by (auto simp: compact_step_def Let_def)
    have m: "m < length b" using I(1,2) k by simp
    have nm: "\<not> (take m b \<noteq> [] \<and> iv_first ?iv \<le> saturating_succ (iv_last (last (take m b))))"
      using False m by (auto simp: last_conv_nth)
    have "take (m + 1) (b[m := ?iv]) = take m b @ [?iv]" using m by (simp add: take_Suc_conv_app_nth)
    moreover have "merge_interval (take m b) ?iv = take m b @ [?iv]" unfolding merge_interval_def by (rule if_not_P [OF nm])
    moreover have "drop (Suc k) (b[m := ?iv]) = drop (Suc k) b" using I(2) by (intro drop_update_cancel) linarith
    ultimately show ?thesis unfolding a fold using rest I(1,2) by simp
  qed
qed simp

text \<open>The shard compacts its array in place and computes what the coverage computes with a second list.\<close>

lemma shard_merge_eq: "shard_merge_intervals sort_by_first ivs = merge_intervals (sort_by_first ivs)"
proof -
  let ?s = "sort_by_first ivs"
  obtain a len where "foldl compact_step (?s, 0) [0..<length ?s] = (a, len)" by (meson surj_pair)
  with compact_loop [OF order_refl this] show ?thesis by (simp add: shard_merge_intervals_def merge_intervals_def)
qed

section \<open>The rows and receipts of a batch\<close>

lemma run_sql_effect: "sql_documented sql \<Longrightarrow> run_sql sql s t = Ok t' \<Longrightarrow> t' = effect s t"
  by (auto simp: run_sql_def execute_def sql_documented_def map_err_Ok_iff)

lemma checked_integer_Ok: "checked_integer v field = Ok w \<Longrightarrow> w = v \<and> unat v < 2 ^ 63"
  by (auto simp: checked_integer_def sqlite_integer_def map_err_Ok_iff split: if_splits)

lemma try_fold_list:
  assumes "\<And>x s s'. x \<in> set xs \<Longrightarrow> f x s = Ok s' \<Longrightarrow> g s' = g s @ r x" and "try_fold f xs s = Ok s'"
  shows "g s' = g s @ concat (map r xs)"
  using assms
proof (induction xs arbitrary: s)
  case (Cons x xs)
  then obtain s1 where "f x s = Ok s1" "try_fold f xs s1 = Ok s'" by (auto simp: rbind_Ok_iff)
  with Cons.IH [of s1] Cons.prems(1) show ?case by simp
qed simp

lemma try_fold_set:
  assumes "\<And>x s s'. x \<in> set xs \<Longrightarrow> f x s = Ok s' \<Longrightarrow> g s' = g s \<union> r x" and "try_fold f xs s = Ok s'"
  shows "g s' = g s \<union> (\<Union>x \<in> set xs. r x)"
  using assms
proof (induction xs arbitrary: s)
  case (Cons x xs)
  then obtain s1 where s1: "f x s = Ok s1" "try_fold f xs s1 = Ok s'" by (auto simp: rbind_Ok_iff)
  have "g s' = g s1 \<union> (\<Union>x \<in> set xs. r x)" using Cons.IH [OF _ s1(2)] Cons.prems(1) by simp
  moreover have "g s1 = g s \<union> r x" using Cons.prems(1) [OF _ s1(1)] by simp
  ultimately show ?case by (simp add: Un_assoc)
qed simp

definition gap_stored :: "guid \<Rightarrow> u16 \<Rightarrow> gap \<Rightarrow> stored_event" where
  "gap_stored boot_id cpu_id g =
     \<lparr>se_boot_id = boot_id, se_timestamp = revealing_timestamp g, se_cpu_id = Some cpu_id, se_sequence = None, se_origin_class = None,
      se_event_type = EVENTS_LOST, se_effective_token_guid = None, se_true_token_guid = None, se_process_guid = None,
      se_payload = (case encode_gap_payload cpu_id g of Ok payload \<Rightarrow> payload | Err _ \<Rightarrow> [])\<rparr>"

definition event_stored :: "real_event \<Rightarrow> stored_event" where
  "event_stored e =
     \<lparr>se_boot_id = re_boot_id e, se_timestamp = re_timestamp e, se_cpu_id = Some (re_cpu_id e), se_sequence = Some (re_sequence e),
      se_origin_class = Some (re_origin_class e), se_event_type = re_event_type e,
      se_effective_token_guid = Some (re_effective_token_guid e), se_true_token_guid = Some (re_true_token_guid e),
      se_process_guid = Some (re_process_guid e), se_payload = re_payload e\<rparr>"

definition item_rows :: "ingest_item \<Rightarrow> stored_event list" where
  "item_rows item =
     map (gap_stored (re_boot_id (item_event item)) (re_cpu_id (item_event item))) (item_gaps item) @
     (if item_store_event item then [event_stored (item_event item)] else [])"

lemma gap_row_Ok: "gap_row boot cpu g = Ok row \<Longrightarrow> row = gap_stored boot cpu g"
  by (auto simp: gap_row_def gap_stored_def rbind_Ok_iff map_err_Ok_iff dest: checked_integer_Ok)

lemma event_row_Ok: "event_row_of e = Ok row \<Longrightarrow> row = event_stored e"
  by (auto simp: event_row_of_def event_stored_def rbind_Ok_iff dest!: checked_integer_Ok)

lemma insert_row_Ok:
  assumes "sql_documented sql" and "insert_row sql known ty mk_row st = Ok st'"
  shows "\<exists>row. mk_row = Ok row \<and> tb_events (snd st') = tb_events (snd st) @ [row] \<and> tb_receipt_ranges (snd st') = tb_receipt_ranges (snd st)"
  using assms
  by (auto simp: insert_row_def intern_type_def rbind_Ok_iff effect_def split: if_splits prod.splits dest!: run_sql_effect [OF assms(1)])

lemma commit_item_Ok:
  assumes "sql_documented sql" and "commit_item sql known item (st, receipts) = Ok (st', receipts')"
  shows "tb_events (snd st') = tb_events (snd st) @ item_rows item" and "tb_receipt_ranges (snd st') = tb_receipt_ranges (snd st)"
    and "receipts' = receipts((re_boot_id (item_event item), re_cpu_id (item_event item)) \<mapsto>
      (case receipts (re_boot_id (item_event item), re_cpu_id (item_event item)) of None \<Rightarrow> [] | Some ivs \<Rightarrow> ivs) @ item_intervals item)"
proof -
  let ?e = "item_event item"
  let ?gap = "\<lambda>g. insert_row sql known EVENTS_LOST (gap_row (re_boot_id ?e) (re_cpu_id ?e) g)"
  from assms(2) obtain st1 where 1: "try_fold ?gap (item_gaps item) st = Ok st1"
    "(if item_store_event item then insert_row sql known (re_event_type ?e) (event_row_of ?e) st1 else Ok st1) = Ok st'"
    and r: "receipts' = receipts((re_boot_id ?e, re_cpu_id ?e) \<mapsto>
      (case receipts (re_boot_id ?e, re_cpu_id ?e) of None \<Rightarrow> [] | Some ivs \<Rightarrow> ivs) @ item_intervals item)"
    by (auto simp: commit_item_def Let_def rbind_Ok_iff)
  have "tb_events (snd st1) = tb_events (snd st) @ concat (map (\<lambda>g. [gap_stored (re_boot_id ?e) (re_cpu_id ?e) g]) (item_gaps item))"
    by (rule try_fold_list [OF _ 1(1), where g = "tb_events \<circ> snd", unfolded comp_def])
      (use insert_row_Ok [OF assms(1)] gap_row_Ok in fastforce)
  moreover have "tb_receipt_ranges (snd st1) = tb_receipt_ranges (snd st) \<union> (\<Union>g \<in> set (item_gaps item). {})"
    by (rule try_fold_set [OF _ 1(1), where g = "tb_receipt_ranges \<circ> snd", unfolded comp_def])
      (use insert_row_Ok [OF assms(1)] in fastforce)
  ultimately show "tb_events (snd st') = tb_events (snd st) @ item_rows item" "tb_receipt_ranges (snd st') = tb_receipt_ranges (snd st)"
    using 1(2) insert_row_Ok [OF assms(1), of known "re_event_type ?e" "event_row_of ?e" st1 st'] event_row_Ok
    by (auto simp: item_rows_def split: if_splits)
  show "receipts' = receipts((re_boot_id ?e, re_cpu_id ?e) \<mapsto>
      (case receipts (re_boot_id ?e, re_cpu_id ?e) of None \<Rightarrow> [] | Some ivs \<Rightarrow> ivs) @ item_intervals item)" by (rule r)
qed

definition item_stream :: "ingest_item \<Rightarrow> guid \<times> u16" where
  "item_stream item = (re_boot_id (item_event item), re_cpu_id (item_event item))"

definition batch_intervals :: "ingest_item list \<Rightarrow> guid \<times> u16 \<Rightarrow> interval list" where
  "batch_intervals items key = concat (map item_intervals (filter (\<lambda>item. item_stream item = key) items))"

definition or_empty :: "'a list option \<Rightarrow> 'a list" where
  "or_empty x = (case x of None \<Rightarrow> [] | Some l \<Rightarrow> l)"

lemma commit_items_Ok:
  assumes "sql_documented sql"
  shows "try_fold (commit_item sql known) items (st, receipts) = Ok (st', receipts') \<Longrightarrow>
    tb_events (snd st') = tb_events (snd st) @ concat (map item_rows items) \<and> tb_receipt_ranges (snd st') = tb_receipt_ranges (snd st) \<and>
    (\<forall>key. or_empty (receipts' key) = or_empty (receipts key) @ batch_intervals items key) \<and>
    dom receipts' = dom receipts \<union> item_stream ` set items"
proof (induction items arbitrary: st receipts)
  case (Cons item items)
  then obtain st1 r1 where 1: "commit_item sql known item (st, receipts) = Ok (st1, r1)"
    "try_fold (commit_item sql known) items (st1, r1) = Ok (st', receipts')"
    by (auto simp: rbind_Ok_iff)
  note c = commit_item_Ok [OF assms 1(1)]
  have "r1 = receipts(item_stream item \<mapsto> or_empty (receipts (item_stream item)) @ item_intervals item)"
    using c(3) by (simp add: item_stream_def or_empty_def)
  then have "or_empty (r1 key) = or_empty (receipts key) @ (if item_stream item = key then item_intervals item else [])"
    and "dom r1 = insert (item_stream item) (dom receipts)" for key
    by (auto simp: or_empty_def)
  with Cons.IH [OF 1(2)] c(1,2) show ?case by (auto simp: batch_intervals_def)
qed (simp add: batch_intervals_def)

lemma insert_range_Ok:
  assumes "sql_documented sql" and "insert_receipt_range sql boot cpu iv t = Ok t'"
  shows "t' = t\<lparr>tb_receipt_ranges := insert (boot, cpu, iv) (tb_receipt_ranges t)\<rparr>"
  using assms(2)
  by (cases iv) (auto simp: insert_receipt_range_def rbind_Ok_iff effect_def dest!: run_sql_effect [OF assms(1)] checked_integer_Ok)

lemma insert_ranges_Ok:
  assumes "sql_documented sql"
  shows "try_fold (insert_receipt_range sql boot cpu) ivs t = Ok t' \<Longrightarrow>
    tb_events t' = tb_events t \<and> tb_receipt_ranges t' = tb_receipt_ranges t \<union> (\<lambda>iv. (boot, cpu, iv)) ` set ivs"
proof (induction ivs arbitrary: t)
  case (Cons iv ivs)
  then obtain t1 where 1: "insert_receipt_range sql boot cpu iv t = Ok t1" "try_fold (insert_receipt_range sql boot cpu) ivs t1 = Ok t'"
    by (auto simp: rbind_Ok_iff)
  from Cons.IH [OF 1(2)] insert_range_Ok [OF assms 1(1)] show ?case by auto
qed simp

lemma insert_streams_Ok:
  assumes "sql_documented sql"
  shows "try_fold (insert_stream sql sort_by_first receipts) keys t = Ok t' \<Longrightarrow>
    tb_events t' = tb_events t \<and> tb_receipt_ranges t' = tb_receipt_ranges t \<union>
      {(boot, cpu, iv). (boot, cpu) \<in> set keys \<and> iv \<in> set (merge_intervals (sort_by_first (the (receipts (boot, cpu)))))}"
proof (induction keys arbitrary: t)
  case (Cons key keys)
  obtain boot cpu where key: "key = (boot, cpu)" by (cases key)
  with Cons.prems obtain t1 where 1: "try_fold (insert_receipt_range sql boot cpu) (merge_intervals (sort_by_first (the (receipts (boot, cpu))))) t = Ok t1"
    "try_fold (insert_stream sql sort_by_first receipts) keys t1 = Ok t'"
    by (auto simp: rbind_Ok_iff insert_stream_def shard_merge_eq)
  from Cons.IH [OF 1(2)] insert_ranges_Ok [OF assms 1(1)] key show ?case by auto
qed auto

definition shard_covers :: "tables \<Rightarrow> guid \<Rightarrow> u16 \<Rightarrow> u64 \<Rightarrow> bool" where
  "shard_covers t boot cpu s \<longleftrightarrow> (\<exists>iv. (boot, cpu, iv) \<in> tb_receipt_ranges t \<and> interval_contains iv s)"

definition item_wf :: "ingest_item \<Rightarrow> bool" where
  "item_wf item \<longleftrightarrow> list_all gap_wf (item_gaps item) \<and> 0 < re_sequence (item_event item)"

lemma item_intervals_wf: "item_wf item \<Longrightarrow> \<forall>iv \<in> set (item_intervals item). interval_wf iv"
  by (auto simp: item_wf_def item_intervals_def gap_wf_def interval_wf_def list_all_iff)

lemma insert_receipts_cover:
  assumes sql: "sql_documented sql" and sort: "unstable_sort sort_by_first" and keys: "set keys = dom receipts"
    and wf: "\<forall>key ivs. receipts key = Some ivs \<longrightarrow> (\<forall>iv \<in> set ivs. interval_wf iv)"
    and run: "try_fold (insert_stream sql sort_by_first receipts) keys t = Ok t'"
  shows "tb_events t' = tb_events t"
    and "shard_covers t' boot cpu s \<longleftrightarrow> shard_covers t boot cpu s \<or> (\<exists>ivs. receipts (boot, cpu) = Some ivs \<and> covers ivs s)"
    and "\<forall>(boot, cpu, iv) \<in> tb_receipt_ranges t' - tb_receipt_ranges t. interval_wf iv"
proof -
  from insert_streams_Ok [OF sql run] have i: "tb_events t' = tb_events t" "tb_receipt_ranges t' = tb_receipt_ranges t \<union>
      {(boot, cpu, iv). (boot, cpu) \<in> dom receipts \<and> iv \<in> set (merge_intervals (sort_by_first (the (receipts (boot, cpu)))))}"
    using keys by simp_all
  have m: "merged (merge_intervals (sort_by_first ivs))" "covers (merge_intervals (sort_by_first ivs)) = covers ivs"
    if "receipts key = Some ivs" for key ivs
    using unstable_sort.merge_sorted [OF sort] wf that by blast+
  show "tb_events t' = tb_events t" by (rule i(1))
  show "shard_covers t' boot cpu s \<longleftrightarrow> shard_covers t boot cpu s \<or> (\<exists>ivs. receipts (boot, cpu) = Some ivs \<and> covers ivs s)"
  proof (cases "receipts (boot, cpu)")
    case None
    then show ?thesis by (simp add: shard_covers_def i(2) domIff)
  next
    case (Some ivs)
    have "shard_covers t' boot cpu s \<longleftrightarrow> shard_covers t boot cpu s \<or> covers (merge_intervals (sort_by_first ivs)) s"
      unfolding shard_covers_def covers_def i(2) using Some by auto
    then show ?thesis using Some by (simp add: m(2) [OF Some])
  qed
  show "\<forall>(boot, cpu, iv) \<in> tb_receipt_ranges t' - tb_receipt_ranges t. interval_wf iv"
    using m(1) by (auto simp: i(2) merged_def)
qed

text \<open>What a batch leaves in the tables: its rows after those there were, and receipts for what it accounts for.\<close>

definition batch_stored :: "ingest_item list \<Rightarrow> tables \<Rightarrow> tables \<Rightarrow> bool" where
  "batch_stored items t t' \<longleftrightarrow>
     tb_events t' = tb_events t @ concat (map item_rows items) \<and>
     (\<forall>boot cpu s. shard_covers t' boot cpu s \<longleftrightarrow> shard_covers t boot cpu s \<or>
        (\<exists>item \<in> set items. item_stream item = (boot, cpu) \<and> covers (item_intervals item) s)) \<and>
     (\<forall>(boot, cpu, iv) \<in> tb_receipt_ranges t' - tb_receipt_ranges t. interval_wf iv)"

lemma commit_transaction_Ok:
  assumes sql: "sql_documented sql" and sort: "unstable_sort sort_by_first" and iterate: "\<forall>m. finite (dom m) \<longrightarrow> set (iterate m) = dom m"
    and wf: "\<forall>item \<in> set items. item_wf item" and run: "commit_transaction sql sort_by_first iterate shard items = Ok ((pending, t'), receipts)"
  shows "batch_stored items (sh_tables shard) t'"
proof -
  let ?t = "sh_tables shard"
  have eff: "run_sql sql st t = Ok t2 \<Longrightarrow> st \<in> {BeginImmediate, Commit} \<union> range Prepare \<Longrightarrow> t2 = t" for st t t2
    using run_sql_effect [OF sql] by (fastforce simp: effect_def)
  from run obtain t1 where t1: "try_fold (commit_item sql (sh_known_types shard)) items (({}, ?t), Map.empty) = Ok ((pending, t1), receipts)"
    "try_fold (insert_stream sql sort_by_first receipts) (iterate receipts) t1 = Ok t'"
    by (auto simp: commit_transaction_def rbind_Ok_iff dest!: eff)
  from commit_items_Ok [OF sql t1(1)] have c: "tb_events t1 = tb_events ?t @ concat (map item_rows items)"
    "tb_receipt_ranges t1 = tb_receipt_ranges ?t" "\<forall>key. or_empty (receipts key) = batch_intervals items key"
    "dom receipts = item_stream ` set items" by (simp_all add: or_empty_def)
  have known: "receipts key = Some ivs \<Longrightarrow> ivs = batch_intervals items key" for key ivs
    using spec [OF c(3), of key] by (simp add: or_empty_def)
  have all: "set (iterate receipts) = dom receipts" using iterate c(4) by simp
  have "\<forall>iv \<in> set (batch_intervals items key). interval_wf iv" for key
    using wf item_intervals_wf by (auto simp: batch_intervals_def)
  then have wfs: "\<forall>key ivs. receipts key = Some ivs \<longrightarrow> (\<forall>iv \<in> set ivs. interval_wf iv)" using known by blast
  note stored = insert_receipts_cover [OF sql sort all wfs t1(2)]
  have "(\<exists>ivs. receipts (boot, cpu) = Some ivs \<and> covers ivs s) \<longleftrightarrow>
      (\<exists>item \<in> set items. item_stream item = (boot, cpu) \<and> covers (item_intervals item) s)" for boot cpu s
  proof -
    have "(\<exists>ivs. receipts (boot, cpu) = Some ivs \<and> covers ivs s) \<longleftrightarrow> (boot, cpu) \<in> dom receipts \<and> covers (batch_intervals items (boot, cpu)) s"
      using known by blast
    also have "\<dots> \<longleftrightarrow> (\<exists>item \<in> set items. item_stream item = (boot, cpu) \<and> covers (item_intervals item) s)"
      unfolding c(4) by (force simp: batch_intervals_def covers_def)
    finally show ?thesis .
  qed
  with stored c(1,2) show ?thesis by (simp add: batch_stored_def shard_covers_def [of t1] shard_covers_def [of ?t])
qed

lemma shard_commit_result:
  assumes "sql_documented sql" and "unstable_sort sort_by_first" and "\<forall>m. finite (dom m) \<longrightarrow> set (iterate m) = dom m"
    and "\<forall>item \<in> set items. item_wf item"
    and "shard_commit sql sort_by_first iterate checkpoint is_capacity shard items = (result, shard')"
  shows "(case result of
      Ok stats \<Rightarrow> batch_stored items (sh_tables shard) (sh_tables shard')
    | Err e \<Rightarrow> shard' = shard \<or> batch_stored items (sh_tables shard) (sh_tables shard') \<and> (\<exists>c. checkpoint = Err c \<and> e = Raised c))"
proof (cases "items = []")
  case True
  then show ?thesis using assms(5) by (auto simp: shard_commit_def batch_stored_def)
next
  case False
  show ?thesis
  proof (cases "commit_transaction sql sort_by_first iterate shard items")
    case (Inl e)
    then show ?thesis using assms(5) False by (auto simp: shard_commit_def)
  next
    case (Inr x)
    obtain pending t receipts where x: "x = ((pending, t), receipts)" by (metis surj_pair)
    have "batch_stored items (sh_tables shard) t" by (rule commit_transaction_Ok [OF assms(1-4) Inr [unfolded x]])
    then show ?thesis using assms(5) False Inr x by (auto simp: shard_commit_def after_commit_def split: sum.splits if_splits)
  qed
qed

section \<open>Gaps and records of the daemon itself\<close>

lemma commit_gap_Ok:
  assumes "sql_documented sql" and "commit_gap sql boot (cpu, g) (t, receipts) = Ok (t', receipts')"
  shows "tb_events t' = tb_events t @ [gap_stored boot cpu g]" and "tb_receipt_ranges t' = tb_receipt_ranges t"
    and "receipts' = receipts((boot, cpu) \<mapsto> or_empty (receipts (boot, cpu)) @ [\<lparr>iv_first = first_sequence g, iv_last = last_sequence g\<rparr>])"
  using assms(2)
  by (auto simp: commit_gap_def rbind_Ok_iff effect_def or_empty_def dest!: run_sql_effect [OF assms(1)] gap_row_Ok)

definition gap_intervals :: "guid \<Rightarrow> (u16 \<times> gap) list \<Rightarrow> guid \<times> u16 \<Rightarrow> interval list" where
  "gap_intervals boot gaps key =
     map (\<lambda>(cpu, g). \<lparr>iv_first = first_sequence g, iv_last = last_sequence g\<rparr>) (filter (\<lambda>(cpu, g). (boot, cpu) = key) gaps)"

lemma commit_gaps_loop_Ok:
  assumes "sql_documented sql"
  shows "try_fold (commit_gap sql boot) gaps (t, receipts) = Ok (t', receipts') \<Longrightarrow>
    tb_events t' = tb_events t @ map (\<lambda>(cpu, g). gap_stored boot cpu g) gaps \<and> tb_receipt_ranges t' = tb_receipt_ranges t \<and>
    (\<forall>key. or_empty (receipts' key) = or_empty (receipts key) @ gap_intervals boot gaps key) \<and>
    dom receipts' = dom receipts \<union> (\<lambda>(cpu, g). (boot, cpu)) ` set gaps"
proof (induction gaps arbitrary: t receipts)
  case (Cons x gaps)
  obtain cpu g where x: "x = (cpu, g)" by (cases x)
  with Cons.prems obtain t1 r1 where 1: "commit_gap sql boot (cpu, g) (t, receipts) = Ok (t1, r1)"
    "try_fold (commit_gap sql boot) gaps (t1, r1) = Ok (t', receipts')"
    by (auto simp: rbind_Ok_iff)
  note c = commit_gap_Ok [OF assms 1(1)]
  have "or_empty (r1 key) = or_empty (receipts key) @ gap_intervals boot [(cpu, g)] key"
    and "dom r1 = insert (boot, cpu) (dom receipts)" for key
    by (auto simp: c(3) or_empty_def gap_intervals_def)
  with Cons.IH [OF 1(2)] c(1,2) x show ?case by (auto simp: gap_intervals_def)
qed (simp add: gap_intervals_def)

definition gaps_stored :: "guid \<Rightarrow> (u16 \<times> gap) list \<Rightarrow> tables \<Rightarrow> tables \<Rightarrow> bool" where
  "gaps_stored boot gaps t t' \<longleftrightarrow>
     tb_events t' = tb_events t @ map (\<lambda>(cpu, g). gap_stored boot cpu g) gaps \<and>
     (\<forall>b cpu s. shard_covers t' b cpu s \<longleftrightarrow> shard_covers t b cpu s \<or> b = boot \<and> (\<exists>g. (cpu, g) \<in> set gaps \<and> s \<in> gap_set g))"

lemma gap_intervals_covers:
  "(boot', cpu') \<in> (\<lambda>(cpu, g). (boot, cpu)) ` set gaps \<and> covers (gap_intervals boot gaps (boot', cpu')) s \<longleftrightarrow>
     boot' = boot \<and> (\<exists>g. (cpu', g) \<in> set gaps \<and> s \<in> gap_set g)"
  by (force simp: gap_intervals_def covers_def interval_contains_def gap_set_def)

lemma commit_gaps_receipts:
  assumes sql: "sql_documented sql" and sort: "unstable_sort sort_by_first" and iterate: "\<forall>m. finite (dom m) \<longrightarrow> set (iterate m) = dom m"
    and wf: "\<forall>(cpu, g) \<in> set gaps. gap_wf g"
    and run: "try_fold (commit_gap sql boot) gaps (t, Map.empty) = Ok (t1, receipts)"
    "try_fold (insert_stream sql sort_by_first receipts) (iterate receipts) t1 = Ok t'"
  shows "gaps_stored boot gaps t t'"
proof -
  from commit_gaps_loop_Ok [OF sql run(1)] have c: "tb_events t1 = tb_events t @ map (\<lambda>(cpu, g). gap_stored boot cpu g) gaps"
    "tb_receipt_ranges t1 = tb_receipt_ranges t" "\<forall>key. or_empty (receipts key) = gap_intervals boot gaps key"
    "dom receipts = (\<lambda>(cpu, g). (boot, cpu)) ` set gaps" by (simp_all add: or_empty_def)
  have known: "receipts key = Some ivs \<Longrightarrow> ivs = gap_intervals boot gaps key" for key ivs
    using spec [OF c(3), of key] by (simp add: or_empty_def)
  have all: "set (iterate receipts) = dom receipts" using iterate c(4) by simp
  have "\<forall>iv \<in> set (gap_intervals boot gaps key). interval_wf iv" for key
    using wf by (auto simp: gap_intervals_def interval_wf_def gap_wf_def)
  then have wfs: "\<forall>key ivs. receipts key = Some ivs \<longrightarrow> (\<forall>iv \<in> set ivs. interval_wf iv)" using known by blast
  note stored = insert_receipts_cover [OF sql sort all wfs run(2)]
  have "(\<exists>ivs. receipts (b, cpu) = Some ivs \<and> covers ivs s) \<longleftrightarrow> b = boot \<and> (\<exists>g. (cpu, g) \<in> set gaps \<and> s \<in> gap_set g)" for b cpu s
  proof -
    have "(\<exists>ivs. receipts (b, cpu) = Some ivs \<and> covers ivs s) \<longleftrightarrow> (b, cpu) \<in> dom receipts \<and> covers (gap_intervals boot gaps (b, cpu)) s"
      using known by blast
    then show ?thesis by (simp only: c(4) gap_intervals_covers)
  qed
  with stored c(1,2) show ?thesis by (simp add: gaps_stored_def shard_covers_def [of t1] shard_covers_def [of t])
qed

lemma gaps_transaction_Ok:
  assumes "sql_documented sql" and "unstable_sort sort_by_first" and "\<forall>m. finite (dom m) \<longrightarrow> set (iterate m) = dom m"
    and "\<forall>(cpu, g) \<in> set gaps. gap_wf g" and "gaps_transaction sql sort_by_first iterate shard boot gaps = Ok (t', receipts)"
  shows "gaps_stored boot gaps (sh_tables shard) t'"
proof -
  have quiet: "run_sql sql st t = Ok t2 \<Longrightarrow> st \<in> {BeginImmediate, Commit} \<union> range Prepare \<Longrightarrow> t2 = t" for st t t2
    using run_sql_effect [OF assms(1)] by (fastforce simp: effect_def)
  from assms(5) obtain t1 t2 where t1: "(if EVENTS_LOST \<notin> sh_known_types shard then run_sql sql (InsertType EVENTS_LOST) (sh_tables shard)
      else Ok (sh_tables shard)) = Ok t1"
    and run: "try_fold (commit_gap sql boot) gaps (t1, Map.empty) = Ok (t2, receipts)"
      "try_fold (insert_stream sql sort_by_first receipts) (iterate receipts) t2 = Ok t'"
    by (auto simp: gaps_transaction_def rbind_Ok_iff dest!: quiet)
  have "tb_events t1 = tb_events (sh_tables shard) \<and> tb_receipt_ranges t1 = tb_receipt_ranges (sh_tables shard)"
    using t1 run_sql_effect [OF assms(1)] by (fastforce simp: effect_def split: if_splits)
  with commit_gaps_receipts [OF assms(1-4) run] show ?thesis by (simp add: gaps_stored_def shard_covers_def)
qed

text \<open>A record of the daemon itself is stored without a receipt, and only under a type the daemon writes.\<close>

lemma commit_synthetic_exact:
  assumes "sql_documented sql" and "commit_synthetic sql checkpoint shard event = (result, shard')"
  shows "shard' = shard \<and> (\<exists>e. result = Err e) \<or>
    is_store_written (syn_event_type event) \<and> result = map_err Raised checkpoint \<and>
    tb_receipt_ranges (sh_tables shard') = tb_receipt_ranges (sh_tables shard) \<and>
    (\<exists>row. tb_events (sh_tables shard') = tb_events (sh_tables shard) @ [row] \<and> se_event_type row = syn_event_type event \<and>
      se_boot_id row = syn_boot_id event \<and> se_timestamp row = syn_timestamp event \<and> se_sequence row = None \<and> se_payload row = syn_payload event)"
  using assms(2)
  by (auto simp: commit_synthetic_def rbind_Ok_iff effect_def split: if_splits sum.splits dest!: run_sql_effect [OF assms(1)] checked_integer_Ok)

section \<open>Properties\<close>

text \<open>
  C4. A batch is stored as a whole or not at all. After a successful commit the rows of all its items follow
  those there were, in order, and the receipts cover what they covered and, for each stream, exactly the gaps
  and the stored events of its items, in well-formed intervals. After an error the shard is as it was, unless the error is one of the
  checkpoint that follows the transaction, and then the batch is stored.
\<close>

theorem shard_commit_exact:
  assumes "sql_documented sql" and "unstable_sort sort_by_first" and "\<forall>m. finite (dom m) \<longrightarrow> set (iterate m) = dom m"
    and "\<forall>item \<in> set items. item_wf item"
    and "shard_commit sql sort_by_first iterate checkpoint is_capacity shard items = (result, shard')"
  shows "(case result of
      Ok stats \<Rightarrow> batch_stored items (sh_tables shard) (sh_tables shard')
    | Err e \<Rightarrow> shard' = shard \<or> batch_stored items (sh_tables shard) (sh_tables shard') \<and> (\<exists>c. checkpoint = Err c \<and> e = Raised c))"
  using assms by (rule shard_commit_result)

text \<open>
  C5. Reporting losses directly is as atomic as a batch: after a successful commit there is one record per gap, in
  order, and the receipts cover what they covered and the sequences of the gaps, so that no restart reports them
  again. After an error the shard is as it was, unless the checkpoint failed, and then the gaps are stored.
\<close>

theorem commit_gaps_exact:
  assumes "sql_documented sql" and "unstable_sort sort_by_first" and "\<forall>m. finite (dom m) \<longrightarrow> set (iterate m) = dom m"
    and "\<forall>(cpu, g) \<in> set gaps. gap_wf g"
    and "commit_gaps sql sort_by_first iterate checkpoint is_capacity shard boot gaps = (result, shard')"
  shows "(case result of
      Ok stats \<Rightarrow> gaps_stored boot gaps (sh_tables shard) (sh_tables shard')
    | Err e \<Rightarrow> shard' = shard \<or> gaps_stored boot gaps (sh_tables shard) (sh_tables shard') \<and> (\<exists>c. checkpoint = Err c \<and> e = Raised c))"
proof (cases "gaps = []")
  case True
  then show ?thesis using assms(5) by (auto simp: commit_gaps_def gaps_stored_def)
next
  case False
  show ?thesis
  proof (cases "gaps_transaction sql sort_by_first iterate shard boot gaps")
    case (Inl e)
    then show ?thesis using assms(5) False by (auto simp: commit_gaps_def)
  next
    case (Inr x)
    obtain t receipts where x: "x = (t, receipts)" by (cases x)
    have "gaps_stored boot gaps (sh_tables shard) t" by (rule gaps_transaction_Ok [OF assms(1-4) Inr [unfolded x]])
    then show ?thesis using assms(5) False Inr x by (auto simp: commit_gaps_def after_commit_def split: sum.splits if_splits)
  qed
qed

definition sample_item :: ingest_item where
  "sample_item = \<lparr>item_gaps = [], item_store_event = True, item_event = \<lparr>re_boot_id = [7], re_timestamp = 9, re_cpu_id = 3,
     re_sequence = 5, re_origin_class = 0, re_effective_token_guid = [], re_true_token_guid = [], re_process_guid = [],
     re_event_type = ''a'', re_payload = []\<rparr>\<rparr>"

definition empty_shard :: shard where
  "empty_shard = \<lparr>sh_tables = \<lparr>tb_events = [], tb_event_types = {}, tb_receipt_ranges = {}\<rparr>, sh_known_types = {}\<rparr>"

theorem shard_commit_exact_witness:
  "let r = shard_commit (\<lambda>s t. Ok (effect s t) :: unit + tables) (sort_key iv_first) (\<lambda>m. sorted_list_of_set (dom m)) (Ok ()) (\<lambda>_. False)
      empty_shard [sample_item] in
   (\<exists>stats. fst r = Ok stats) \<and> shard_covers (sh_tables (snd r)) [7] 3 5 \<and> \<not> shard_covers (sh_tables (snd r)) [7] 3 4"
proof -
  let ?sql = "\<lambda>s t. Ok (effect s t) :: unit + tables" and ?it = "\<lambda>m. sorted_list_of_set (dom m)"
  let ?r = "shard_commit ?sql (sort_key iv_first) ?it (Ok ()) (\<lambda>_. False) empty_shard [sample_item]"
  have ok: "\<exists>stats. fst ?r = Ok stats"
    by (simp add: shard_commit_def commit_transaction_def run_sql_def execute_def map_err_def effect_def commit_item_def
        sample_item_def empty_shard_def insert_row_def intern_type_def event_row_of_def checked_integer_def sqlite_integer_def
        item_intervals_def insert_stream_def shard_merge_eq merge_intervals_def merge_interval_def insert_receipt_range_def
        after_commit_def Let_def)
  have "sql_documented ?sql" "\<forall>m. finite (dom m) \<longrightarrow> set (?it m) = dom m" "\<forall>item \<in> set [sample_item]. item_wf item"
    by (simp_all add: sql_documented_def item_wf_def sample_item_def)
  from shard_commit_exact [OF this(1) stable_sort.unstable_sort_axioms this(2,3), of "Ok ()" "\<lambda>_. False" empty_shard "fst ?r" "snd ?r"] ok
  have "batch_stored [sample_item] (sh_tables empty_shard) (sh_tables (snd ?r))" by auto
  then show ?thesis using ok unfolding Let_def
    by (simp add: batch_stored_def item_stream_def sample_item_def item_intervals_def interval_contains_def shard_covers_def empty_shard_def)
qed

theorem commit_gaps_exact_witness:
  "let r = commit_gaps (\<lambda>s t. Ok (effect s t) :: unit + tables) (sort_key iv_first) (\<lambda>m. sorted_list_of_set (dom m)) (Ok ()) (\<lambda>_. False)
      empty_shard [7] [(3, make_gap 4 6 None 90)] in
   (\<exists>stats. fst r = Ok stats) \<and> shard_covers (sh_tables (snd r)) [7] 3 5 \<and> \<not> shard_covers (sh_tables (snd r)) [7] 3 7"
proof -
  let ?sql = "\<lambda>s t. Ok (effect s t) :: unit + tables" and ?it = "\<lambda>m. sorted_list_of_set (dom m)" and ?gaps = "[(3, make_gap 4 6 None 90)]"
  let ?r = "commit_gaps ?sql (sort_key iv_first) ?it (Ok ()) (\<lambda>_. False) empty_shard [7] ?gaps"
  have ok: "\<exists>stats. fst ?r = Ok stats"
    by (simp add: commit_gaps_def gaps_transaction_def run_sql_def execute_def map_err_def effect_def commit_gap_def gap_row_def
        encode_gap_payload_def pack_field_def pack_str_def empty_shard_def checked_integer_def sqlite_integer_def make_gap_def
        insert_stream_def shard_merge_eq merge_intervals_def merge_interval_def insert_receipt_range_def after_commit_def Let_def)
  have "sql_documented ?sql" "\<forall>m. finite (dom m) \<longrightarrow> set (?it m) = dom m" "\<forall>(cpu, g) \<in> set ?gaps. gap_wf g"
    by (simp_all add: sql_documented_def gap_wf_def make_gap_def word_order)
  from commit_gaps_exact [OF this(1) stable_sort.unstable_sort_axioms this(2,3), of "Ok ()" "\<lambda>_. False" empty_shard "[7]" "fst ?r" "snd ?r"] ok
  have "gaps_stored [7] ?gaps (sh_tables empty_shard) (sh_tables (snd ?r))" by auto
  then show ?thesis using ok unfolding Let_def
    by (simp add: gaps_stored_def gap_set_def make_gap_def shard_covers_def empty_shard_def word_order)
qed

end
