(* ===== verification/Drain.thy ===== *)
theory Drain
  imports Shard_Commit Routing Bounded_Queue
begin

text \<open>
  The drain of one CPU's ring (\<^verbatim>\<open>drain\<close> of \<^verbatim>\<open>eventd/src/kmes.rs\<close>): what one pass of its loop makes of the event it
  reads, and the scan of a ring that replaces another. What the mapped ring and the queue answer in a pass (its
  tail and write positions, the event, the reservation) are arguments. Waiting on the ring, stopping and the
  recovery barriers are not modelled.
\<close>

section \<open>Events and errors\<close>

datatype origin_class = Userspace | Kmes | Kacs | Lcs | OtherOrigin u8

fun origin_discriminant :: "origin_class \<Rightarrow> u8" where
  "origin_discriminant Userspace = 0"
| "origin_discriminant Kmes = 1"
| "origin_discriminant Kacs = 2"
| "origin_discriminant Lcs = 3"
| "origin_discriminant (OtherOrigin v) = v"

record ring_event =
  rg_cpu_id :: u16
  rg_sequence :: u64
  rg_timestamp :: u64
  rg_origin_class :: origin_class
  rg_effective_token_guid :: guid
  rg_true_token_guid :: guid
  rg_process_guid :: guid
  rg_event_type :: string
  rg_payload :: "u8 list"

datatype 'p kmes_error =
    Peios 'p
  | KmesQueue reserve_error
  | KmesSequence reconcile_error
  | TooManySlots u64
  | CpuIdOutOfRange u32
  | CpuMismatch (attached: u16) (stamped: u16)
  | NoBuffers
  | PositionOverflow
  | WriterStopped
  | KmesWriter string

type_synonym 'p draining = "'p kmes_error abort"

definition is_reserved :: "string \<Rightarrow> bool" where
  "is_reserved event_type \<longleftrightarrow> is_store_written event_type"

definition owned_event :: "guid \<Rightarrow> u16 \<Rightarrow> ring_event \<Rightarrow> real_event" where
  "owned_event boot_id cpu_id e =
     \<lparr>re_boot_id = boot_id, re_timestamp = rg_timestamp e, re_cpu_id = cpu_id, re_sequence = rg_sequence e,
      re_origin_class = origin_discriminant (rg_origin_class e), re_effective_token_guid = rg_effective_token_guid e,
      re_true_token_guid = rg_true_token_guid e, re_process_guid = rg_process_guid e,
      re_event_type = rg_event_type e, re_payload = rg_payload e\<rparr>"

definition ring_advance :: "u64 \<Rightarrow> u64 \<Rightarrow> 'p draining + u64" where
  "ring_advance at_position event_size = ok_or (Raised PositionOverflow) (checked_add at_position event_size)"

section \<open>One pass\<close>

text \<open>What the ring and the queue answer in one pass: the tail is read again after the event was copied, and once more
  where the pass gives up an overwritten event.\<close>

record 'p ring_pass =
  ps_tail :: u64
  ps_write :: u64
  ps_event :: "'p + ring_event \<times> u64"
  ps_tail_after :: u64
  ps_tail_resume :: u64
  ps_reserve :: "nat \<Rightarrow> nat \<Rightarrow> reserve_error + unit"

record drain_context =
  cx_boot_id :: guid
  cx_cpu_id :: u16
  cx_message_size :: nat
  cx_gap_size :: nat

record drain_state =
  dr_read_position :: u64
  dr_last_sequence :: "u64 option"
  dr_reconciler :: reconciler
  dr_router :: stripe_router

definition drain_start :: "drain_context \<Rightarrow> coverage \<Rightarrow> stripe_router \<Rightarrow> u64 \<Rightarrow> drain_state" where
  "drain_start cx cov router tail =
     \<lparr>dr_read_position = tail, dr_last_sequence = None, dr_reconciler = reconciler_new cov (cx_boot_id cx) (cx_cpu_id cx),
      dr_router = router\<rparr>"

definition charged_bytes :: "drain_context \<Rightarrow> observation \<Rightarrow> ring_event \<Rightarrow> nat" where
  "charged_bytes cx obs e =
     cx_message_size cx + length (obs_gaps obs) * cx_gap_size cx + length (rg_event_type e) + length (rg_payload e)"

definition event_passed :: "drain_state \<Rightarrow> u64 \<Rightarrow> u64 \<Rightarrow> ring_event \<Rightarrow> reconciler \<Rightarrow> stripe_router \<Rightarrow> 'p draining + drain_state" where
  "event_passed st at_position event_size e candidate router =
     rbind (ring_advance at_position event_size) (\<lambda>at_next.
       Ok (st\<lparr>dr_read_position := at_next, dr_last_sequence := Some (rg_sequence e), dr_reconciler := candidate, dr_router := router\<rparr>))"

text \<open>The item handed over with its shard, and the state after it; an item is published before the position
  advances, so it may come with an error.\<close>

definition drain_event :: "drain_context \<Rightarrow> 'p ring_pass \<Rightarrow> drain_state \<Rightarrow> u64 \<Rightarrow> ring_event \<Rightarrow> u64 \<Rightarrow>
    'p draining + (nat \<times> ingest_item) option \<times> ('p draining + drain_state)" where
  "drain_event cx p st at_position e event_size =
     rbind (map_err (Raised \<circ> KmesSequence) (observe (dr_reconciler st) (rg_sequence e) (rg_timestamp e))) (\<lambda>(obs, candidate).
       if \<not> (obs_store_event obs \<or> obs_gaps obs \<noteq> []) then
         Ok (None,
           if at_position < ps_tail_after p then Ok (st\<lparr>dr_read_position := ps_tail_resume p\<rparr>)
           else event_passed st at_position event_size e candidate (dr_router st))
       else
         rbind (map_err (\<lambda>_. Panicked) (current_shard (dr_router st))) (\<lambda>shard.
         rbind (map_err (Raised \<circ> KmesQueue) (ps_reserve p shard (charged_bytes cx obs e))) (\<lambda>_.
           if at_position < ps_tail_after p then Ok (None, Ok (st\<lparr>dr_read_position := ps_tail_resume p\<rparr>))
           else
             Ok (Some (shard,
                   \<lparr>item_gaps = obs_gaps obs, item_store_event = obs_store_event obs \<and> \<not> is_reserved (rg_event_type e),
                    item_event = owned_event (cx_boot_id cx) (cx_cpu_id cx) e\<rparr>),
                 event_passed st at_position event_size e candidate (advance (dr_router st))))))"

definition drain_read :: "drain_context \<Rightarrow> 'p ring_pass \<Rightarrow> drain_state \<Rightarrow>
    'p draining + (nat \<times> ingest_item) option \<times> ('p draining + drain_state)" where
  "drain_read cx p st =
     (let at_position = (if dr_read_position st < ps_tail p then ps_tail p else dr_read_position st) in
      if ps_write p \<le> at_position then Ok (None, Ok (st\<lparr>dr_read_position := at_position\<rparr>))
      else
        rbind (map_err (Raised \<circ> Peios) (ps_event p)) (\<lambda>(e, event_size).
          if rg_cpu_id e \<noteq> cx_cpu_id cx then Err (Raised (CpuMismatch (cx_cpu_id cx) (rg_cpu_id e)))
          else drain_event cx p st at_position e event_size))"

definition drain_pass :: "drain_context \<Rightarrow> 'p ring_pass \<Rightarrow> drain_state \<Rightarrow>
    (nat \<times> ingest_item) option \<times> ('p draining + drain_state)" where
  "drain_pass cx p st = (case drain_read cx p st of Err e \<Rightarrow> (None, Err e) | Ok outcome \<Rightarrow> outcome)"

section \<open>Replacing the ring\<close>

text \<open>The scan for the first event after the last one drained. It is not finished while it is \<^term>\<open>None\<close>.\<close>

fun replacement_loop :: "u64 \<Rightarrow> u64 \<Rightarrow> 'p ring_pass list \<Rightarrow> ('p draining + u64) option" where
  "replacement_loop last_seen at_position [] = None"
| "replacement_loop last_seen at_position (p # passes) =
     (let at_position = (if at_position < ps_tail p then ps_tail p else at_position) in
      if ps_write p \<le> at_position then Some (Ok at_position)
      else
        case ps_event p of
          Inl e \<Rightarrow> Some (Err (Raised (Peios e)))
        | Inr (e, event_size) \<Rightarrow>
            if at_position < ps_tail_after p then replacement_loop last_seen (ps_tail_resume p) passes
            else if last_seen < rg_sequence e then Some (Ok at_position)
            else
              case ring_advance at_position event_size of
                Inl err \<Rightarrow> Some (Err err)
              | Inr at_next \<Rightarrow> replacement_loop last_seen at_next passes)"

definition replacement_ring :: "'p + u64 \<Rightarrow> u64 option \<Rightarrow> 'p ring_pass list \<Rightarrow> ('p draining + u64) option" where
  "replacement_ring mapped last_seen passes =
     (case mapped of
        Inl e \<Rightarrow> Some (Err (Raised (Peios e)))
      | Inr tail \<Rightarrow> (case last_seen of None \<Rightarrow> Some (Ok tail) | Some s \<Rightarrow> replacement_loop s tail passes))"

section \<open>A run\<close>

datatype 'p drain_step = Pass "'p ring_pass" | Replace "'p + u64" "'p ring_pass list"

definition option_list :: "'a option \<Rightarrow> 'a list" where
  "option_list x = (case x of None \<Rightarrow> [] | Some a \<Rightarrow> [a])"

fun drain_steps :: "drain_context \<Rightarrow> drain_state \<Rightarrow> 'p drain_step list \<Rightarrow> (nat \<times> ingest_item) list \<times> ('p draining + drain_state)" where
  "drain_steps cx st [] = ([], Ok st)"
| "drain_steps cx st (Pass p # steps) =
     (case drain_pass cx p st of
        (handoff, Inl e) \<Rightarrow> (option_list handoff, Err e)
      | (handoff, Inr st') \<Rightarrow>
          (case drain_steps cx st' steps of (handed, result) \<Rightarrow> (option_list handoff @ handed, result)))"
| "drain_steps cx st (Replace mapped passes # steps) =
     (case replacement_ring mapped (dr_last_sequence st) passes of
        None \<Rightarrow> ([], Ok st)
      | Some (Inl e) \<Rightarrow> ([], Err e)
      | Some (Inr at_position) \<Rightarrow> drain_steps cx (st\<lparr>dr_read_position := at_position\<rparr>) steps)"

definition record_pressure :: "u64 \<Rightarrow> u64 \<Rightarrow> u64 \<Rightarrow> u8" where
  "record_pressure ring_capacity write_position read_position =
     (let limit = max (unat ring_capacity) 1;
          used = min (unat write_position - unat read_position) limit;
          percent = min (used * 100) (2 ^ 64 - 1) div limit in
      if percent < 256 then of_nat percent else 100)"

text \<open>The percentage is exact below the size at which the product saturates, and never above 100.\<close>

lemma record_pressure_bound: "unat (record_pressure c w r) \<le> 100"
proof -
  define limit where "limit = max (unat c) 1"
  define used where "used = min (unat w - unat r) limit"
  have "min (used * 100) (2 ^ 64 - 1) div limit \<le> (limit * 100) div limit"
    by (rule div_le_mono) (auto simp: used_def)
  also have "\<dots> = 100" by (simp add: limit_def)
  finally have "min (used * 100) (2 ^ 64 - 1) div limit \<le> 100" .
  then show ?thesis
    unfolding record_pressure_def Let_def limit_def [symmetric] used_def [symmetric] by (simp add: unat_of_nat)
qed

section \<open>What the items of a run account for\<close>

definition items_cover :: "ingest_item list \<Rightarrow> u64 set" where
  "items_cover handed = {s. \<exists>item \<in> set handed. covers (item_intervals item) s}"

definition reserved_in :: "'p drain_step \<Rightarrow> u64 set" where
  "reserved_in step =
     (case step of
        Pass p \<Rightarrow> (case ps_event p of Inr (e, _) \<Rightarrow> if is_reserved (rg_event_type e) then {rg_sequence e} else {} | Inl _ \<Rightarrow> {})
      | Replace _ _ \<Rightarrow> {})"

definition reserved_sequences :: "'p drain_step list \<Rightarrow> u64 set" where
  "reserved_sequences steps = (\<Union>step \<in> set steps. reserved_in step)"

lemma items_cover_simps [simp]:
  "items_cover [] = {}"
  "items_cover (item # handed) = {s. covers (item_intervals item) s} \<union> items_cover handed"
  by (auto simp: items_cover_def)

lemma reserved_sequences_simps [simp]:
  "reserved_sequences [] = {}"
  "reserved_sequences (step # steps) = reserved_in step \<union> reserved_sequences steps"
  by (simp_all add: reserved_sequences_def)

lemma option_list_simps [simp]: "option_list None = []" "option_list (Some a) = [a]"
  by (simp_all add: option_list_def)

lemma item_intervals_cover:
  "{s. covers (item_intervals item) s} =
     gaps_cover (item_gaps item) \<union> (if item_store_event item then {re_sequence (item_event item)} else {})"
  by (auto simp: item_intervals_def covers_def gaps_cover_def gap_set_def interval_contains_def)

lemma event_passed_Ok: "event_passed st at_position n e candidate router = Ok st' \<Longrightarrow> dr_reconciler st' = candidate"
  by (auto simp: event_passed_def rbind_Ok_iff)

lemma drain_event_Ok:
  assumes "drain_event cx p st at_position e n = Ok (handoff, Ok st')"
  shows "handoff = None \<and> dr_reconciler st' = dr_reconciler st \<or>
    (\<exists>obs candidate. observe (dr_reconciler st) (rg_sequence e) (rg_timestamp e) = Ok (obs, candidate) \<and> dr_reconciler st' = candidate \<and>
      map_option snd handoff = (if obs_store_event obs \<or> obs_gaps obs \<noteq> [] then Some \<lparr>item_gaps = obs_gaps obs,
        item_store_event = obs_store_event obs \<and> \<not> is_reserved (rg_event_type e),
        item_event = owned_event (cx_boot_id cx) (cx_cpu_id cx) e\<rparr> else None))"
proof -
  from assms obtain obs candidate where "observe (dr_reconciler st) (rg_sequence e) (rg_timestamp e) = Ok (obs, candidate)"
    by (auto simp: drain_event_def rbind_Ok_iff map_err_Ok_iff)
  moreover from this assms have "handoff = None \<and> dr_reconciler st' = dr_reconciler st \<or> dr_reconciler st' = candidate \<and>
      map_option snd handoff = (if obs_store_event obs \<or> obs_gaps obs \<noteq> [] then Some \<lparr>item_gaps = obs_gaps obs,
        item_store_event = obs_store_event obs \<and> \<not> is_reserved (rg_event_type e),
        item_event = owned_event (cx_boot_id cx) (cx_cpu_id cx) e\<rparr> else None)"
    by (cases "obs_store_event obs \<or> obs_gaps obs \<noteq> []"; cases "at_position < ps_tail_after p")
      (auto simp: drain_event_def map_err_def rbind_Ok_iff dest: event_passed_Ok)
  ultimately show ?thesis by blast
qed

text \<open>A pass that succeeds leaves the reconciler, or reads an event, observes it and hands over what is needed.\<close>

lemma drain_pass_Ok:
  assumes "drain_pass cx p st = (handoff, Ok st')"
  shows "handoff = None \<and> dr_reconciler st' = dr_reconciler st \<or>
    (\<exists>e n obs candidate. ps_event p = Inr (e, n) \<and> observe (dr_reconciler st) (rg_sequence e) (rg_timestamp e) = Ok (obs, candidate) \<and>
      dr_reconciler st' = candidate \<and>
      map_option snd handoff = (if obs_store_event obs \<or> obs_gaps obs \<noteq> [] then Some \<lparr>item_gaps = obs_gaps obs,
        item_store_event = obs_store_event obs \<and> \<not> is_reserved (rg_event_type e),
        item_event = owned_event (cx_boot_id cx) (cx_cpu_id cx) e\<rparr> else None))"
proof -
  from assms have read: "drain_read cx p st = Ok (handoff, Ok st')"
    by (simp add: drain_pass_def split: sum.splits)
  show ?thesis
  proof (cases "\<exists>at_position e n. ps_event p = Inr (e, n) \<and> drain_event cx p st at_position e n = Ok (handoff, Ok st')")
    case True
    then show ?thesis using drain_event_Ok by blast
  next
    case False
    with read have "handoff = None \<and> dr_reconciler st' = dr_reconciler st"
      by (auto simp: drain_read_def Let_def rbind_Ok_iff map_err_Ok_iff split: if_splits)
    then show ?thesis ..
  qed
qed

definition passed_window :: "reconciler \<Rightarrow> reconciler \<Rightarrow> u64 set" where
  "passed_window r r' = {s. next_sequence r \<le> s \<and> s < next_sequence r' \<and> \<not> rc_covered r s}"

definition well_handed :: "drain_context \<Rightarrow> ingest_item list \<Rightarrow> bool" where
  "well_handed cx handed \<longleftrightarrow> (\<forall>i \<in> set handed. item_wf i \<and> item_stream i = (cx_boot_id cx, cx_cpu_id cx))"

lemma observed_item:
  fixes cx :: drain_context
  assumes "observe r (rg_sequence e) (rg_timestamp e) = Ok (obs, candidate)" and "reconciler_wf r"
  defines "i \<equiv> \<lparr>item_gaps = obs_gaps obs, item_store_event = obs_store_event obs \<and> \<not> is_reserved (rg_event_type e),
    item_event = owned_event (cx_boot_id cx) (cx_cpu_id cx) e\<rparr>"
  defines "handed \<equiv> (if obs_store_event obs \<or> obs_gaps obs \<noteq> [] then [i] else [])"
  defines "kept \<equiv> (if is_reserved (rg_event_type e) then {rg_sequence e} else {})"
  shows "well_handed cx handed" and "passed_window r candidate \<union> kept = items_cover handed \<union> kept"
proof -
  note acc = observe_accounts [OF assms(1,2)]
  have "rg_sequence e \<noteq> 0" using assms(1) by (auto simp: observe_def)
  then have "item_wf i"
    using acc(2) by (auto simp: i_def item_wf_def gaps_ordered_def list_all_iff owned_event_def word_neq_0_conv)
  then show "well_handed cx handed"
    by (simp add: well_handed_def handed_def i_def item_stream_def owned_event_def)
  have "passed_window r candidate = gaps_cover (obs_gaps obs) \<union> (if obs_store_event obs then {rg_sequence e} else {})"
    by (simp add: passed_window_def acc(1) [symmetric] observed_new_def)
  moreover have "items_cover handed = gaps_cover (obs_gaps obs) \<union> (if obs_store_event obs \<and> \<not> is_reserved (rg_event_type e) then {rg_sequence e} else {})"
    by (simp add: handed_def item_intervals_cover i_def owned_event_def)
  ultimately show "passed_window r candidate \<union> kept = items_cover handed \<union> kept"
    by (simp add: kept_def)
qed

text \<open>The items handed over account for every sequence passed, up to those of reserved events.\<close>

definition drain_accounts :: "drain_context \<Rightarrow> reconciler \<Rightarrow> reconciler \<Rightarrow> ingest_item list \<Rightarrow> u64 set \<Rightarrow> bool" where
  "drain_accounts cx r r' handed kept \<longleftrightarrow>
     reconciler_wf r' \<and> same_stream r r' \<and> next_sequence r \<le> next_sequence r' \<and> well_handed cx handed \<and>
     passed_window r r' \<union> kept = items_cover handed \<union> kept"

lemma drain_accounts_refl: "reconciler_wf r \<Longrightarrow> drain_accounts cx r r [] kept"
  by (auto simp: drain_accounts_def same_stream_def well_handed_def passed_window_def)

lemma drain_accounts_append:
  assumes "drain_accounts cx r r1 handed kept" and "drain_accounts cx r1 r2 handed' kept'"
  shows "drain_accounts cx r r2 (handed @ handed') (kept \<union> kept')"
proof -
  have le: "next_sequence r \<le> next_sequence r1" "next_sequence r1 \<le> next_sequence r2" and cov: "rc_covered r1 = rc_covered r"
    using assms by (simp_all add: drain_accounts_def same_stream_def)
  have "next_sequence r \<le> s \<and> s < next_sequence r2 \<longleftrightarrow>
      (next_sequence r \<le> s \<and> s < next_sequence r1) \<or> (next_sequence r1 \<le> s \<and> s < next_sequence r2)" for s
    using le by (meson leD leI le_less_trans less_imp_le order.trans)
  then have "passed_window r r2 = passed_window r r1 \<union> passed_window r1 r2"
    unfolding passed_window_def cov by blast
  moreover have "items_cover (handed @ handed') = items_cover handed \<union> items_cover handed'"
    by (auto simp: items_cover_def)
  ultimately have "passed_window r r2 \<union> (kept \<union> kept') = items_cover (handed @ handed') \<union> (kept \<union> kept')"
    using assms unfolding drain_accounts_def by blast
  with assms le show ?thesis by (auto simp: drain_accounts_def same_stream_def well_handed_def)
qed

lemma drain_pass_accounts:
  assumes "drain_pass cx p st = (handoff, Ok st')" and "reconciler_wf (dr_reconciler st)"
  shows "drain_accounts cx (dr_reconciler st) (dr_reconciler st') (map snd (option_list handoff)) (reserved_in (Pass p))"
  using drain_pass_Ok [OF assms(1)]
proof (elim disjE exE conjE)
  assume "handoff = None" "dr_reconciler st' = dr_reconciler st"
  then show ?thesis using assms(2) by (simp add: drain_accounts_refl)
next
  fix e n obs candidate
  assume e: "ps_event p = Inr (e, n)" and o: "observe (dr_reconciler st) (rg_sequence e) (rg_timestamp e) = Ok (obs, candidate)"
    and st': "dr_reconciler st' = candidate"
    and h: "map_option snd handoff = (if obs_store_event obs \<or> obs_gaps obs \<noteq> [] then Some \<lparr>item_gaps = obs_gaps obs,
      item_store_event = obs_store_event obs \<and> \<not> is_reserved (rg_event_type e),
      item_event = owned_event (cx_boot_id cx) (cx_cpu_id cx) e\<rparr> else None)"
  have "map snd (option_list handoff) = option_list (map_option snd handoff)" by (cases handoff) simp_all
  also note h
  finally have "map snd (option_list handoff) = (if obs_store_event obs \<or> obs_gaps obs \<noteq> [] then [\<lparr>item_gaps = obs_gaps obs,
      item_store_event = obs_store_event obs \<and> \<not> is_reserved (rg_event_type e),
      item_event = owned_event (cx_boot_id cx) (cx_cpu_id cx) e\<rparr>] else [])" by simp
  moreover have "reserved_in (Pass p) = (if is_reserved (rg_event_type e) then {rg_sequence e} else {})"
    by (simp add: reserved_in_def e)
  ultimately show ?thesis
    using observed_item [OF o assms(2), of cx] observe_wf [OF o assms(2)] unfolding drain_accounts_def st' by (simp only: simp_thms)
qed

lemma drain_steps_accounts:
  assumes "drain_steps cx st steps = (handed, Ok st')" and "reconciler_wf (dr_reconciler st)"
  shows "drain_accounts cx (dr_reconciler st) (dr_reconciler st') (map snd handed) (reserved_sequences steps)"
  using assms
proof (induction cx st steps arbitrary: handed rule: drain_steps.induct)
  case (1 cx st)
  then show ?case by (simp add: drain_accounts_refl)
next
  case (2 cx st p steps)
  then obtain handoff st1 rest where p: "drain_pass cx p st = (handoff, Ok st1)" and rest: "drain_steps cx st1 steps = (rest, Ok st')"
    and handed: "handed = option_list handoff @ rest"
    by (auto split: prod.splits sum.splits)
  note first = drain_pass_accounts [OF p "2.prems"(2)]
  then have "reconciler_wf (dr_reconciler st1)" by (simp add: drain_accounts_def)
  with "2.IH" [OF p [symmetric] refl rest] first show ?case
    by (simp add: handed drain_accounts_append)
next
  case (3 cx st mapped passes steps)
  show ?case
  proof (cases "replacement_ring mapped (dr_last_sequence st) passes")
    case None
    with "3.prems" show ?thesis by (auto simp: drain_accounts_refl)
  next
    case (Some found)
    then obtain at_position where "replacement_ring mapped (dr_last_sequence st) passes = Some (Inr at_position)"
      using "3.prems"(1) by (cases found) auto
    with "3.IH" [OF this refl] "3.prems" show ?thesis by (simp add: reserved_in_def)
  qed
qed

text \<open>A replaced ring is entered at its end or at an event the drain has not seen.\<close>

lemma replacement_loop_new:
  assumes "replacement_loop last_seen at_position passes = Some (Ok found)"
  shows "\<exists>p \<in> set passes. ps_write p \<le> found \<or> (\<exists>e n. ps_event p = Inr (e, n) \<and> last_seen < rg_sequence e \<and> ps_tail_after p \<le> found)"
  using assms
proof (induction last_seen at_position passes rule: replacement_loop.induct)
  case (2 last_seen at_position p passes)
  then show ?case by (auto simp: Let_def split: if_splits sum.splits prod.splits)
qed simp

end
