(* ===== verification/Restart.thy ===== *)
theory Restart
  imports Drain
begin

text \<open>
  A restart: reading the receipts back (\<^verbatim>\<open>read_receipts\<close> of \<^verbatim>\<open>eventd-core/src/shard.rs\<close>, \<^verbatim>\<open>load_receipts\<close> and
  \<^verbatim>\<open>load_coverage\<close> of \<^verbatim>\<open>eventd/src/pipeline.rs\<close>), and the whole path of a sequence through the daemon, from the ring by
  the drain, the writers' commits and the receipt tables to the reconciler of the next start. Opening a store,
  validating its schema and running the query are a parameter.
\<close>

section \<open>Loading the receipts\<close>

type_synonym receipt_row = "u8 list \<times> u16 \<times> u64 \<times> u64"

type_synonym 'e receipt_query = "tables \<Rightarrow> 'e shard_error + ('e + receipt_row) list"

definition read_row :: "'e + receipt_row \<Rightarrow> (guid \<times> u16 \<times> interval) list \<Rightarrow> 'e shard_error + (guid \<times> u16 \<times> interval) list" where
  "read_row row receipts =
     rbind (map_err ShardSql row) (\<lambda>(boot, cpu, fst_seq, lst_seq).
       if length boot \<noteq> 16 then Err (ShardInvalidSchema ''receipt boot_id is not 16 bytes'')
       else case interval_new fst_seq lst_seq of
         None \<Rightarrow> Err (ShardInvalidSchema ''receipt interval is invalid'')
       | Some iv \<Rightarrow> Ok (receipts @ [(boot, cpu, iv)]))"

definition read_receipts :: "('e + receipt_row) list \<Rightarrow> 'e shard_error + (guid \<times> u16 \<times> interval) list" where
  "read_receipts rows = try_fold read_row rows []"

definition historical_receipts :: "'e receipt_query \<Rightarrow> tables \<Rightarrow> 'e shard_error + (guid \<times> u16 \<times> interval) list" where
  "historical_receipts query t = rbind (query t) read_receipts"

definition load_receipts :: "'e receipt_query \<Rightarrow> tables list \<Rightarrow> tables list \<Rightarrow> 'e shard_error + (guid \<times> u16 \<times> interval) list" where
  "load_receipts query active historical =
     try_fold (\<lambda>t receipts. rbind (historical_receipts query t) (\<lambda>rows. Ok (receipts @ rows))) (active @ historical) []"

definition load_coverage :: "(interval list \<Rightarrow> interval list) \<Rightarrow> 'e receipt_query \<Rightarrow> tables list \<Rightarrow> tables list \<Rightarrow> 'e shard_error + coverage" where
  "load_coverage sort_by_first query active historical =
     rbind (load_receipts query active historical) (\<lambda>receipts. Ok (from_receipts sort_by_first receipts))"

text \<open>The query returns every row of the table, in any order.\<close>

definition row_of :: "guid \<times> u16 \<times> interval \<Rightarrow> receipt_row" where
  "row_of = (\<lambda>(boot, cpu, iv). (boot, cpu, iv_first iv, iv_last iv))"

definition query_documented :: "'e receipt_query \<Rightarrow> bool" where
  "query_documented query \<longleftrightarrow>
     (\<forall>t rows. query t = Ok (map Inr rows) \<longrightarrow> set rows = row_of ` tb_receipt_ranges t)"

lemma row_of_inject [simp]: "row_of x = row_of y \<longleftrightarrow> x = y"
  by (cases x; cases y) (auto simp: row_of_def)

lemma read_row_Ok:
  assumes "read_row row receipts = Ok receipts'"
  shows "\<exists>x. row = Inr (row_of x) \<and> receipts' = receipts @ [x] \<and> interval_wf (snd (snd x))"
  using assms
  by (auto simp: read_row_def rbind_Ok_iff map_err_Ok_iff row_of_def interval_new_def interval_wf_def split: if_splits option.splits)

lemma read_rows_Ok:
  assumes "try_fold read_row rows receipts = Ok receipts'"
  shows "\<exists>xs. rows = map Inr (map row_of xs) \<and> receipts' = receipts @ xs \<and> (\<forall>x \<in> set xs. interval_wf (snd (snd x)))"
  using assms
proof (induction rows arbitrary: receipts)
  case (Cons row rows)
  then obtain mid where "read_row row receipts = Ok mid" and rest: "try_fold read_row rows mid = Ok receipts'"
    by (auto simp: rbind_Ok_iff)
  then obtain x where x: "row = Inr (row_of x)" "mid = receipts @ [x]" "interval_wf (snd (snd x))"
    using read_row_Ok by blast
  from Cons.IH [OF rest] obtain xs where "rows = map Inr (map row_of xs)" "receipts' = mid @ xs"
    "\<forall>x \<in> set xs. interval_wf (snd (snd x))" by blast
  with x show ?case by (intro exI [of _ "x # xs"]) simp
qed simp

lemma historical_receipts_Ok:
  assumes "query_documented query" and "historical_receipts query t = Ok receipts"
  shows "set receipts = tb_receipt_ranges t \<and> (\<forall>x \<in> set receipts. interval_wf (snd (snd x)))"
proof -
  from assms(2) obtain rows where q: "query t = Ok rows" "try_fold read_row rows [] = Ok receipts"
    by (auto simp: historical_receipts_def read_receipts_def rbind_Ok_iff)
  from read_rows_Ok [OF q(2)] have rows: "rows = map Inr (map row_of receipts)"
    and wf: "\<forall>x \<in> set receipts. interval_wf (snd (snd x))" by auto
  have "row_of ` set receipts = row_of ` tb_receipt_ranges t"
    using assms(1) q(1) unfolding query_documented_def rows by (metis set_map)
  then have "set receipts = tb_receipt_ranges t" by (simp add: inj_image_eq_iff inj_def)
  with wf show ?thesis by simp
qed

lemma load_stores_Ok:
  assumes "query_documented query"
    and "try_fold (\<lambda>t receipts. rbind (historical_receipts query t) (\<lambda>rows. Ok (receipts @ rows))) stores receipts = Ok receipts'"
  shows "set receipts' = set receipts \<union> (\<Union>t \<in> set stores. tb_receipt_ranges t) \<and>
    ((\<forall>x \<in> set receipts. interval_wf (snd (snd x))) \<longrightarrow> (\<forall>x \<in> set receipts'. interval_wf (snd (snd x))))"
  using assms(2)
proof (induction stores arbitrary: receipts)
  case (Cons t stores)
  then obtain rows where rows: "historical_receipts query t = Ok rows"
    and rest: "try_fold (\<lambda>t receipts. rbind (historical_receipts query t) (\<lambda>rows. Ok (receipts @ rows))) stores (receipts @ rows) = Ok receipts'"
    by (auto simp: rbind_Ok_iff)
  show ?case using Cons.IH [OF rest] historical_receipts_Ok [OF assms(1) rows] by auto
qed simp

definition stores_cover :: "tables list \<Rightarrow> guid \<Rightarrow> u16 \<Rightarrow> u64 \<Rightarrow> bool" where
  "stores_cover stores boot cpu s \<longleftrightarrow> (\<exists>t \<in> set stores. shard_covers t boot cpu s)"

lemma load_coverage_Ok:
  assumes "query_documented query" and "unstable_sort sort_by_first"
    and "load_coverage sort_by_first query active historical = Ok cov"
  shows "coverage_wf cov \<and> (\<forall>boot cpu s. coverage_contains cov boot cpu s \<longleftrightarrow> stores_cover (active @ historical) boot cpu s)"
proof -
  from assms(3) obtain receipts where receipts: "cov = from_receipts sort_by_first receipts"
    and "load_receipts query active historical = Ok receipts"
    by (auto simp: load_coverage_def rbind_Ok_iff)
  note loaded = load_stores_Ok [OF assms(1) this(2) [unfolded load_receipts_def]]
  then have rows: "set receipts = (\<Union>t \<in> set (active @ historical). tb_receipt_ranges t)" by simp
  from loaded have "\<forall>x \<in> set receipts. interval_wf (snd (snd x))" by simp
  then have "\<forall>(boot, cpu, iv) \<in> set receipts. interval_wf iv" by (simp add: split_beta)
  note union = from_receipts_union [OF assms(2) this]
  show ?thesis using union unfolding receipts by (auto simp: rows stores_cover_def shard_covers_def)
qed

section \<open>The writers\<close>

text \<open>The commits of all writers in the order they took place, each with the shard it went to.\<close>

fun commit_batches :: "'e sql \<Rightarrow> (interval list \<Rightarrow> interval list) \<Rightarrow> (stream_map \<Rightarrow> (guid \<times> u16) list) \<Rightarrow> 'e shard_error + unit \<Rightarrow>
    ('e shard_error \<Rightarrow> bool) \<Rightarrow> shard list \<Rightarrow> (nat \<times> ingest_item list) list \<Rightarrow> shard list option" where
  "commit_batches sql sort_by_first iterate checkpoint is_capacity shards [] = Some shards"
| "commit_batches sql sort_by_first iterate checkpoint is_capacity shards ((i, entries) # batches) =
     (if i < length shards then
        case shard_commit sql sort_by_first iterate checkpoint is_capacity (shards ! i) entries of
          (Inr stats, shard) \<Rightarrow> commit_batches sql sort_by_first iterate checkpoint is_capacity (shards[i := shard]) batches
        | (Inl e, shard) \<Rightarrow> None
      else None)"

definition shards_cover :: "shard list \<Rightarrow> guid \<Rightarrow> u16 \<Rightarrow> u64 \<Rightarrow> bool" where
  "shards_cover shards = stores_cover (map sh_tables shards)"

lemma shards_cover_nth: "shards_cover shards boot cpu s \<longleftrightarrow> (\<exists>j < length shards. shard_covers (sh_tables (shards ! j)) boot cpu s)"
  by (auto simp: shards_cover_def stores_cover_def set_conv_nth)

lemma shards_cover_update:
  assumes "i < length shards" and "batch_stored entries (sh_tables (shards ! i)) (sh_tables shard)"
  shows "shards_cover (shards[i := shard]) boot cpu s \<longleftrightarrow> shards_cover shards boot cpu s \<or>
    (\<exists>item \<in> set entries. item_stream item = (boot, cpu) \<and> covers (item_intervals item) s)"
proof -
  have "shard_covers (sh_tables shard) boot cpu s \<longleftrightarrow> shard_covers (sh_tables (shards ! i)) boot cpu s \<or>
      (\<exists>item \<in> set entries. item_stream item = (boot, cpu) \<and> covers (item_intervals item) s)"
    using assms(2) by (simp add: batch_stored_def)
  then show ?thesis
    using assms(1) unfolding shards_cover_nth by (metis length_list_update nth_list_update_eq nth_list_update_neq)
qed

lemma commit_batches_Ok:
  assumes "sql_documented sql" and "unstable_sort sort_by_first" and "\<forall>m. finite (dom m) \<longrightarrow> set (iterate m) = dom m"
    and "commit_batches sql sort_by_first iterate checkpoint is_capacity shards batches = Some shards'"
    and "\<forall>(i, entries) \<in> set batches. \<forall>item \<in> set entries. item_wf item"
  shows "shards_cover shards' boot cpu s \<longleftrightarrow> shards_cover shards boot cpu s \<or>
    (\<exists>(i, entries) \<in> set batches. \<exists>item \<in> set entries. item_stream item = (boot, cpu) \<and> covers (item_intervals item) s)"
  using assms(4,5)
proof (induction batches arbitrary: shards)
  case (Cons batch batches)
  obtain i entries where batch: "batch = (i, entries)" by (cases batch)
  obtain result shard where c: "shard_commit sql sort_by_first iterate checkpoint is_capacity (shards ! i) entries = (result, shard)"
    by (cases "shard_commit sql sort_by_first iterate checkpoint is_capacity (shards ! i) entries")
  from Cons.prems(1) obtain stats where i: "i < length shards" and "result = Inr stats"
    and rest: "commit_batches sql sort_by_first iterate checkpoint is_capacity (shards[i := shard]) batches = Some shards'"
    by (auto simp: batch c split: if_splits sum.splits)
  moreover have "\<forall>item \<in> set entries. item_wf item" using Cons.prems(2) by (simp add: batch)
  ultimately have "batch_stored entries (sh_tables (shards ! i)) (sh_tables shard)"
    using shard_commit_result [OF assms(1-3) _ c] by simp
  from shards_cover_update [OF i this] Cons.IH [OF rest] Cons.prems(2) show ?case
    by (simp add: batch disj_assoc)
qed simp

section \<open>Properties\<close>

text \<open>
  C2. Across a restart no sequence is reported lost that the daemon had passed, but for events of a type
  eventd writes itself. A drain that starts from the receipts in the stores and whose items the writers commit,
  to whichever shards, in whichever batches and among those of other streams, leaves a receipt in the stores for
  every sequence below the one it expects next, or the sequence is that of a reserved event. What the next
  start reports lost lies above, or is such an event.
\<close>

theorem restart_loses_only_reserved:
  assumes "sql_documented sql" and "query_documented query" and "unstable_sort sort_by_first"
    and "\<forall>m. finite (dom m) \<longrightarrow> set (iterate m) = dom m"
    and "load_coverage sort_by_first query (map sh_tables shards) historical = Ok cov"
    and "drain_steps cx (drain_start cx cov router tail) steps = (handed, Ok st)"
    and "commit_batches sql sort_by_first iterate checkpoint is_capacity shards batches = Some shards'"
    and "\<forall>(i, batch) \<in> set batches. \<forall>item \<in> set batch. item_wf item"
    and "\<forall>(i, item) \<in> set handed. \<exists>batch. (i, batch) \<in> set batches \<and> item \<in> set batch"
    and "load_coverage sort_by_first query (map sh_tables shards') historical = Ok cov'"
    and "observe_all (reconciler_new cov' (cx_boot_id cx) (cx_cpu_id cx)) survivors = Ok (obss, r')"
  shows "{s. 1 \<le> s \<and> s < next_sequence (dr_reconciler st)} \<subseteq>
      {s. coverage_contains cov' (cx_boot_id cx) (cx_cpu_id cx) s} \<union> reserved_sequences steps \<and>
    gaps_cover (reported_gaps obss) \<inter> {s. s < next_sequence (dr_reconciler st)} \<subseteq> reserved_sequences steps"
proof -
  let ?boot = "cx_boot_id cx" and ?cpu = "cx_cpu_id cx" and ?r = "dr_reconciler st"
  note before = load_coverage_Ok [OF assms(2,3,5)] and after = load_coverage_Ok [OF assms(2,3,10)]
  have fresh: "reconciler_wf (reconciler_new c ?boot ?cpu)" if "coverage_wf c" for c
    using that by (simp add: reconciler_wf_def reconciler_new_def)
  have start: "dr_reconciler (drain_start cx cov router tail) = reconciler_new cov ?boot ?cpu" by (simp add: drain_start_def)
  have drained: "drain_accounts cx (reconciler_new cov ?boot ?cpu) ?r (map snd handed) (reserved_sequences steps)"
    using drain_steps_accounts [OF assms(6)] fresh before by (simp add: start)
  have stores: "stores_cover (map sh_tables shs @ historical) boot cpu s \<longleftrightarrow> shards_cover shs boot cpu s \<or> stores_cover historical boot cpu s"
    for shs boot cpu s by (auto simp: shards_cover_def stores_cover_def)
  have kept: "coverage_contains cov' ?boot ?cpu s" if "coverage_contains cov ?boot ?cpu s" for s
    using that before after commit_batches_Ok [OF assms(1,3,4,7,8)] by (auto simp: stores)
  have new: "coverage_contains cov' ?boot ?cpu s" if "s \<in> items_cover (map snd handed)" for s
  proof -
    from that obtain i item where item: "(i, item) \<in> set handed" "covers (item_intervals item) s" by (auto simp: items_cover_def)
    then have "item_stream item = (?boot, ?cpu)" using drained by (auto simp: drain_accounts_def well_handed_def)
    with item assms(9) have "\<exists>(i, batch) \<in> set batches. \<exists>item \<in> set batch. item_stream item = (?boot, ?cpu) \<and> covers (item_intervals item) s"
      by fast
    then show ?thesis using after commit_batches_Ok [OF assms(1,3,4,7,8)] by (simp add: stores)
  qed
  have "{s. 1 \<le> s \<and> s < next_sequence ?r \<and> \<not> coverage_contains cov ?boot ?cpu s} \<union> reserved_sequences steps =
      items_cover (map snd handed) \<union> reserved_sequences steps"
    using drained by (simp add: drain_accounts_def passed_window_def reconciler_new_def)
  then have "s \<in> reserved_sequences steps \<or> coverage_contains cov' ?boot ?cpu s" if "1 \<le> s" "s < next_sequence ?r" for s
    using kept new that by blast
  moreover have "1 \<le> s \<and> \<not> coverage_contains cov' ?boot ?cpu s" if "s \<in> gaps_cover (reported_gaps obss)" for s
  proof -
    have "accounts (coverage_contains cov' ?boot ?cpu) 1 (next_sequence r') (reported_gaps obss) (stored_sequences survivors obss)"
      using observe_all_accounts [OF assms(11) fresh [OF after [THEN conjunct1]]] by (simp add: reconciler_new_def)
    with that show ?thesis unfolding accounts_def by blast
  qed
  ultimately show ?thesis by blast
qed

section \<open>A run and a restart\<close>

abbreviation sample_boot :: guid where
  "sample_boot \<equiv> replicate 16 7"

abbreviation sample_sql :: "unit sql" where
  "sample_sql \<equiv> \<lambda>s t. Ok (effect s t)"

definition sample_query :: "unit receipt_query" where
  "sample_query t =
     (if finite (tb_receipt_ranges t) then Ok (map Inr (sorted_list_of_set (row_of ` tb_receipt_ranges t))) else Err ShardIo)"

lemma sample_query_documented: "query_documented sample_query"
  by (auto simp: query_documented_def sample_query_def inj_map_eq_map split: if_splits)

definition sample_ring_event :: "u64 \<Rightarrow> string \<Rightarrow> ring_event" where
  "sample_ring_event sequence event_type =
     \<lparr>rg_cpu_id = 3, rg_sequence = sequence, rg_timestamp = 10 * sequence, rg_origin_class = Userspace, rg_effective_token_guid = [],
      rg_true_token_guid = [], rg_process_guid = [], rg_event_type = event_type, rg_payload = []\<rparr>"

definition sample_pass :: "u64 \<Rightarrow> string \<Rightarrow> unit drain_step" where
  "sample_pass sequence event_type =
     Pass \<lparr>ps_tail = 0, ps_write = 400, ps_event = Inr (sample_ring_event sequence event_type, 100), ps_tail_after = 0, ps_tail_resume = 0,
       ps_reserve = (\<lambda>_ _. Ok ())\<rparr>"

definition sample_context :: drain_context where
  "sample_context = \<lparr>cx_boot_id = sample_boot, cx_cpu_id = 3, cx_message_size = 200, cx_gap_size = 40\<rparr>"

definition sample_router :: stripe_router where
  "sample_router = \<lparr>router_shards = [0, 1], stripe_length = 1, shard_index = 0, sent_in_stripe = 0\<rparr>"

definition sample_drained :: "u64 \<Rightarrow> string \<Rightarrow> ingest_item" where
  "sample_drained sequence event_type =
     \<lparr>item_gaps = [], item_store_event = \<not> is_reserved event_type,
      item_event = owned_event sample_boot 3 (sample_ring_event sequence event_type)\<rparr>"

abbreviation sample_commits :: "shard list \<Rightarrow> (nat \<times> ingest_item list) list \<Rightarrow> shard list option" where
  "sample_commits \<equiv> commit_batches sample_sql (sort_key iv_first) (\<lambda>m. sorted_list_of_set (dom m)) (Ok ()) (\<lambda>_. False)"

abbreviation sample_load :: "shard list \<Rightarrow> unit shard_error + coverage" where
  "sample_load shards \<equiv> load_coverage (sort_key iv_first) sample_query (map sh_tables shards) []"

lemma sample_load_empty: "sample_load [empty_shard, empty_shard] = Ok Map.empty"
  by (simp add: load_coverage_def load_receipts_def historical_receipts_def read_receipts_def sample_query_def empty_shard_def from_receipts_def)

definition sample_steps :: "unit drain_step list" where
  "sample_steps = [sample_pass 1 ''a'', sample_pass 2 EVENTS_LOST, sample_pass 3 ''a'']"

definition sample_handed :: "(nat \<times> ingest_item) list" where
  "sample_handed = [(0, sample_drained 1 ''a''), (1, sample_drained 2 EVENTS_LOST), (0, sample_drained 3 ''a'')]"

definition sample_batches :: "(nat \<times> ingest_item list) list" where
  "sample_batches = [(0, [sample_drained 1 ''a'', sample_drained 3 ''a'']), (1, [sample_drained 2 EVENTS_LOST])]"

lemma sample_types_reserved [simp]: "is_reserved EVENTS_LOST" "\<not> is_reserved ''a''"
  by (simp_all add: is_reserved_def is_store_written_def STORE_WRITTEN_TYPES_def DAEMON_STARTED_def DAEMON_STOPPED_def EVENTS_LOST_def
      STORE_QUARANTINED_def CONFIG_CHANGED_def)

lemma empty_coverage: "coverage_contains Map.empty boot cpu s = False" "coverage_intervals Map.empty boot cpu = []"
  by (simp_all add: coverage_contains_def coverage_intervals_def)

lemma sample_drain:
  "drain_steps sample_context (drain_start sample_context Map.empty sample_router 0) sample_steps =
     (sample_handed, Ok \<lparr>dr_read_position = 300, dr_last_sequence = Some 3,
       dr_reconciler = \<lparr>rc_coverage = Map.empty, rc_boot_id = sample_boot, rc_cpu_id = 3, next_sequence = 4, preceding_timestamp = Some 30\<rparr>,
       dr_router = sample_router\<lparr>shard_index := 1\<rparr>\<rparr>)"
  by (simp add: sample_steps_def sample_handed_def sample_drained_def sample_pass_def sample_context_def sample_router_def drain_start_def
      drain_pass_def drain_read_def drain_event_def event_passed_def ring_advance_def checked_add_def current_shard_def advance_def
      observe_def reconciler_new_def empty_coverage uncovered_gaps_def sample_ring_event_def map_err_def checked_succ_def Let_def)

definition sample_shards :: "shard list" where
  "sample_shards = [\<lparr>sh_tables = \<lparr>tb_events = map (\<lambda>n. event_stored (item_event (sample_drained n ''a''))) [1, 3], tb_event_types = {''a''},
       tb_receipt_ranges = {(sample_boot, 3, \<lparr>iv_first = 1, iv_last = 1\<rparr>), (sample_boot, 3, \<lparr>iv_first = 3, iv_last = 3\<rparr>)}\<rparr>,
     sh_known_types = {''a''}\<rparr>, empty_shard]"

lemma sample_committed: "sample_commits [empty_shard, empty_shard] sample_batches = Some sample_shards"
  by (simp add: sample_batches_def shard_commit_def commit_transaction_def run_sql_def execute_def map_err_def effect_def commit_item_def
      sample_drained_def owned_event_def sample_ring_event_def empty_shard_def insert_row_def intern_type_def event_row_of_def
      checked_integer_def sqlite_integer_def item_intervals_def insert_stream_def shard_merge_eq merge_intervals_def merge_interval_def
      insert_receipt_range_def after_commit_def Let_def saturating_succ_def sample_shards_def event_stored_def insert_commute)

definition sample_coverage :: coverage where
  "sample_coverage = [(sample_boot, 3) \<mapsto> [\<lparr>iv_first = 1, iv_last = 1\<rparr>, \<lparr>iv_first = 3, iv_last = 3\<rparr>]]"

lemma sample_rows:
  "sample_query (sh_tables (sample_shards ! 0)) = Ok [Inr (sample_boot, 3, 1, 1), Inr (sample_boot, 3, 3, 3)]"
  "sample_query (sh_tables (sample_shards ! Suc 0)) = Ok []"
  by (simp_all add: sample_query_def sample_shards_def empty_shard_def row_of_def less_eq_prod_def less_prod_def)

lemma sample_loaded: "sample_load sample_shards = Ok sample_coverage"
proof -
  have "map sh_tables sample_shards = [sh_tables (sample_shards ! 0), sh_tables (sample_shards ! 1)]"
    by (simp add: sample_shards_def)
  moreover have "from_receipts (sort_key iv_first) [(sample_boot, 3, \<lparr>iv_first = 1, iv_last = 1\<rparr>), (sample_boot, 3, \<lparr>iv_first = 3, iv_last = 3\<rparr>)] =
      sample_coverage"
    by (rule ext) (simp add: from_receipts_eq sample_coverage_def stream_receipts_def merge_intervals_def merge_interval_def saturating_succ_def
        word_order)
  ultimately show ?thesis
    by (simp add: load_coverage_def load_receipts_def historical_receipts_def sample_rows read_receipts_def read_row_def map_err_def
        interval_new_def)
qed

lemma sample_restart:
  "observe_all (reconciler_new sample_coverage sample_boot 3) [(3, 30)] =
     Ok ([\<lparr>obs_store_event = False, obs_gaps = [make_gap 2 2 None 30]\<rparr>],
         (reconciler_new sample_coverage sample_boot 3) \<lparr>next_sequence := 4, preceding_timestamp := Some 30\<rparr>)"
  by (simp add: reconciler_new_def observe_def uncovered_gaps_def sample_coverage_def coverage_contains_def coverage_intervals_def
      partition_point_def interval_contains_def checked_succ_def saturating_succ_def max_def Let_def word_order)

lemma sample_reserved_sequences: "reserved_sequences sample_steps = {2}"
  by (simp add: reserved_in_def sample_steps_def sample_pass_def sample_ring_event_def)

theorem restart_loses_only_reserved_witness:
  "{s. 1 \<le> s \<and> s < 4} \<subseteq> {s. coverage_contains sample_coverage sample_boot 3 s} \<union> {2} \<and>
   sample_load sample_shards = Ok sample_coverage"
proof -
  have sql: "sql_documented sample_sql" by (simp add: sql_documented_def)
  have wf: "\<forall>(i, batch) \<in> set sample_batches. \<forall>item \<in> set batch. item_wf item"
    by (simp add: sample_batches_def item_wf_def sample_drained_def owned_event_def sample_ring_event_def)
  have sub: "\<forall>(i, item) \<in> set sample_handed. \<exists>batch. (i, batch) \<in> set sample_batches \<and> item \<in> set batch"
    by (auto simp: sample_handed_def sample_batches_def)
  have restart: "observe_all (reconciler_new sample_coverage (cx_boot_id sample_context) (cx_cpu_id sample_context)) [(3, 30)] =
      Ok ([\<lparr>obs_store_event = False, obs_gaps = [make_gap 2 2 None 30]\<rparr>],
         (reconciler_new sample_coverage sample_boot 3) \<lparr>next_sequence := 4, preceding_timestamp := Some 30\<rparr>)"
    using sample_restart by (simp add: sample_context_def)
  from restart_loses_only_reserved [OF sql sample_query_documented stable_sort.unstable_sort_axioms _ sample_load_empty sample_drain
      sample_committed wf sub sample_loaded restart]
  show ?thesis using sample_loaded by (simp add: sample_reserved_sequences sample_context_def)
qed


end
