(* ===== verification/Synthetic.thy ===== *)
theory Synthetic
  imports Shard_Commit Msgpack_Grammar
begin

unbundle bit_operations_syntax

text \<open>
  The records eventd writes about itself (\<^verbatim>\<open>eventd/src/synthetic.rs\<close>, and the record of a loss of
  \<^verbatim>\<open>eventd-core/src/shard.rs\<close>): the bytes of their payloads, against the documents they are said to hold. Their writers
  use 16-bit lengths for texts and lists and panic beyond them.
\<close>

section \<open>Packing\<close>

definition syn_pack_str :: "u8 list \<Rightarrow> string \<Rightarrow> panic + u8 list" where
  "syn_pack_str output v =
     (if length v \<le> 31 then Ok (output @ (0xa0 OR of_nat (length v)) # map byte_of v)
      else if length v \<le> 255 then Ok (output @ 0xd9 # of_nat (length v) # map byte_of v)
      else if length v < 65536 then Ok (output @ 0xda # to_be_bytes 2 (length v) @ map byte_of v)
      else Err Panic)"

definition syn_pack_u64 :: "u8 list \<Rightarrow> u64 \<Rightarrow> u8 list" where
  "syn_pack_u64 output v =
     (if v \<le> 0x7f then output @ [ucast v]
      else if v \<le> 0xff then output @ [0xcc] @ [ucast v]
      else if v \<le> 0xffff then output @ [0xcd] @ to_be_bytes 2 (unat v)
      else if v \<le> 0xffffffff then output @ [0xce] @ to_be_bytes 4 (unat v)
      else output @ [0xcf] @ to_be_bytes 8 (unat v))"

definition pack_array_len :: "u8 list \<Rightarrow> nat \<Rightarrow> panic + u8 list" where
  "pack_array_len output n =
     (if n \<le> 15 then Ok (output @ [0x90 OR of_nat n])
      else if n < 65536 then Ok (output @ 0xdc # to_be_bytes 2 n)
      else Err Panic)"

definition pack_parallel_arrays :: "u8 list \<Rightarrow> (u16 \<times> u64) list \<Rightarrow> panic + u8 list" where
  "pack_parallel_arrays output points =
     rbind (syn_pack_str (output @ [0x82]) ''cpus'') (\<lambda>output.
     rbind (pack_array_len output (length points)) (\<lambda>output.
     let output = foldl (\<lambda>output (cpu_id, _). syn_pack_u64 output (ucast cpu_id)) output points in
     rbind (syn_pack_str output ''sequences'') (\<lambda>output.
     rbind (pack_array_len output (length points)) (\<lambda>output.
       Ok (foldl (\<lambda>output (_, sequence). syn_pack_u64 output sequence) output points)))))"

section \<open>The records\<close>

definition synthetic_of :: "guid \<Rightarrow> u64 \<Rightarrow> string \<Rightarrow> u8 list \<Rightarrow> synthetic_event" where
  "synthetic_of boot_id timestamp event_type payload =
     \<lparr>syn_boot_id = boot_id, syn_timestamp = timestamp, syn_event_type = event_type, syn_payload = payload\<rparr>"

definition startup :: "guid \<Rightarrow> bool \<Rightarrow> u64 \<Rightarrow> (u16 \<times> u64) list \<Rightarrow> u64 \<Rightarrow> panic + synthetic_event" where
  "startup boot_id restart shard_count resume_points timestamp =
     rbind (syn_pack_str [0x81] ''store'') (\<lambda>payload.
     rbind (syn_pack_str (payload @ [0x83]) ''restarted'') (\<lambda>payload.
     rbind (syn_pack_str (payload @ [if restart then 0xc3 else 0xc2]) ''shard-count'') (\<lambda>payload.
     rbind (syn_pack_str (syn_pack_u64 payload shard_count) ''resume'') (\<lambda>payload.
     rbind (pack_parallel_arrays payload resume_points) (\<lambda>payload.
       Ok (synthetic_of boot_id timestamp DAEMON_STARTED payload))))))"

definition shutdown :: "guid \<Rightarrow> (u16 \<times> u64) list option \<Rightarrow> u64 \<Rightarrow> panic + synthetic_event" where
  "shutdown boot_id committed timestamp =
     rbind
       (case committed of
          Some points \<Rightarrow>
            rbind (syn_pack_str [0x81] ''store'') (\<lambda>payload.
            rbind (syn_pack_str (payload @ [0x81]) ''committed'') (\<lambda>payload.
              pack_parallel_arrays payload points))
        | None \<Rightarrow> Ok [0x80])
       (\<lambda>payload. Ok (synthetic_of boot_id timestamp DAEMON_STOPPED payload))"

definition storage_error :: "guid \<Rightarrow> string \<Rightarrow> u64 option \<Rightarrow> string \<Rightarrow> u64 \<Rightarrow> panic + synthetic_event" where
  "storage_error boot_id store shard_index err timestamp =
     rbind (syn_pack_str [0x82] ''store'') (\<lambda>payload.
     rbind (syn_pack_str (payload @ [if shard_index \<noteq> None then 0x82 else 0x81]) ''kind'') (\<lambda>payload.
     rbind (syn_pack_str payload store) (\<lambda>payload.
     rbind
       (case shard_index of
          Some index \<Rightarrow> rbind (syn_pack_str payload ''shard'') (\<lambda>payload. Ok (syn_pack_u64 payload index))
        | None \<Rightarrow> Ok payload) (\<lambda>payload.
     rbind (syn_pack_str payload ''outcome'') (\<lambda>payload.
     rbind (syn_pack_str (payload @ [0x81]) ''detail'') (\<lambda>payload.
     rbind (syn_pack_str payload err) (\<lambda>payload.
       Ok (synthetic_of boot_id timestamp STORE_QUARANTINED payload))))))))"

definition ROOT_KEY :: string where
  "ROOT_KEY = ''Machine'' @ CHR 92 # ''System'' @ CHR 92 # ''eventd''"

record applied_value =
  registry_type :: u32
  applied_integer :: u64

record applied_change =
  change_key :: string
  previous :: "applied_value option"
  current :: "applied_value option"

definition pack_side :: "applied_value option \<times> string \<times> string \<Rightarrow> u8 list \<Rightarrow> panic + u8 list" where
  "pack_side = (\<lambda>(side, type_name, value_name) payload.
     case side of
       None \<Rightarrow> Ok payload
     | Some v \<Rightarrow>
         rbind (syn_pack_str payload type_name) (\<lambda>payload.
         rbind (syn_pack_str (syn_pack_u64 payload (ucast (registry_type v))) value_name) (\<lambda>payload.
           Ok (syn_pack_u64 payload (applied_integer v)))))"

definition config_change :: "guid \<Rightarrow> applied_change \<Rightarrow> u64 \<Rightarrow> panic + synthetic_event" where
  "config_change boot_id change timestamp =
     (let sides = [(current change, ''type'', ''value''), (previous change, ''type-previous'', ''value-previous'')];
          present = length (filter (\<lambda>(side, _). side \<noteq> None) sides) in
      rbind (syn_pack_str [0x81] ''config'') (\<lambda>payload.
      rbind (syn_pack_str (payload @ [0x82 + 2 * of_nat present]) ''key'') (\<lambda>payload.
      rbind (syn_pack_str (payload @ [0x81]) ''path'') (\<lambda>payload.
      rbind (syn_pack_str payload ROOT_KEY) (\<lambda>payload.
      rbind (syn_pack_str payload ''name'') (\<lambda>payload.
      rbind (syn_pack_str payload (change_key change)) (\<lambda>payload.
      rbind (try_fold pack_side sides payload) (\<lambda>payload.
        Ok (synthetic_of boot_id timestamp CONFIG_CHANGED payload)))))))))"

section \<open>Documents and their encoding\<close>

datatype doc = DUint u64 | DBool bool | DStr string | DArr "doc list" | DMap "(string \<times> doc) list"

text \<open>The shortest encodings of the format.\<close>

definition uint_bytes :: "u64 \<Rightarrow> u8 list" where
  "uint_bytes v =
     (if unat v < 2 ^ 7 then [of_nat (unat v)]
      else if unat v < 2 ^ 8 then 0xcc # to_be_bytes 1 (unat v)
      else if unat v < 2 ^ 16 then 0xcd # to_be_bytes 2 (unat v)
      else if unat v < 2 ^ 32 then 0xce # to_be_bytes 4 (unat v)
      else 0xcf # to_be_bytes 8 (unat v))"

definition str_bytes :: "string \<Rightarrow> u8 list" where
  "str_bytes s =
     (if length s < 2 ^ 5 then [0xa0 + of_nat (length s)]
      else if length s < 2 ^ 8 then 0xd9 # to_be_bytes 1 (length s)
      else 0xda # to_be_bytes 2 (length s)) @ map byte_of s"

definition array_bytes :: "nat \<Rightarrow> u8 list" where
  "array_bytes n = (if n < 2 ^ 4 then [0x90 + of_nat n] else 0xdc # to_be_bytes 2 n)"

fun doc_bytes :: "doc \<Rightarrow> u8 list" where
  "doc_bytes (DUint v) = uint_bytes v"
| "doc_bytes (DBool b) = [if b then 0xc3 else 0xc2]"
| "doc_bytes (DStr s) = str_bytes s"
| "doc_bytes (DArr ds) = array_bytes (length ds) @ concat (map doc_bytes ds)"
| "doc_bytes (DMap es) = (0x80 + of_nat (length es)) # concat (map (\<lambda>(k, d). str_bytes k @ doc_bytes d) es)"

fun doc_mp :: "doc \<Rightarrow> mp" where
  "doc_mp (DUint v) = MNumber (uint_bytes v)"
| "doc_mp (DBool b) = MBool b"
| "doc_mp (DStr s) = MStr (map byte_of s)"
| "doc_mp (DArr ds) = MArr (map doc_mp ds)"
| "doc_mp (DMap es) = MMap (map (\<lambda>(k, d). (MStr (map byte_of k), doc_mp d)) es)"

fun doc_fits :: "nat \<Rightarrow> doc \<Rightarrow> bool" where
  "doc_fits n (DStr s) = (length s < 2 ^ 16)"
| "doc_fits (Suc n) (DArr ds) = (length ds < 2 ^ 16 \<and> list_all (doc_fits n) ds)"
| "doc_fits (Suc n) (DMap es) = (length es < 2 ^ 4 \<and> list_all (\<lambda>(k, d). length k < 2 ^ 16 \<and> doc_fits n d) es)"
| "doc_fits 0 (DArr ds) = False"
| "doc_fits 0 (DMap es) = False"
| "doc_fits n _ = True"

definition number_value :: "u8 list \<Rightarrow> nat" where
  "number_value bs = (if length bs = 1 then unat (hd bs) else be_value (tl bs))"

lemma unat_small_byte: "n < 256 \<Longrightarrow> unat (of_nat n :: u8) = n"
  by (simp add: unat_of_nat)

lemma number_value_uint: "number_value (uint_bytes v) = unat v"
proof -
  have "unat v < 256 ^ 8" using unat_less_2p [of v] by simp
  moreover have "number_value [of_nat (unat v)] = unat v" if "unat v < 2 ^ 7"
    using that unat_small_byte [of "unat v"] by (simp add: number_value_def)
  moreover have "number_value (m # to_be_bytes k (unat v)) = unat v" if "0 < k" "unat v < 256 ^ k" for m k
    using that by (simp add: number_value_def be_value_to_be_bytes)
  ultimately show ?thesis
    unfolding uint_bytes_def by (simp del: to_be_bytes.simps One_nat_def)
qed

lemma number_form_uint: "number_form (uint_bytes v)"
proof -
  have "number_form [of_nat (unat v)]" if "unat v < 2 ^ 7"
  proof -
    have "(of_nat (unat v) :: u8) \<le> 0x7f" using that unat_small_byte [of "unat v"] by (simp add: word_order)
    then show ?thesis by (simp add: number_form_def number_width_def)
  qed
  moreover have "number_form (0xcc # to_be_bytes 1 n)" "number_form (0xcd # to_be_bytes 2 n)" "number_form (0xce # to_be_bytes 4 n)"
    "number_form (0xcf # to_be_bytes 8 n)" for n
    by (simp_all add: number_form_def number_width_def word_order del: to_be_bytes.simps)
  ultimately show ?thesis unfolding uint_bytes_def by presburger
qed

lemma encodes_str_bytes: "length s < 2 ^ 16 \<Longrightarrow> encodes n (MStr (map byte_of s)) (str_bytes s)"
  unfolding str_bytes_def by (rule enc_str) (auto simp: str_header_def)

lemma encodes_bools: "encodes n (MBool True) [0xc3]" "encodes n (MBool False) [0xc2]"
  using enc_bool [of n True] enc_bool [of n False] by simp_all

lemma encodes_doc: "doc_fits n d \<Longrightarrow> encodes n (doc_mp d) (doc_bytes d)"
proof (induction n d rule: doc_fits.induct)
  case (1 n s)
  then show ?case by (simp add: encodes_str_bytes)
next
  case (2 n ds)
  then have "\<forall>d \<in> set ds. encodes n (doc_mp d) (doc_bytes d)" by (auto simp: list_all_iff)
  then have "encodes_all n (map doc_mp ds) (concat (map doc_bytes ds))"
    by (induction ds) (auto intro: enc_all_nil enc_all_cons)
  moreover have "array_header (length (map doc_mp ds)) (array_bytes (length ds))"
    using "2.prems" by (simp add: array_bytes_def array_header_def)
  ultimately show ?case by (simp add: enc_arr)
next
  case (3 n es)
  then have "\<forall>(k, d) \<in> set es. length k < 2 ^ 16 \<and> encodes n (doc_mp d) (doc_bytes d)" by (auto simp: list_all_iff)
  then have "encodes_all n (flat_entries (map (\<lambda>(k, d). (MStr (map byte_of k), doc_mp d)) es)) (concat (map (\<lambda>(k, d). str_bytes k @ doc_bytes d) es))"
    by (induction es) (auto intro!: enc_all_nil enc_all_cons encodes_str_bytes simp: split_beta)
  moreover have "map_header (length (map (\<lambda>(k, d). (MStr (map byte_of k), doc_mp d)) es)) [0x80 + of_nat (length es)]"
    using "3.prems" by (simp add: map_header_def)
  ultimately show ?case using enc_map by fastforce
qed (auto intro: encodes_bools enc_number number_form_uint)

section \<open>What the packers append\<close>

lemma or_marker_add:
  "n < 32 \<Longrightarrow> (0xa0 OR of_nat n :: u8) = 0xa0 + of_nat n"
  "n < 16 \<Longrightarrow> (0x90 OR of_nat n :: u8) = 0x90 + of_nat n"
proof -
  have or: "n \<in> set [0..<32] \<Longrightarrow> (0xa0 OR of_nat n :: u8) = 0xa0 + of_nat n" "n \<in> set [0..<16] \<Longrightarrow> (0x90 OR of_nat n :: u8) = 0x90 + of_nat n"
    by (simp_all add: upt_rec) (elim disjE; simp)+
  show "n < 32 \<Longrightarrow> (0xa0 OR of_nat n :: u8) = 0xa0 + of_nat n" using or(1) by simp
  show "n < 16 \<Longrightarrow> (0x90 OR of_nat n :: u8) = 0x90 + of_nat n" using or(2) by simp
qed

lemma of_nat_byte_mod: "(of_nat (n mod 256) :: u8) = of_nat n"
  by (simp add: word_unat_eq_iff unat_of_nat)

lemma to_be_bytes_1: "to_be_bytes 1 n = [of_nat n]"
  by (simp add: of_nat_byte_mod)

lemma syn_pack_u64_bytes: "syn_pack_u64 output v = output @ uint_bytes v"
  by (simp add: syn_pack_u64_def uint_bytes_def word_order to_be_bytes_1 del: to_be_bytes.simps One_nat_def)

lemma pack_u64_bytes: "pack_u64 output v = output @ uint_bytes v"
  by (simp add: pack_u64_def uint_bytes_def word_order to_be_bytes_1 del: to_be_bytes.simps One_nat_def)

lemma syn_pack_str_bytes: "syn_pack_str output v = (if length v < 65536 then Ok (output @ str_bytes v) else Err Panic)"
  by (simp add: syn_pack_str_def str_bytes_def or_marker_add to_be_bytes_1 del: to_be_bytes.simps One_nat_def)

lemma pack_str_bytes: "length v < 256 \<Longrightarrow> pack_str output v = Ok (output @ str_bytes v)"
  by (simp add: pack_str_def str_bytes_def or_marker_add to_be_bytes_1 del: to_be_bytes.simps One_nat_def)

lemma pack_array_len_bytes: "pack_array_len output n = (if n < 65536 then Ok (output @ array_bytes n) else Err Panic)"
  by (simp add: pack_array_len_def array_bytes_def or_marker_add del: to_be_bytes.simps One_nat_def)

lemma foldl_pack: "foldl (\<lambda>acc x. acc @ f x) acc xs = acc @ concat (map f xs)"
  by (induction xs arbitrary: acc) auto

definition points_doc :: "(u16 \<times> u64) list \<Rightarrow> doc" where
  "points_doc points = DMap [(''cpus'', DArr (map (\<lambda>(cpu, _). DUint (ucast cpu)) points)), (''sequences'', DArr (map (\<lambda>(_, s). DUint s) points))]"

lemma pack_parallel_arrays_bytes:
  "pack_parallel_arrays output points = (if length points < 65536 then Ok (output @ doc_bytes (points_doc points)) else Err Panic)"
  by (simp add: pack_parallel_arrays_def syn_pack_str_bytes pack_array_len_bytes syn_pack_u64_bytes foldl_pack points_doc_def
      comp_def split_def Let_def)

section \<open>The documents\<close>

definition loss_doc :: "u16 \<Rightarrow> gap \<Rightarrow> doc" where
  "loss_doc cpu_id g = DMap
     [(''buffer'', DMap [(''cpu'', DUint (ucast cpu_id))]),
      (''loss'', DMap
        ([(''sequence'', DUint (first_sequence g)), (''sequence-last'', DUint (last_sequence g)), (''count'', DUint (gap_count g))] @
         (case gap_preceding_timestamp g of None \<Rightarrow> [] | Some t \<Rightarrow> [(''preceding-time'', DUint t)])))]"

definition startup_doc :: "bool \<Rightarrow> u64 \<Rightarrow> (u16 \<times> u64) list \<Rightarrow> doc" where
  "startup_doc restart shard_count points = DMap
     [(''store'', DMap [(''restarted'', DBool restart), (''shard-count'', DUint shard_count), (''resume'', points_doc points)])]"

definition shutdown_doc :: "(u16 \<times> u64) list option \<Rightarrow> doc" where
  "shutdown_doc committed = DMap
     (case committed of None \<Rightarrow> [] | Some points \<Rightarrow> [(''store'', DMap [(''committed'', points_doc points)])])"

definition storage_error_doc :: "string \<Rightarrow> u64 option \<Rightarrow> string \<Rightarrow> doc" where
  "storage_error_doc store shard_index err = DMap
     [(''store'', DMap ((''kind'', DStr store) # (case shard_index of None \<Rightarrow> [] | Some i \<Rightarrow> [(''shard'', DUint i)]))),
      (''outcome'', DMap [(''detail'', DStr err)])]"

definition side_doc :: "applied_value option \<Rightarrow> string \<Rightarrow> string \<Rightarrow> (string \<times> doc) list" where
  "side_doc side type_name value_name =
     (case side of None \<Rightarrow> [] | Some v \<Rightarrow> [(type_name, DUint (ucast (registry_type v))), (value_name, DUint (applied_integer v))])"

definition config_change_doc :: "applied_change \<Rightarrow> doc" where
  "config_change_doc change = DMap
     [(''config'', DMap
       ([(''key'', DMap [(''path'', DStr ROOT_KEY)]), (''name'', DStr (change_key change))] @
        side_doc (current change) ''type'' ''value'' @ side_doc (previous change) ''type-previous'' ''value-previous''))]"

lemmas packed = syn_pack_str_bytes syn_pack_u64_bytes pack_array_len_bytes pack_parallel_arrays_bytes

lemma encode_gap_payload_bytes: "encode_gap_payload cpu_id g = Ok (doc_bytes (loss_doc cpu_id g))"
  by (simp add: encode_gap_payload_def pack_field_def pack_str_bytes pack_u64_bytes loss_doc_def split: option.split)

lemma startup_bytes:
  "startup boot restart n points timestamp =
     (if length points < 65536 then Ok (synthetic_of boot timestamp DAEMON_STARTED (doc_bytes (startup_doc restart n points))) else Err Panic)"
  by (simp add: startup_def packed startup_doc_def)

lemma shutdown_bytes:
  "shutdown boot committed timestamp =
     (if committed \<noteq> None \<and> 65536 \<le> length (the committed) then Err Panic
      else Ok (synthetic_of boot timestamp DAEMON_STOPPED (doc_bytes (shutdown_doc committed))))"
  by (cases committed) (simp_all add: shutdown_def packed shutdown_doc_def)

lemma storage_error_bytes:
  "storage_error boot store shard_index err timestamp =
     (if length store < 65536 \<and> length err < 65536
      then Ok (synthetic_of boot timestamp STORE_QUARANTINED (doc_bytes (storage_error_doc store shard_index err))) else Err Panic)"
  by (cases shard_index) (simp_all add: storage_error_def packed storage_error_doc_def)

lemma config_change_bytes:
  "config_change boot change timestamp =
     (if length (change_key change) < 65536
      then Ok (synthetic_of boot timestamp CONFIG_CHANGED (doc_bytes (config_change_doc change))) else Err Panic)"
  by (cases "current change"; cases "previous change")
    (simp_all add: config_change_def packed config_change_doc_def side_doc_def pack_side_def ROOT_KEY_def)

section \<open>Properties\<close>

text \<open>
  C6. The record of a loss is always written, and its payload is a MessagePack encoding of the documented
  document: the buffer's CPU, and the first and last sequence and the count of the loss, with the preceding time exactly
  when there is one.
\<close>

theorem loss_record_encodes:
  "\<exists>payload. encode_gap_payload cpu_id g = Ok payload \<and> encodes 2 (doc_mp (loss_doc cpu_id g)) payload"
proof -
  have "doc_fits (Suc (Suc 0)) (loss_doc cpu_id g)" by (simp add: loss_doc_def split: option.split)
  then have "encodes 2 (doc_mp (loss_doc cpu_id g)) (doc_bytes (loss_doc cpu_id g))"
    unfolding numeral_2_eq_2 by (rule encodes_doc)
  then show ?thesis using encode_gap_payload_bytes by blast
qed

lemma record_docs_fit:
  "length points < 65536 \<Longrightarrow> doc_fits (Suc (Suc (Suc (Suc 0)))) (startup_doc restart n points)"
  "committed \<noteq> None \<longrightarrow> length (the committed) < 65536 \<Longrightarrow> doc_fits (Suc (Suc (Suc (Suc 0)))) (shutdown_doc committed)"
  "length store < 65536 \<Longrightarrow> length err < 65536 \<Longrightarrow> doc_fits (Suc (Suc (Suc (Suc 0)))) (storage_error_doc store index err)"
  "length (change_key change) < 65536 \<Longrightarrow> doc_fits (Suc (Suc (Suc (Suc 0)))) (config_change_doc change)"
  by (auto simp: startup_doc_def points_doc_def shutdown_doc_def storage_error_doc_def config_change_doc_def side_doc_def ROOT_KEY_def
      list_all_iff split: option.split)


end
