(* ===== verification/Spec2Isabelle.thy ===== *)
theory Spec2Isabelle
  imports Prelude Model Routing Receipt Reconcile Bounded_Queue Boot_Id Sha1 Field Payload_Index
    Msgpack_Grammar Comparison Query_Value Index_Narrowing Query_Ast Query_Lexer Decimal Query_Parser
    Query_Language Query_Grammar Query_Text Stable_Sort Query_Eval Rows Held_Budget Row_Access Time_Ranges
    Row_Scan Row_Merge Row_Narrowing Query_Time Field_Access Field_Verdicts Authorizer Descriptor_Cache
    Shard_Commit Drain Restart Synthetic
begin

text \<open>
  A verification development for eventd, the Peios store of events, logs and metrics.

  \<^bold>\<open>The program.\<close> The daemon (\<^verbatim>\<open>eventd\<close>) drains the per-CPU rings of the kernel's event source, hands the events
  over bounded queues to one writer per SQLite shard, and records for every CPU which sequence numbers are
  stored, so that after a restart it can tell which events were lost. Logs and metrics come by datagram into
  stores of their own. Clients (\<^verbatim>\<open>eventd-client\<close>, the tool \<^verbatim>\<open>evctl\<close>) send a query as text; the daemon parses it,
  selects candidate rows in each store with the help of adaptive payload indexes, evaluates the predicates on each
  row, shows the caller only what the security descriptors allow, and sorts, paginates or aggregates the rest.
  \<^verbatim>\<open>eventd-core\<close> holds what the daemon's threads share: records, queue, shards, receipts, indexes.

  \<^bold>\<open>Conventions.\<close> A Rust \<^verbatim>\<open>u8\<close>, \<^verbatim>\<open>u16\<close>, \<^verbatim>\<open>u32\<close>, \<^verbatim>\<open>u64\<close> or wrapping \<^verbatim>\<open>usize\<close> is a machine word; a
  \<^verbatim>\<open>usize\<close> that counts elements in memory is a natural number. An \<^verbatim>\<open>i64\<close> is a word read as signed, or, for times, an
  integer with the checked, saturating or wrapping operation written out. An \<^verbatim>\<open>f64\<close> is its bit pattern. A string is
  the list of its UTF-8 bytes. A \<^verbatim>\<open>Result\<close> is a sum with the error on the left, a panic is a value of its own,
  and a loop that might not end is a partial function whose value is then \<open>None\<close>; no fuel is used. Calls of the
  platform (the kernel's access check, the registry, SQLite, the MessagePack reader) are arguments of the definitions,
  with what their documentation promises as named hypotheses.

  \<^bold>\<open>Ingestion\<close> (\<^verbatim>\<open>eventd-core/src\<close>).
  \<^item> \<open>Model\<close>: the records handed to the writers (\<^verbatim>\<open>model.rs\<close>).
  \<^item> \<open>Routing\<close>: which shards a drain thread owns and how it stripes over them (\<^verbatim>\<open>routing.rs\<close>). The assignment
    partitions the shards among the threads.
  \<^item> \<open>Receipt\<close>: stored sequence intervals (\<^verbatim>\<open>receipt.rs\<close>). Merging keeps exactly the receipts' sequences, and the
    highest contiguous sequence is what its name says.
  \<^item> \<open>Reconcile\<close>: gap detection after a restart (\<^verbatim>\<open>reconcile.rs\<close>). Along any run of a ring every sequence is
    observed, covered by a receipt, or in exactly one reported gap; a ring that increases never fails.
  \<^item> \<open>Shard_Commit\<close>: the commits of a shard (\<^verbatim>\<open>shard.rs\<close>), statement by statement over the tables, with the payload of a
    gap record and the in-place merge of receipts. A batch is stored as a whole or not at all, with receipts for
    exactly its gaps and stored events; the merge agrees with that of \<open>Receipt\<close>.
  \<^item> \<open>Drain\<close>, \<open>Restart\<close>: the passes of a drain thread over its ring and the scan of a ring that replaces it
    (\<^verbatim>\<open>eventd/src/kmes.rs\<close>), and the receipts read back at start-up (\<^verbatim>\<open>shard.rs\<close>, \<^verbatim>\<open>eventd/src/pipeline.rs\<close>). Through drain,
    commits and restart no passed sequence is reported lost, except that of an event of a type eventd writes
    itself, and that one is.
  \<^item> \<open>Synthetic\<close>: the records eventd writes about itself (\<^verbatim>\<open>eventd/src/synthetic.rs\<close>). Their payloads and that of a
    loss encode the documented documents in the grammar of \<open>Msgpack_Grammar\<close>.
  \<^item> \<open>Bounded_Queue\<close>: the lock-free handoff (\<^verbatim>\<open>queue.rs\<close>), as a step relation over its non-blocking operations.
    Items arrive in order and unchanged, slots and bytes stay within their limits, positions may wrap, and a
    closed queue drains.
  \<^item> \<open>Boot_Id\<close>, \<open>Sha1\<close>, \<open>Field\<close>: identifiers of boots and of fields (\<^verbatim>\<open>boot_id.rs\<close>, \<^verbatim>\<open>field.rs\<close>). Parsing
    inverts printing; the streaming hasher computes SHA-1 however the message is cut.
  \<^item> \<open>Payload_Index\<close>, \<open>Msgpack_Grammar\<close>: the key extractor behind the payload indexes (\<^verbatim>\<open>payload_index.rs\<close>)
    against a grammar of the MessagePack format. On every encoding the extractor finds the leaf the path names.

  \<^bold>\<open>Query language\<close> (\<^verbatim>\<open>eventd/src/query_language.rs\<close>, \<^verbatim>\<open>eventd-client/src/text.rs\<close>).
  \<^item> \<open>Query_Ast\<close>, \<open>Query_Lexer\<close>, \<open>Decimal\<close>, \<open>Query_Parser\<close>: the syntax, tokenizer, number reading and parser.
  \<^item> \<open>Query_Language\<close>: every accepted query is well formed; parsing can panic only where a duration's last
    character is cut, and there it does.
  \<^item> \<open>Query_Grammar\<close>: the expression parser accepts exactly a grammar's phrases, with its trees.
  \<^item> \<open>Query_Text\<close>: the client's quoting of a value is read back as one token with that value.

  \<^bold>\<open>Query execution\<close> (\<^verbatim>\<open>eventd/src/query\<close>).
  \<^item> \<open>Comparison\<close>, \<open>Query_Value\<close>: values, their exact comparison across number types, and flattening (\<^verbatim>\<open>value.rs\<close>).
    The order is a total preorder, and equality is equality of canonical forms.
  \<^item> \<open>Query_Eval\<close>: evaluation of predicates and the SQL constraints they give (\<^verbatim>\<open>executor.rs\<close>). Evaluation answers
    except where a text operator cuts a character; glob matching ends and finds what a pattern means.
  \<^item> \<open>Stable_Sort\<close>, \<open>Rows\<close>, \<open>Held_Budget\<close>: ordering, pagination, and the memory budget of running queries.
    Trimming while gathering does not change the page; in every interleaving the shared counter is within its limit.
  \<^item> \<open>Query_Time\<close>: the times a query names (\<^verbatim>\<open>executor/time.rs\<close>). Calendar times count days one by one.
  \<^item> \<open>Time_Ranges\<close>: narrowing and combining time ranges. Narrowing keeps every matching row, and range lists
    represent the sets of times they stand for.
  \<^item> \<open>Row_Scan\<close>, \<open>Row_Merge\<close>: rows of events and logs, the scan of all shards and the visitor of a query. The
    merge of the shards emits the page that sorting everything would give.
  \<^item> \<open>Index_Narrowing\<close>, \<open>Row_Narrowing\<close>: where the index and the query meet. Searching for the key of an equality
    misses no row; searching for absent keys can miss one.

  \<^bold>\<open>Access control\<close> (\<^verbatim>\<open>eventd/src/query/security.rs\<close>, \<^verbatim>\<open>executor.rs\<close>, \<^verbatim>\<open>eventd-client/src/access.rs\<close>).
  \<^item> \<open>Field_Access\<close>, \<open>Field_Verdicts\<close>: governing patterns and object type lists. The verdict on a field depends
    only on the identifiers of the prefixes of its path.
  \<^item> \<open>Authorizer\<close>: the questions about a record and about an identifier agree.
  \<^item> \<open>Descriptor_Cache\<close>: the descriptor cache with its handlers, watcher and registry as a step relation. What
    is served was read after the last invalidation; a failed watch denies.
  \<^item> \<open>Row_Access\<close>: the per-query cache of answers and the fields shown of a row. A shown row has the allowed
    fields only, and cached answers belong to the current generation.

  \<open>Prelude\<close> and \<open>Text_Bytes\<close> hold the shared vocabulary and lemmas. Interfaces between components are locales,
  interpreted on these definitions: sorting and its comparisons (\<open>Receipt\<close>, \<open>Comparison\<close>, \<open>Stable_Sort\<close>), the consumer of the
  queue (\<open>Bounded_Queue\<close>), sets of times
  (\<open>Time_Ranges\<close>), and the generation-checked cache (\<open>Descriptor_Cache\<close>).

  \<^bold>\<open>Bounds.\<close> The nesting of expressions is limited to 128 and that of payloads to the extractor's \<open>MAX_DEPTH\<close>, as in the
  code; the theorems about them state the limits. \<open>descriptors_current\<close> is about fewer than 2 to the 64 invalidations,
  since the code's generation counter repeats then. Results on object type lists are about the at most 1024 entries the
  kernel accepts.

  \<^bold>\<open>Not modelled.\<close> Of the SQLite stores only the commits of an event shard and its receipts are modelled; opening,
  schema checks, retention and indexes of a shard, and the other stores (\<^verbatim>\<open>log_store.rs\<close>, \<^verbatim>\<open>metric_store.rs\<close>,
  \<^verbatim>\<open>meta_store.rs\<close>, \<^verbatim>\<open>schema.rs\<close>, \<^verbatim>\<open>writer_lock.rs\<close>) are SQL text run by a library. The effect of a statement on the
  tables is SQLite's documented one and a hypothesis, \<open>sql_documented\<close>; so is what a query for the receipts returns,
  \<open>query_documented\<close>. The daemon's threads, sockets and files (\<^verbatim>\<open>pipeline.rs\<close>, the attachment and waiting of \<^verbatim>\<open>kmes.rs\<close>,
  \<^verbatim>\<open>datagram.rs\<close>, \<^verbatim>\<open>directory.rs\<close>, \<^verbatim>\<open>query/mod.rs\<close>, \<^verbatim>\<open>writer.rs\<close>, \<^verbatim>\<open>retention.rs\<close>) are
  system calls around the modelled parts. The aggregation and metric pipelines of
  \<^verbatim>\<open>executor.rs\<close> rest on floating-point arithmetic, which is not modelled beyond comparison. Validation of log and
  metric datagrams goes through the platform's reader field by field. Configuration, diagnostics, health sampling, and
  the command-line tool read or print values. Blocking operations of the queue wait on the modelled ones.
\<close>

end
